(* ===== verification/Prelude.thy ===== *)
theory Prelude
  imports Main "HOL-Library.Word"
begin

text \<open>
  The vocabulary shared by every component of the development: machine integers and
  identifiers, Go's error values with \<open>errors.Is\<close>, the outcome of a Go call, and the
  generic facts on 64-bit offsets and on lists that the component proofs rely on.

  A Go call is modelled by the value it returns, \<open>Ret v\<close>, by \<open>Panic m\<close> when it panics
  with message \<open>m\<close>, or by \<open>Running\<close> when it has used up the finite trace of what its
  environment did (database snapshots, wake-ups, messages) and is still executing.  A
  Go function with several results returns a tuple; its \<open>error\<close> result is an
  \<open>err option\<close>, with \<open>None\<close> for \<open>nil\<close>.
\<close>

named_theorems go_simps \<open>equations of the outcome of Go calls\<close>
named_theorems offset_simps \<open>order facts on 64-bit offsets\<close>

section \<open>Machine integers, identifiers and time\<close>

type_synonym u64 = "64 word"
type_synonym offset = u64
type_synonym bytes = "8 word list"

text \<open>Instants and durations in nanoseconds.\<close>

type_synonym time = int
type_synonym duration = int

text \<open>\<open>uuidpb.UUID\<close>: two 64-bit halves, as \<open>GetUpper\<close> and \<open>GetLower\<close> read them.\<close>

datatype uuid = UUID (upper: u64) (lower: u64)

instantiation uuid :: linorder
begin

definition less_eq_uuid :: "uuid \<Rightarrow> uuid \<Rightarrow> bool" where
  "less_eq_uuid a b \<longleftrightarrow> upper a < upper b \<or> (upper a = upper b \<and> lower a \<le> lower b)"

definition less_uuid :: "uuid \<Rightarrow> uuid \<Rightarrow> bool" where
  "less_uuid a b \<longleftrightarrow> upper a < upper b \<or> (upper a = upper b \<and> lower a < lower b)"

instance
  by standard (auto simp: less_eq_uuid_def less_uuid_def intro: uuid.expand)

end

instance uuid :: finite
proof
  have "(UNIV :: uuid set) = (\<lambda>(u, l). UUID u l) ` (UNIV :: (u64 \<times> u64) set)"
    by (auto simp: image_def) (metis uuid.exhaust)
  then show "finite (UNIV :: uuid set)" by (metis finite finite_imageI)
qed

section \<open>Errors\<close>

text \<open>
  The error variables that the engine, and the packages it calls, compare errors with
  (\<open>internal/eventstream/source/errors.go\<close>, \<open>internal/eventstream/feed.go\<close>,
  \<open>internal/eventstream/catalog.go\<close>, \<open>internal/messagepump/driver.go\<close>, \<open>context\<close>,
  \<open>io\<close>, \<open>errors\<close>, \<open>database/sql\<close>, \<open>dogma\<close>).
\<close>

datatype sentinel =
    ErrConsumerTooSlow
  | ErrUnrecognizedStream
  | ErrOffsetOutOfRange
  | ErrInvalidSegment
  | errFeedClosed
  | errCaughtUp
  | ErrStreamNotFound
  | ErrFailed
  | ErrBusy
  | ErrUnsupported
  | ErrNotSupported
  | ErrNoRows
  | ErrEventObserverNotSatisfied
  | Canceled
  | DeadlineExceeded
  | EOF

text \<open>
  An error is one of these, a plain message, a \<open>fmt.Errorf\<close> that wraps others with
  \<open>%w\<close>, a gRPC status, one of the supervisor's two wrappers, a recovered panic, or an
  opaque error of a driver or an application handler.
\<close>

datatype grpc_code =
    Aborted | Unimplemented | NotFound | OutOfRange | InvalidArgument | OtherCode nat

datatype err =
    Sentinel sentinel
  | New string
  | Errorf string "err list"
  | Status grpc_code string
  | fatalError err
  | persistentError err
  | PanicError string "err option"
  | Foreign nat

text \<open>\<open>errors.Is\<close>: the error itself, or one that it wraps, is the sentinel.\<close>

fun errors_Is :: "err \<Rightarrow> sentinel \<Rightarrow> bool" where
  "errors_Is (Sentinel s) t = (s = t)"
| "errors_Is (New m) t = False"
| "errors_Is (Errorf m es) t = list_ex (\<lambda>e. errors_Is e t) es"
| "errors_Is (Status c m) t = False"
| "errors_Is (fatalError e) t = errors_Is e t"
| "errors_Is (persistentError e) t = errors_Is e t"
| "errors_Is (PanicError m (Some e)) t = errors_Is e t"
| "errors_Is (PanicError m None) t = False"
| "errors_Is (Foreign n) t = False"

text \<open>\<open>errors.Is\<close> on the \<open>error\<close> result of a call, where \<open>nil\<close> is nothing.\<close>

definition err_Is :: "err option \<Rightarrow> sentinel \<Rightarrow> bool" where
  "err_Is e t = (case e of None \<Rightarrow> False | Some x \<Rightarrow> errors_Is x t)"

lemma err_Is_simps [simp]:
  "err_Is None t = False"
  "err_Is (Some x) t = errors_Is x t"
  by (simp_all add: err_Is_def)

section \<open>Outcomes of Go calls\<close>

datatype 'a go = Ret 'a | Panic string | Running

fun go_bind :: "'a go \<Rightarrow> ('a \<Rightarrow> 'b go) \<Rightarrow> 'b go" where
  "go_bind (Ret a) f = f a"
| "go_bind (Panic m) f = Panic m"
| "go_bind Running f = Running"

lemma go_bind_assoc [simp]: "go_bind (go_bind x f) g = go_bind x (\<lambda>a. go_bind (f a) g)"
  by (cases x) auto

lemma go_bind_Ret [simp]: "go_bind x Ret = x"
  by (cases x) auto

lemma go_bind_eq_Ret [go_simps]:
  "go_bind x f = Ret b \<longleftrightarrow> (\<exists>a. x = Ret a \<and> f a = Ret b)"
  by (cases x) auto

text \<open>Indexing a slice, which panics out of range.\<close>

definition index :: "'a list \<Rightarrow> int \<Rightarrow> 'a go" where
  "index xs i = (if 0 \<le> i \<and> i < int (length xs) then Ret (xs ! nat i)
     else Panic ''index out of range'')"

lemma index_Ret [go_simps]: "0 \<le> i \<Longrightarrow> i < int (length xs) \<Longrightarrow> index xs i = Ret (xs ! nat i)"
  by (simp add: index_def)

text \<open>A loop that keeps the elements on which a call that may panic returns true.\<close>

fun go_filter :: "('a \<Rightarrow> bool go) \<Rightarrow> 'a list \<Rightarrow> 'a list go" where
  "go_filter p [] = Ret []"
| "go_filter p (x # xs) =
     go_bind (p x) (\<lambda>b. go_bind (go_filter p xs) (\<lambda>ys. Ret (if b then x # ys else ys)))"

lemma go_filter_Ret [go_simps]:
  "(\<And>x. x \<in> set xs \<Longrightarrow> p x = Ret (q x)) \<Longrightarrow> go_filter p xs = Ret (filter q xs)"
  by (induction xs) auto

section \<open>Offsets\<close>

text \<open>
  Offsets are unsigned 64-bit integers, so \<open>o + 1\<close> wraps at the top of the range.
  Below another offset it does not, which is how the code keeps its arithmetic safe.
\<close>

lemma offset_Suc_greater [offset_simps]: "(a::offset) < e \<Longrightarrow> a < a + 1"
  by unat_arith

lemma offset_Suc_le [offset_simps]: "(a::offset) < e \<Longrightarrow> a + 1 \<le> e"
  by unat_arith

lemma offset_less_Suc [offset_simps]: "(a::offset) < e \<Longrightarrow> x < a + 1 \<longleftrightarrow> x \<le> a"
  by unat_arith

lemma offset_Suc_le_iff [offset_simps]: "(a::offset) < e \<Longrightarrow> a + 1 \<le> x \<longleftrightarrow> a < x"
  by unat_arith

lemma unat_offset_Suc: "(a::offset) < e \<Longrightarrow> unat (a + 1) = Suc (unat a)"
  by unat_arith

lemma offset_numeral_le_one [simp]:
  "(numeral n :: offset) \<le> 1 \<longleftrightarrow> unat (numeral n :: offset) \<le> 1"
  "(numeral n :: offset) < 1 \<longleftrightarrow> unat (numeral n :: offset) < 1"
  by (simp_all add: word_le_nat_alt word_less_nat_alt)

section \<open>Lists\<close>

lemma take_filter_upto:
  assumes "sorted_wrt (\<lambda>x y. f x < f y) xs" and "n < length xs"
  shows "take n xs = filter (\<lambda>x. f x < (f (xs ! n) :: 'a :: linorder)) xs"
  using assms
proof (induction xs arbitrary: n)
  case (Cons x xs)
  show ?case
  proof (cases n)
    case 0
    have "filter (\<lambda>y. f y < f x) xs = []"
      using Cons.prems(1) by (auto simp: filter_empty_conv)
    then show ?thesis using 0 by simp
  next
    case (Suc m)
    then have "f x < f (xs ! m)" using Cons.prems by simp
    then show ?thesis using Cons Suc by simp
  qed
qed simp

lemma drop_filter_from:
  assumes "sorted_wrt (\<lambda>x y. f x < f y) xs" and "n < length xs"
  shows "drop n xs = filter (\<lambda>x. (f (xs ! n) :: 'a :: linorder) \<le> f x) xs"
  using assms
proof (induction xs arbitrary: n)
  case (Cons x xs)
  show ?case
  proof (cases n)
    case 0
    have "filter (\<lambda>y. f x \<le> f y) xs = xs"
      using Cons.prems(1) by (auto simp: filter_id_conv)
    then show ?thesis using 0 by simp
  next
    case (Suc m)
    then have "\<not> f (xs ! m) \<le> f x" using Cons.prems by (simp add: not_le)
    then show ?thesis using Cons Suc by simp
  qed
qed simp

lemma drop_filter_after:
  assumes "sorted_wrt (\<lambda>x y. f x < f y) xs" and "n < length xs"
  shows "drop (Suc n) xs = filter (\<lambda>x. (f (xs ! n) :: 'a :: linorder) < f x) xs"
  using assms
proof (induction xs arbitrary: n)
  case (Cons x xs)
  show ?case
  proof (cases n)
    case 0
    have "filter (\<lambda>y. f x < f y) xs = xs"
      using Cons.prems(1) by (auto simp: filter_id_conv)
    then show ?thesis using 0 by simp
  next
    case (Suc m)
    then have "\<not> f (xs ! m) < f x" using Cons.prems by (simp add: not_less less_imp_le)
    then show ?thesis using Cons Suc by simp
  qed
qed simp

lemma drop_eq_filter:
  "m \<le> length xs \<Longrightarrow> (\<And>k. k < m \<Longrightarrow> \<not> p (xs ! k)) \<Longrightarrow>
     (\<And>k. m \<le> k \<Longrightarrow> k < length xs \<Longrightarrow> p (xs ! k)) \<Longrightarrow> drop m xs = filter p xs"
proof (induction xs arbitrary: m)
  case (Cons x xs)
  show ?case
  proof (cases m)
    case 0
    then have "\<And>y. y \<in> set (x # xs) \<Longrightarrow> p y"
      using Cons.prems(3) by (metis in_set_conv_nth le0)
    then show ?thesis using 0 by (simp add: filter_id_conv)
  next
    case (Suc n)
    have "drop n xs = filter p xs"
      using Cons.prems Suc by (intro Cons.IH) fastforce+
    moreover have "\<not> p x" using Cons.prems(2)[of 0] Suc by simp
    ultimately show ?thesis using Suc by simp
  qed
qed simp

text \<open>Two ranges of a sorted list that meet at \<open>m\<close>, one after the other, are one range.\<close>

lemma filter_split_sorted:
  assumes "sorted_wrt (\<lambda>x y. f x < (f y :: 'a :: linorder)) xs" and "b \<le> m" and "m \<le> e"
  shows "filter (\<lambda>x. b \<le> f x \<and> f x < m \<and> p x) xs @ filter (\<lambda>x. m \<le> f x \<and> f x < e \<and> p x) xs
    = filter (\<lambda>x. b \<le> f x \<and> f x < e \<and> p x) xs"
  using assms(1)
proof (induction xs)
  case (Cons x xs)
  show ?case
  proof (cases "f x < m")
    case True
    then show ?thesis using Cons assms(2,3) by auto
  next
    case False
    then have "filter (\<lambda>x. b \<le> f x \<and> f x < m \<and> p x) xs = []"
      using Cons.prems by (fastforce simp: filter_empty_conv)
    then show ?thesis using Cons False assms(2,3) by auto
  qed
qed simp

end
