(* ===== verification/Streams.thy ===== *)
theory Streams
  imports Prelude
begin

text \<open>
  Messages, event streams and the segments in which events travel through the engine
  (\<open>internal/eventstream/source/segment.go\<close>, \<open>source.go\<close>), and the contract that every
  implementation of the \<open>Source\<close> interface keeps.

  The envelope types belong to \<open>github.com/dogmatiq/protobuf/envelopepb\<close>; the records
  below have the fields that the engine reads through the generated getters.  The
  specification of a stream is its log: every envelope ever appended to it, in offset
  order.  A segment is \<^emph>\<open>truthful\<close> if it holds exactly the events of the log within its
  bounds that have the requested types, and a sequence of segments is a \<^emph>\<open>chain\<close> if each
  begins where the previous one ended.  A chain of truthful segments delivers every
  matching event exactly once and in order (\<open>chain_window\<close>).
\<close>

named_theorems stream_simps \<open>facts on logs, windows and chains\<close>

section \<open>Envelopes\<close>

text \<open>An extension of a message body: \<open>GetExtension\<close> finds none, fails, or finds a value.\<close>

datatype 'a extension = Absent | Malformed err | Present 'a

record position =
  StreamId :: uuid
  Offset :: offset

record header =
  CausationId :: uuid
  CorrelationId :: uuid
  SourceHandler :: uuid
  SourceInstanceId :: string

record body =
  MessageId :: uuid
  TypeId :: uuid
  CreatedAt :: time
  ScheduledFor :: time
  IdempotencyKey :: string
  Data :: bytes
  Position :: "position extension"

record envelope =
  Header :: header
  Body :: body

text \<open>\<open>offsetOf\<close>: \<open>MustGetExtension\<close> panics if the extension is missing or malformed.\<close>

definition offsetOf :: "envelope \<Rightarrow> offset go" where
  "offsetOf env = (case Position (Body env) of
     Present pos \<Rightarrow> Ret (Offset pos)
   | Absent \<Rightarrow> Panic ''extension is not present''
   | Malformed e \<Rightarrow> Panic ''extension is malformed'')"

definition off :: "envelope \<Rightarrow> offset" where
  "off env = (case Position (Body env) of Present pos \<Rightarrow> Offset pos | _ \<Rightarrow> 0)"

definition positioned :: "uuid \<Rightarrow> envelope \<Rightarrow> bool" where
  "positioned sid env = (case Position (Body env) of Present pos \<Rightarrow> StreamId pos = sid | _ \<Rightarrow> False)"

lemma offsetOf_positioned [go_simps]: "positioned sid env \<Longrightarrow> offsetOf env = Ret (off env)"
  by (auto simp: positioned_def offsetOf_def off_def split: extension.splits)

text \<open>A bare event at a position, for examples.\<close>

definition event_at :: "uuid \<Rightarrow> uuid \<Rightarrow> offset \<Rightarrow> envelope" where
  "event_at sid tid offset = \<lparr>
     Header = \<lparr>CausationId = UUID 0 9, CorrelationId = UUID 0 9, SourceHandler = UUID 0 7,
       SourceInstanceId = ''i''\<rparr>,
     Body = \<lparr>MessageId = UUID 5 offset, TypeId = tid, CreatedAt = 0, ScheduledFor = 0,
       IdempotencyKey = [], Data = [], Position = Present \<lparr>StreamId = sid, Offset = offset\<rparr>\<rparr>\<rparr>"

lemma event_at_simps [simp]:
  "off (event_at sid tid offset) = offset"
  "positioned sid' (event_at sid tid offset) \<longleftrightarrow> sid' = sid"
  "TypeId (Body (event_at sid tid offset)) = tid"
  "offsetOf (event_at sid tid offset) = Ret offset"
  by (auto simp: event_at_def off_def positioned_def offsetOf_def)

section \<open>Segments\<close>

text \<open>A set of message types; \<open>None\<close> is the nil set, which matches every type.\<close>

type_synonym types = "uuid set option"

definition wants :: "types \<Rightarrow> envelope \<Rightarrow> bool" where
  "wants types env = (case types of None \<Rightarrow> True | Some ids \<Rightarrow> TypeId (Body env) \<in> ids)"

lemma wants_simps [simp]:
  "wants None env"
  "wants (Some ids) env \<longleftrightarrow> TypeId (Body env) \<in> ids"
  by (simp_all add: wants_def)

record segment =
  StreamID :: uuid
  Begin :: offset
  End :: offset
  Envelopes :: "envelope list"

definition panicIfEmpty :: "types \<Rightarrow> unit go" where
  "panicIfEmpty types =
     (if types = Some {} then Panic ''message types must not be empty'' else Ret ())"

lemma panicIfEmpty_Ret [simp]: "types \<noteq> Some {} \<Longrightarrow> panicIfEmpty types = Ret ()"
  by (simp add: panicIfEmpty_def)

definition filterSegment :: "segment \<Rightarrow> types \<Rightarrow> segment" where
  "filterSegment seg types = (case types of
     None \<Rightarrow> seg
   | Some ids \<Rightarrow> seg\<lparr>Envelopes := filter (\<lambda>env. TypeId (Body env) \<in> ids) (Envelopes seg)\<rparr>)"

section \<open>Logs, windows and chains\<close>

text \<open>The log of a stream holds its envelopes at strictly increasing offsets.\<close>

definition wf_log :: "uuid \<Rightarrow> envelope list \<Rightarrow> bool" where
  "wf_log sid log \<longleftrightarrow> (\<forall>env \<in> set log. positioned sid env) \<and> sorted_wrt (\<lambda>x y. off x < off y) log"

text \<open>The events of the log in \<open>[b, e)\<close> that have the given types.\<close>

definition window :: "envelope list \<Rightarrow> types \<Rightarrow> offset \<Rightarrow> offset \<Rightarrow> envelope list" where
  "window log types b e = filter (\<lambda>x. b \<le> off x \<and> off x < e \<and> wants types x) log"

definition truthful :: "envelope list \<Rightarrow> uuid \<Rightarrow> types \<Rightarrow> segment \<Rightarrow> bool" where
  "truthful log sid types seg \<longleftrightarrow> StreamID seg = sid \<and> Begin seg \<le> End seg
     \<and> Envelopes seg = window log types (Begin seg) (End seg)"

fun chain :: "offset \<Rightarrow> segment list \<Rightarrow> offset \<Rightarrow> bool" where
  "chain b [] e \<longleftrightarrow> b = e"
| "chain b (seg # segs) e \<longleftrightarrow> Begin seg = b \<and> chain (End seg) segs e"

lemma wf_logD [dest]:
  "wf_log sid log \<Longrightarrow> env \<in> set log \<Longrightarrow> positioned sid env"
  "wf_log sid log \<Longrightarrow> sorted_wrt (\<lambda>x y. off x < off y) log"
  by (simp_all add: wf_log_def)

lemma in_window [stream_simps]:
  "env \<in> set (window log types b e) \<longleftrightarrow> env \<in> set log \<and> b \<le> off env \<and> off env < e \<and> wants types env"
  by (auto simp: window_def)

lemma window_empty [simp]: "window log types b b = []"
  by (auto simp: window_def filter_empty_conv)

lemma window_sorted [stream_simps]:
  "wf_log sid log \<Longrightarrow> sorted_wrt (\<lambda>x y. off x < off y) (window log types b e)"
  by (simp add: window_def wf_log_def sorted_wrt_filter)

lemma window_split [stream_simps]:
  "wf_log sid log \<Longrightarrow> b \<le> m \<Longrightarrow> m \<le> e \<Longrightarrow>
     window log types b m @ window log types m e = window log types b e"
  unfolding window_def wf_log_def by (rule filter_split_sorted) auto

lemma window_filter [stream_simps]:
  "ids \<subseteq> watched \<Longrightarrow>
     filter (\<lambda>env. TypeId (Body env) \<in> ids) (window log (Some watched) b e) = window log (Some ids) b e"
  "filter (\<lambda>env. TypeId (Body env) \<in> ids) (window log None b e) = window log (Some ids) b e"
  by (auto simp: window_def intro!: filter_cong)

lemma window_from [stream_simps]:
  "b \<le> m \<Longrightarrow> filter (\<lambda>x. m \<le> off x) (window log types b e) = window log types m e"
  by (auto simp: window_def intro!: filter_cong)

text \<open>Dropping the oldest events of a window leaves the window that begins after the last of them.\<close>

lemma window_nth_bounds:
  "k < length (window log types b e) \<Longrightarrow>
     b \<le> off (window log types b e ! k) \<and> off (window log types b e ! k) < e"
  using in_window nth_mem by blast

lemma window_drop:
  assumes "wf_log sid log" and "k < length (window log types b e)"
  shows "drop (Suc k) (window log types b e) = window log types (off (window log types b e ! k) + 1) e"
proof -
  let ?w = "window log types b e"
  have o: "b \<le> off (?w ! k)" "off (?w ! k) < e"
    using window_nth_bounds[OF assms(2)] by auto
  have "drop (Suc k) ?w = filter (\<lambda>x. off (?w ! k) < off x) ?w"
    using window_sorted[OF assms(1)] assms(2) by (rule drop_filter_after)
  also have "\<dots> = filter (\<lambda>x. off (?w ! k) + 1 \<le> off x) ?w"
    using o(2) by (simp add: offset_Suc_le_iff)
  also have "\<dots> = window log types (off (?w ! k) + 1) e"
    using o by (intro window_from) (meson offset_Suc_greater less_imp_le order_trans)
  finally show ?thesis .
qed

lemma window_take:
  assumes "wf_log sid log" and "k < length (window log types b e)"
  shows "take (Suc k) (window log types b e) = window log types b (off (window log types b e ! k) + 1)"
proof -
  let ?w = "window log types b e" and ?m = "off (window log types b e ! k) + 1"
  have "b \<le> off (?w ! k)" "off (?w ! k) < e"
    using window_nth_bounds[OF assms(2)] by auto
  then have "b \<le> ?m" "?m \<le> e"
    using offset_Suc_greater offset_Suc_le by (meson less_imp_le order_trans)+
  then have "?w = window log types b ?m @ drop (Suc k) ?w"
    using window_split[OF assms(1)] window_drop[OF assms] by simp
  then show ?thesis by (metis append_take_drop_id append_same_eq)
qed

text \<open>Only what is appended below \<open>e\<close> matters to a window that ends at \<open>e\<close>.\<close>

lemma window_append [stream_simps]:
  "(\<And>x. x \<in> set new \<Longrightarrow> e \<le> off x) \<Longrightarrow> window (log @ new) types b e = window log types b e"
  by (auto simp: window_def filter_empty_conv dest: leD)

lemma chain_append [stream_simps]:
  "chain b (xs @ ys) e \<longleftrightarrow> (\<exists>m. chain b xs m \<and> chain m ys e)"
  by (induction xs arbitrary: b) auto

lemma chain_le:
  "chain b segs e \<Longrightarrow> (\<And>seg. seg \<in> set segs \<Longrightarrow> Begin seg \<le> End seg) \<Longrightarrow> b \<le> e"
  by (induction segs arbitrary: b) (auto intro: order_trans)

lemma truthful_le: "truthful log sid types seg \<Longrightarrow> Begin seg \<le> End seg"
  by (simp add: truthful_def)

text \<open>A chain of truthful segments delivers a whole window of the log, once and in order.\<close>

lemma chain_window:
  assumes "wf_log sid log" and "chain b segs e"
    and "\<And>seg. seg \<in> set segs \<Longrightarrow> truthful log sid types seg"
  shows "concat (map Envelopes segs) = window log types b e"
  using assms(2,3)
proof (induction segs arbitrary: b)
  case (Cons seg segs)
  then have "truthful log sid types seg" and b: "Begin seg = b" and rest: "chain (End seg) segs e"
    by auto
  then have "Envelopes seg = window log types b (End seg)" and "b \<le> End seg"
    by (auto simp: truthful_def)
  moreover have "concat (map Envelopes segs) = window log types (End seg) e"
    using rest Cons.prems(2) by (intro Cons.IH) auto
  moreover have "End seg \<le> e"
    using rest by (rule chain_le) (meson Cons.prems(2) list.set_intros(2) truthful_le)
  ultimately show ?case using window_split[OF assms(1)] by simp
qed simp

section \<open>The Source interface\<close>

text \<open>
  \<open>Source.Read\<close> calls \<open>fn\<close> with one segment after another.  The callback carries a state of
  its own, and stops the read by returning an error.  \<open>run_segments\<close> is what a caller sees
  of a read that has the segments \<open>segs\<close> to deliver and would then end with \<open>r\<close>.
\<close>

type_synonym 's callback = "segment \<Rightarrow> 's \<Rightarrow> err option \<times> 's"

fun run_segments :: "'s callback \<Rightarrow> segment list \<Rightarrow> err option go \<Rightarrow> 's \<Rightarrow> err option go \<times> 's" where
  "run_segments fn [] r s = (r, s)"
| "run_segments fn (seg # segs) r s = (case fn seg s of
     (Some e, s') \<Rightarrow> (Ret (Some e), s')
   | (None, s') \<Rightarrow> run_segments fn segs r s')"

text \<open>Two callbacks that accept everything: one keeps the events, the other the segments.\<close>

definition collect :: "envelope list callback" where
  "collect seg seen = (None, seen @ Envelopes seg)"

definition keep :: "segment list callback" where
  "keep seg segs = (None, segs @ [seg])"

lemma run_segments_keep [simp]: "run_segments keep segs r acc = (r, acc @ segs)"
  by (induction segs arbitrary: acc) (simp_all add: keep_def)

lemma run_segments_collect [simp]:
  "run_segments collect segs r acc = (r, acc @ concat (map Envelopes segs))"
  by (induction segs arbitrary: acc) (simp_all add: collect_def)

text \<open>
  What a \<open>Source\<close> promises of \<open>Read\<close>: whatever happens around it (\<open>env\<close>: the database
  snapshots its queries see, the replies of a remote engine), it delivers a chain of
  truthful segments from the requested offset, each of which advances the offset; if it
  returns nil, the chain reaches the end of the stream as it stood when the call began.  It
  does not panic.
\<close>

locale event_source =
  fixes read :: "'env \<Rightarrow> uuid \<Rightarrow> types \<Rightarrow> offset \<Rightarrow> 's callback \<Rightarrow> 's \<Rightarrow> err option go \<times> 's"
    and log :: "'env \<Rightarrow> uuid \<Rightarrow> envelope list"
    and stream_end :: "'env \<Rightarrow> uuid \<Rightarrow> offset"
    and ok :: "'env \<Rightarrow> bool"
  assumes log_wf: "ok env \<Longrightarrow> wf_log sid (log env sid)"
    and read_plan: "ok env \<Longrightarrow> types \<noteq> Some {} \<Longrightarrow>
      \<exists>segs r e. (\<forall>fn s. read env sid types b fn s = run_segments fn segs r s) \<and> chain b segs e
        \<and> (\<forall>seg \<in> set segs. truthful (log env sid) sid types seg \<and> Begin seg < End seg)
        \<and> (r = Ret None \<longrightarrow> stream_end env sid \<le> e) \<and> (\<forall>m. r \<noteq> Panic m)"
begin

text \<open>A callback that accepts every segment and keeps the events receives a window of the log.\<close>

lemma read_collects:
  assumes "ok env" and "types \<noteq> Some {}"
    and "\<And>seg s. fn seg s = (None, g seg s)" and "\<And>seg s. seen (g seg s) = seen s @ Envelopes seg"
    and "read env sid types b fn s = (r, s')"
  shows "\<exists>e. seen s' = seen s @ window (log env sid) types b e \<and> b \<le> e
    \<and> (r = Ret None \<longrightarrow> stream_end env sid \<le> e)"
proof -
  obtain segs r' e where run: "\<forall>fn s. read env sid types b fn s = run_segments fn segs r' s"
    and c: "chain b segs e"
    and t: "\<And>seg. seg \<in> set segs \<Longrightarrow> truthful (log env sid) sid types seg"
    and e: "r' = Ret None \<longrightarrow> stream_end env sid \<le> e"
    using read_plan[OF assms(1,2), of sid b] by blast
  have "fst (run_segments fn segs r' s) = r'
      \<and> seen (snd (run_segments fn segs r' s)) = seen s @ concat (map Envelopes segs)" for segs s
    by (induction segs arbitrary: s) (auto simp: assms(3,4))
  then have "r = r'" and "seen s' = seen s @ concat (map Envelopes segs)"
    using run assms(5) by (metis fst_conv snd_conv)+
  moreover have "concat (map Envelopes segs) = window (log env sid) types b e"
    using log_wf[OF assms(1)] c t by (rule chain_window)
  moreover have "b \<le> e" using c by (rule chain_le) (meson t truthful_le)
  ultimately show ?thesis using e by auto
qed

end

end
