(* ===== verification/Cache.thy ===== *)
theory Cache
  imports Streams "HOL-Library.Sublist"
begin

text \<open>
  The cache of a stream's most recent events (\<open>internal/eventstream/internal/cache\<close>).
  \<open>cache_inv\<close> is the promise of the type's documentation: the cache holds a contiguous
  segment \<open>[Begin, End)\<close> of the stream, within it every event of the watched types and no
  others, and never more than its capacity.  \<open>Append\<close> keeps it, evicting the oldest events
  only when it must, and \<open>Segment.Read\<close>, which finds the first event with Go's binary
  search, returns exactly what the log holds from the checkpoint.
\<close>

section \<open>Data\<close>

text \<open>\<open>cache.Segment\<close>, an immutable snapshot.\<close>

record cache_segment =
  sBegin :: offset
  sEnd :: offset
  sEvents :: "envelope list"

record cache =
  capacity :: int
  snapshot :: cache_segment

datatype relation = Before | Within | After

section \<open>Operations\<close>

definition Reset :: "cache \<Rightarrow> offset \<Rightarrow> cache" where
  "Reset c begin = c\<lparr>snapshot := \<lparr>sBegin = begin, sEnd = begin, sEvents = []\<rparr>\<rparr>"

definition New_cache :: "int \<Rightarrow> offset \<Rightarrow> cache go" where
  "New_cache cap begin =
     (if cap \<le> 0 then Panic ''capacity must be positive''
      else Ret (Reset \<lparr>capacity = cap, snapshot = \<lparr>sBegin = 0, sEnd = 0, sEvents = []\<rparr>\<rparr> begin))"

definition Append :: "cache \<Rightarrow> offset \<Rightarrow> offset \<Rightarrow> envelope list \<Rightarrow> cache go" where
  "Append c begin end envelopes =
     (let prev = snapshot c;
          evict_new = int (length envelopes) - capacity c;
          evict_held = int (length (sEvents prev)) + int (length envelopes) - capacity c
      in if begin \<noteq> sEnd prev then Panic ''range does not begin where the cache ends''
      else if length envelopes = 0 then
        Ret (c\<lparr>snapshot := \<lparr>sBegin = sBegin prev, sEnd = end, sEvents = sEvents prev @ envelopes\<rparr>\<rparr>)
      else if evict_new > 0 then
        go_bind (index envelopes (evict_new - 1)) (\<lambda>last_evicted.
        go_bind (offsetOf last_evicted) (\<lambda>offset.
        Ret (c\<lparr>snapshot := \<lparr>sBegin = offset + 1, sEnd = end,
          sEvents = [] @ drop (nat evict_new) envelopes\<rparr>\<rparr>)))
      else if evict_held > 0 then
        go_bind (index (sEvents prev) (evict_held - 1)) (\<lambda>last_evicted.
        go_bind (offsetOf last_evicted) (\<lambda>offset.
        Ret (c\<lparr>snapshot := \<lparr>sBegin = offset + 1, sEnd = end,
          sEvents = drop (nat evict_held) (sEvents prev) @ envelopes\<rparr>\<rparr>)))
      else
        Ret (c\<lparr>snapshot := \<lparr>sBegin = sBegin prev, sEnd = end, sEvents = sEvents prev @ envelopes\<rparr>\<rparr>))"

text \<open>
  Go's \<open>sort.Search\<close>: the binary search for the least index in \<open>[i, j)\<close> at which \<open>f\<close>
  is true.  The probe may panic, as \<open>offsetOf\<close> does.
\<close>

function sort_Search :: "nat \<Rightarrow> nat \<Rightarrow> (nat \<Rightarrow> bool go) \<Rightarrow> nat go" where
  "sort_Search i j f =
     (if i < j then
        (let h = (i + j) div 2
         in go_bind (f h) (\<lambda>b. if \<not> b then sort_Search (h + 1) j f else sort_Search i h f))
      else Ret i)"
  by pat_completeness auto
termination
  by (relation "measure (\<lambda>(i, j, f). j - i)") auto

declare sort_Search.simps [simp del]

definition Read :: "cache_segment \<Rightarrow> offset \<Rightarrow> uuid set \<Rightarrow> (envelope list \<times> relation) go" where
  "Read s cp types =
     (if cp < sBegin s then Ret ([], Before)
      else if cp \<ge> sEnd s then Ret ([], After)
      else
        go_bind (sort_Search 0 (length (sEvents s))
            (\<lambda>i. go_bind (offsetOf (sEvents s ! i)) (\<lambda>offset. Ret (offset \<ge> cp)))) (\<lambda>first.
        Ret (filter (\<lambda>env. TypeId (Body env) \<in> types) (drop first (sEvents s)), Within)))"

section \<open>The invariant\<close>

definition seg_inv :: "uuid \<Rightarrow> envelope list \<Rightarrow> types \<Rightarrow> cache_segment \<Rightarrow> bool" where
  "seg_inv sid log watched s \<longleftrightarrow> sBegin s \<le> sEnd s
     \<and> sEvents s = window log watched (sBegin s) (sEnd s)"

definition cache_inv :: "uuid \<Rightarrow> envelope list \<Rightarrow> types \<Rightarrow> cache \<Rightarrow> bool" where
  "cache_inv sid log watched c \<longleftrightarrow> 0 < capacity c \<and> seg_inv sid log watched (snapshot c)
     \<and> int (length (sEvents (snapshot c))) \<le> capacity c"

lemma Reset_inv: "0 < capacity c \<Longrightarrow> cache_inv sid log watched (Reset c begin)"
  by (simp add: Reset_def cache_inv_def seg_inv_def)

lemma New_cache_inv:
  "New_cache cap begin = Ret c \<Longrightarrow>
     cache_inv sid log watched c \<and> capacity c = cap \<and> sEnd (snapshot c) = begin"
  by (auto simp: New_cache_def Reset_def cache_inv_def seg_inv_def split: if_splits)

text \<open>One lemma for each branch of \<open>Append\<close> that evicts.\<close>

lemma Append_evicts_new:
  assumes "wf_log sid log" and "envs = window log watched (sEnd (snapshot c)) e"
    and "cache_inv sid log watched c" and "int (length envs) > capacity c"
  defines "o1 \<equiv> off (envs ! nat (int (length envs) - capacity c - 1))"
  shows "Append c (sEnd (snapshot c)) e envs = Ret (c\<lparr>snapshot := \<lparr>sBegin = o1 + 1, sEnd = e,
      sEvents = window log watched (o1 + 1) e\<rparr>\<rparr>)"
    and "sEnd (snapshot c) \<le> o1" and "o1 < e"
    and "int (length (window log watched (o1 + 1) e)) = capacity c"
proof -
  let ?k = "nat (int (length envs) - capacity c - 1)"
  have cap: "0 < capacity c" using assms(3) by (simp add: cache_inv_def)
  have k: "?k < length envs" using assms(4) cap by linarith
  have suc: "nat (int (length envs) - capacity c) = Suc ?k" using assms(4) by linarith
  have pos: "positioned sid (envs ! ?k)"
    using k assms(1,2) nth_mem by (metis in_window wf_logD(1))
  have drop: "drop (Suc ?k) envs = window log watched (o1 + 1) e"
    using window_drop[OF assms(1), of ?k watched "sEnd (snapshot c)" e] k
    by (simp add: assms(2) o1_def)
  show "sEnd (snapshot c) \<le> o1" and "o1 < e"
    using window_nth_bounds[of ?k log watched "sEnd (snapshot c)" e] k
    by (simp_all add: assms(2) o1_def)
  show "int (length (window log watched (o1 + 1) e)) = capacity c"
    unfolding drop[symmetric] using assms(4) cap by simp
  show "Append c (sEnd (snapshot c)) e envs = Ret (c\<lparr>snapshot := \<lparr>sBegin = o1 + 1, sEnd = e,
      sEvents = window log watched (o1 + 1) e\<rparr>\<rparr>)"
    using k assms(4) cap offsetOf_positioned[OF pos]
    by (auto simp: Append_def Let_def index_def suc drop o1_def)
qed

lemma Append_evicts_held:
  assumes "wf_log sid log" and "envs = window log watched (sEnd (snapshot c)) e"
    and "cache_inv sid log watched c" and "\<not> int (length envs) > capacity c" and "envs \<noteq> []"
    and "int (length (sEvents (snapshot c))) + int (length envs) > capacity c"
    and "sEnd (snapshot c) \<le> e"
  defines "o1 \<equiv> off (sEvents (snapshot c) ! nat (int (length (sEvents (snapshot c)))
      + int (length envs) - capacity c - 1))"
  shows "Append c (sEnd (snapshot c)) e envs = Ret (c\<lparr>snapshot := \<lparr>sBegin = o1 + 1, sEnd = e,
      sEvents = window log watched (o1 + 1) e\<rparr>\<rparr>)"
    and "sBegin (snapshot c) \<le> o1" and "o1 < sEnd (snapshot c)"
    and "int (length (window log watched (o1 + 1) e)) = capacity c"
proof -
  let ?s = "snapshot c"
  let ?n = "int (length (sEvents ?s)) + int (length envs) - capacity c"
  let ?k = "nat (?n - 1)"
  have held: "sEvents ?s = window log watched (sBegin ?s) (sEnd ?s)" and le: "sBegin ?s \<le> sEnd ?s"
    using assms(3) by (auto simp: cache_inv_def seg_inv_def)
  have k: "?k < length (sEvents ?s)" using assms(4,5,6) by (cases envs) auto
  have suc: "nat ?n = Suc ?k" using assms(6) by linarith
  have pos: "positioned sid (sEvents ?s ! ?k)"
    using k assms(1) held nth_mem by (metis in_window wf_logD(1))
  show o: "sBegin ?s \<le> o1" "o1 < sEnd ?s"
    using window_nth_bounds[of ?k log watched "sBegin ?s" "sEnd ?s"] k held
    by (simp_all add: o1_def)
  have "drop (Suc ?k) (sEvents ?s) = window log watched (o1 + 1) (sEnd ?s)"
    using window_drop[OF assms(1), of ?k watched "sBegin ?s" "sEnd ?s"] k held
    by (simp add: o1_def)
  then have drop: "drop (Suc ?k) (sEvents ?s) @ envs = window log watched (o1 + 1) e"
    using window_split[OF assms(1) offset_Suc_le[OF o(2)] assms(7)] by (simp add: assms(2))
  show "int (length (window log watched (o1 + 1) e)) = capacity c"
    unfolding drop[symmetric] using assms(4,6) k by simp
  show "Append c (sEnd ?s) e envs = Ret (c\<lparr>snapshot := \<lparr>sBegin = o1 + 1, sEnd = e,
      sEvents = window log watched (o1 + 1) e\<rparr>\<rparr>)"
    using k assms(4,5,6) offsetOf_positioned[OF pos]
    by (auto simp: Append_def Let_def index_def suc drop o1_def)
qed

lemma Append_evicts_nothing:
  assumes "wf_log sid log" and "envs = window log watched (sEnd (snapshot c)) e"
    and "cache_inv sid log watched c" and "sEnd (snapshot c) \<le> e"
    and "\<not> int (length (sEvents (snapshot c))) + int (length envs) > capacity c \<or> envs = []"
  shows "Append c (sEnd (snapshot c)) e envs = Ret (c\<lparr>snapshot := \<lparr>sBegin = sBegin (snapshot c),
      sEnd = e, sEvents = window log watched (sBegin (snapshot c)) e\<rparr>\<rparr>)"
    and "int (length (window log watched (sBegin (snapshot c)) e)) \<le> capacity c"
proof -
  have held: "sEvents (snapshot c) @ envs = window log watched (sBegin (snapshot c)) e"
    using assms window_split[OF assms(1) _ assms(4)] by (auto simp: cache_inv_def seg_inv_def)
  show "Append c (sEnd (snapshot c)) e envs = Ret (c\<lparr>snapshot := \<lparr>sBegin = sBegin (snapshot c),
      sEnd = e, sEvents = window log watched (sBegin (snapshot c)) e\<rparr>\<rparr>)"
    using assms(3,5) by (auto simp: Append_def Let_def held simp flip: held)
  show "int (length (window log watched (sBegin (snapshot c)) e)) \<le> capacity c"
    using assms(3,5) by (auto simp: cache_inv_def simp flip: held)
qed

text \<open>
  Appending the next contiguous range never panics and keeps the invariant.  The segment
  never grows backwards, and gives up events only when it is left full.
\<close>

lemma Append_ok:
  assumes "wf_log sid log" and "cache_inv sid log watched c"
    and "begin = sEnd (snapshot c)" and "begin \<le> end" and "envelopes = window log watched begin end"
  shows "\<exists>c'. Append c begin end envelopes = Ret c' \<and> cache_inv sid log watched c'
    \<and> sEnd (snapshot c') = end \<and> capacity c' = capacity c
    \<and> sBegin (snapshot c) \<le> sBegin (snapshot c')
    \<and> (sBegin (snapshot c') \<noteq> sBegin (snapshot c) \<longrightarrow>
         int (length (sEvents (snapshot c'))) = capacity c)"
proof -
  have s: "sBegin (snapshot c) \<le> sEnd (snapshot c)" and cap: "0 < capacity c"
    using assms(2) by (auto simp: cache_inv_def seg_inv_def)
  consider (new) "int (length envelopes) > capacity c"
    | (held) "\<not> int (length envelopes) > capacity c" "envelopes \<noteq> []"
        "int (length (sEvents (snapshot c))) + int (length envelopes) > capacity c"
    | (none) "\<not> int (length (sEvents (snapshot c))) + int (length envelopes) > capacity c
        \<or> envelopes = []"
    by blast
  then show ?thesis
  proof cases
    case new
    note a = Append_evicts_new[OF assms(1) assms(5)[unfolded assms(3)] assms(2) new]
    from a s cap show ?thesis
      by (auto simp: assms(3) cache_inv_def seg_inv_def
          intro: offset_Suc_le dest: offset_Suc_greater)
  next
    case held
    note a = Append_evicts_held[OF assms(1) assms(5)[unfolded assms(3)] assms(2) held
        assms(4)[unfolded assms(3)]]
    from a s cap assms(4) show ?thesis
      by (auto simp: assms(3) cache_inv_def seg_inv_def dest: offset_Suc_greater offset_Suc_le)
  next
    case none
    note a = Append_evicts_nothing[OF assms(1) assms(5)[unfolded assms(3)] assms(2)
        assms(4)[unfolded assms(3)] none]
    from a s cap assms(4) show ?thesis
      by (auto simp: assms(3) cache_inv_def seg_inv_def)
  qed
qed

text \<open>
  A stream \<open>UUID 0 1\<close> with events at offsets 0 to 3, and a cache of capacity 2 that holds
  the events at offsets 0 and 1.
\<close>

abbreviation sample_log :: "envelope list" where
  "sample_log \<equiv> map (event_at (UUID 0 1) (UUID 0 2)) [0, 1, 2, 3]"

abbreviation sample_cache :: cache where
  "sample_cache \<equiv> \<lparr>capacity = 2, snapshot = \<lparr>sBegin = 0, sEnd = 2,
     sEvents = map (event_at (UUID 0 1) (UUID 0 2)) [0, 1]\<rparr>\<rparr>"

lemma sample_wf: "wf_log (UUID 0 1) sample_log"
  by (simp add: wf_log_def)

text \<open>
  The writer's side of the cache over time: from a new cache, one \<open>Append\<close> for each of the
  contiguous ranges that end at the given offsets.
\<close>

fun appends :: "envelope list \<Rightarrow> types \<Rightarrow> cache \<Rightarrow> offset list \<Rightarrow> cache go" where
  "appends log watched c [] = Ret c"
| "appends log watched c (e # es) =
     go_bind (Append c (sEnd (snapshot c)) e (window log watched (sEnd (snapshot c)) e))
       (\<lambda>c'. appends log watched c' es)"

definition most_recent :: "int \<Rightarrow> envelope list \<Rightarrow> envelope list" where
  "most_recent n xs = drop (length xs - nat n) xs"

lemma most_recent_if_suffix:
  "suffix ys xs \<Longrightarrow> int (length ys) \<le> n \<Longrightarrow> ys = xs \<or> int (length ys) = n \<Longrightarrow> ys = most_recent n xs"
  by (auto simp: most_recent_def suffix_def)

lemma window_suffix:
  "wf_log sid log \<Longrightarrow> b \<le> m \<Longrightarrow> m \<le> e \<Longrightarrow> suffix (window log types m e) (window log types b e)"
  using window_split by (metis suffix_def)

lemma appends_inv:
  assumes "wf_log sid log" and "cache_inv sid log watched c"
    and "sorted (sEnd (snapshot c) # es)" and "b \<le> sBegin (snapshot c)"
    and "sBegin (snapshot c) = b \<or> int (length (sEvents (snapshot c))) = capacity c"
  shows "\<exists>c'. appends log watched c es = Ret c' \<and> cache_inv sid log watched c'
    \<and> sEnd (snapshot c') = last (sEnd (snapshot c) # es) \<and> capacity c' = capacity c
    \<and> b \<le> sBegin (snapshot c')
    \<and> (sBegin (snapshot c') = b \<or> int (length (sEvents (snapshot c'))) = capacity c)"
  using assms(2-5)
proof (induction es arbitrary: c)
  case (Cons e es)
  let ?b = "sEnd (snapshot c)"
  have "?b \<le> e" using Cons.prems(2) by simp
  then obtain c1 where c1: "Append c ?b e (window log watched ?b e) = Ret c1"
      "cache_inv sid log watched c1" "sEnd (snapshot c1) = e" "capacity c1 = capacity c"
      "sBegin (snapshot c) \<le> sBegin (snapshot c1)"
      "sBegin (snapshot c1) \<noteq> sBegin (snapshot c) \<longrightarrow>
         int (length (sEvents (snapshot c1))) = capacity c"
    using Append_ok[OF assms(1) Cons.prems(1) refl _ refl] by blast
  have "sBegin (snapshot c1) = b \<or> int (length (sEvents (snapshot c1))) = capacity c1"
  proof (cases "sBegin (snapshot c1) = sBegin (snapshot c)")
    case True
    have "sEvents (snapshot c1) = sEvents (snapshot c) @ window log watched ?b e"
      using True c1(2,3) Cons.prems(1) \<open>?b \<le> e\<close> window_split[OF assms(1)]
      by (auto simp: cache_inv_def seg_inv_def)
    then have "int (length (sEvents (snapshot c))) \<le> int (length (sEvents (snapshot c1)))"
      by simp
    then show ?thesis using True Cons.prems(4) c1(2,4) by (auto simp: cache_inv_def)
  qed (use c1 in auto)
  with Cons.IH[OF c1(2)] c1 Cons.prems show ?case by auto
qed simp

text \<open>
  C23. The cache holds the most recent events: starting from a new cache at offset
  \<open>begin\<close> and appending any sequence of contiguous ranges of the stream never panics, and
  leaves the cache ending where the last range ended, with exactly the last \<open>capacity\<close>
  of the watched events since \<open>begin\<close>, and its segment bounded so that it holds every
  watched event between its bounds.
\<close>

theorem cache_holds_most_recent:
  assumes "wf_log sid log" and "New_cache cap begin = Ret c0" and "sorted (begin # ends)"
  shows "\<exists>c. appends log watched c0 ends = Ret c \<and> sEnd (snapshot c) = last (begin # ends)
    \<and> sEvents (snapshot c) = most_recent cap (window log watched begin (last (begin # ends)))
    \<and> sEvents (snapshot c) = window log watched (sBegin (snapshot c)) (sEnd (snapshot c))
    \<and> begin \<le> sBegin (snapshot c) \<and> sBegin (snapshot c) \<le> sEnd (snapshot c)"
proof -
  have c0: "cache_inv sid log watched c0" "capacity c0 = cap" "sEnd (snapshot c0) = begin"
      "sBegin (snapshot c0) = begin"
    using New_cache_inv[OF assms(2)] assms(2)
    by (auto simp: New_cache_def Reset_def split: if_splits)
  then obtain c where c: "appends log watched c0 ends = Ret c" "cache_inv sid log watched c"
      "sEnd (snapshot c) = last (begin # ends)" "capacity c = cap" "begin \<le> sBegin (snapshot c)"
      "sBegin (snapshot c) = begin \<or> int (length (sEvents (snapshot c))) = cap"
    using appends_inv[OF assms(1) c0(1), of ends "begin"] assms(3) by auto
  let ?e = "last (begin # ends)"
  have w: "sEvents (snapshot c) = window log watched (sBegin (snapshot c)) ?e"
    and le: "sBegin (snapshot c) \<le> ?e" and cap: "int (length (sEvents (snapshot c))) \<le> cap"
    using c(2-4) by (auto simp: cache_inv_def seg_inv_def)
  have "sEvents (snapshot c) = most_recent cap (window log watched begin ?e)"
    using window_suffix[OF assms(1) c(5) le, of watched] w cap c(6)
    by (intro most_recent_if_suffix) auto
  with c w le show ?thesis by auto
qed

theorem cache_holds_most_recent_witness:
  "\<exists>c. appends sample_log None
      \<lparr>capacity = 2, snapshot = \<lparr>sBegin = 0, sEnd = 0, sEvents = []\<rparr>\<rparr> [1, 2, 4] = Ret c
    \<and> sEvents (snapshot c) = map (event_at (UUID 0 1) (UUID 0 2)) [2, 3]"
proof -
  have "New_cache 2 0 = Ret \<lparr>capacity = 2, snapshot = \<lparr>sBegin = 0, sEnd = 0, sEvents = []\<rparr>\<rparr>"
    by (simp add: New_cache_def Reset_def)
  from cache_holds_most_recent[OF sample_wf this, of "[1, 2, 4]" None] show ?thesis
    by (auto simp: window_def most_recent_def)
qed

section \<open>Reading\<close>

lemma sort_Search_correct:
  assumes "\<And>h. h < n \<Longrightarrow> f h = Ret (p h)" and "\<And>h k. h \<le> k \<Longrightarrow> k < n \<Longrightarrow> p h \<Longrightarrow> p k"
    and "i \<le> j" and "j \<le> n" and "\<And>k. k < i \<Longrightarrow> \<not> p k" and "\<And>k. j \<le> k \<Longrightarrow> k < n \<Longrightarrow> p k"
  shows "\<exists>m. sort_Search i j f = Ret m \<and> m \<le> n \<and> (\<forall>k < m. \<not> p k) \<and> (\<forall>k. m \<le> k \<and> k < n \<longrightarrow> p k)"
  using assms
proof (induction i j f rule: sort_Search.induct)
  case (1 i j f)
  show ?case
  proof (cases "i < j")
    case True
    let ?h = "(i + j) div 2"
    have h: "?h < j" "i \<le> ?h" "?h < n" using True "1.prems"(4) by auto
    show ?thesis
    proof (cases "p ?h")
      case True
      have "\<exists>m. sort_Search i ?h f = Ret m \<and> m \<le> n \<and> (\<forall>k < m. \<not> p k) \<and> (\<forall>k. m \<le> k \<and> k < n \<longrightarrow> p k)"
        using \<open>i < j\<close> True h "1.prems" by (intro "1.IH"(2)[of ?h True]) (auto intro: "1.prems"(2))
      then show ?thesis
        using True \<open>i < j\<close> "1.prems"(1)[OF h(3)] by (simp add: sort_Search.simps[of i j f] Let_def)
    next
      case False
      have "k < ?h + 1 \<Longrightarrow> \<not> p k" for k
        using False "1.prems"(2)[of k ?h] h(3) by auto
      then have "\<exists>m. sort_Search (?h + 1) j f = Ret m \<and> m \<le> n \<and> (\<forall>k < m. \<not> p k)
          \<and> (\<forall>k. m \<le> k \<and> k < n \<longrightarrow> p k)"
        using \<open>i < j\<close> False h "1.prems" by (intro "1.IH"(1)[of ?h False]) auto
      then show ?thesis
        using False \<open>i < j\<close> "1.prems"(1)[OF h(3)] by (simp add: sort_Search.simps[of i j f] Let_def)
    qed
  next
    case False
    then show ?thesis
      using "1.prems" by (intro exI[of _ i]) (auto simp: sort_Search.simps)
  qed
qed

lemma sort_Search_from:
  assumes "\<And>env. env \<in> set events \<Longrightarrow> positioned sid env"
    and "sorted_wrt (\<lambda>x y. off x < off y) events"
  shows "\<exists>m. sort_Search 0 (length events)
      (\<lambda>i. go_bind (offsetOf (events ! i)) (\<lambda>offset. Ret (offset \<ge> cp))) = Ret m
    \<and> drop m events = filter (\<lambda>x. cp \<le> off x) events"
proof -
  let ?f = "\<lambda>i. go_bind (offsetOf (events ! i)) (\<lambda>offset. Ret (offset \<ge> cp))"
  have pos: "h < length events \<Longrightarrow> ?f h = Ret (cp \<le> off (events ! h))" for h
    using assms(1) offsetOf_positioned by (metis go_bind.simps(1) nth_mem)
  have mono: "h \<le> k \<Longrightarrow> k < length events \<Longrightarrow> cp \<le> off (events ! h) \<Longrightarrow> cp \<le> off (events ! k)" for h k
    using sorted_wrt_nth_less[OF assms(2), of h k] by (cases "h = k") auto
  have "\<exists>m. sort_Search 0 (length events) ?f = Ret m \<and> m \<le> length events
      \<and> (\<forall>k < m. \<not> cp \<le> off (events ! k)) \<and> (\<forall>k. m \<le> k \<and> k < length events \<longrightarrow> cp \<le> off (events ! k))"
    by (rule sort_Search_correct) (use pos mono in auto)
  then obtain m where m: "sort_Search 0 (length events) ?f = Ret m" "m \<le> length events"
      "\<forall>k < m. \<not> cp \<le> off (events ! k)" "\<forall>k. m \<le> k \<and> k < length events \<longrightarrow> cp \<le> off (events ! k)"
    by blast
  moreover have "drop m events = filter (\<lambda>x. cp \<le> off x) events"
    using m(2,3,4) by (intro drop_eq_filter) auto
  ultimately show ?thesis by blast
qed

text \<open>What a reader of a truthful snapshot gets.\<close>

lemma Read_window:
  assumes "wf_log sid log" and "seg_inv sid log watched s"
    and "case watched of None \<Rightarrow> True | Some w \<Rightarrow> types \<subseteq> w"
  shows "Read s cp types =
    (if cp < sBegin s then Ret ([], Before)
     else if sEnd s \<le> cp then Ret ([], After)
     else Ret (window log (Some types) cp (sEnd s), Within))"
proof (cases "sBegin s \<le> cp \<and> cp < sEnd s")
  case True
  have ev: "sEvents s = window log watched (sBegin s) (sEnd s)"
    using assms(2) by (simp add: seg_inv_def)
  have pos: "env \<in> set (sEvents s) \<Longrightarrow> positioned sid env" for env
    using assms(1) by (auto simp: ev in_window)
  obtain m where m: "sort_Search 0 (length (sEvents s))
      (\<lambda>i. go_bind (offsetOf (sEvents s ! i)) (\<lambda>offset. Ret (offset \<ge> cp))) = Ret m"
    and d: "drop m (sEvents s) = filter (\<lambda>x. cp \<le> off x) (sEvents s)"
    using sort_Search_from[of "sEvents s" sid cp] pos window_sorted[OF assms(1)] ev by auto
  have "drop m (sEvents s) = window log watched cp (sEnd s)"
    using True by (simp add: d) (simp add: ev window_from)
  then show ?thesis
    using True m assms(3)
    by (auto simp: Read_def window_filter not_less not_le split: option.splits)
next
  case False
  then show ?thesis by (auto simp: Read_def)
qed

text \<open>
  C24. The binary search of \<open>Segment.Read\<close> is equivalent to a scan: on any snapshot whose
  events carry positions in increasing offset order, \<open>Read\<close> never panics, and a checkpoint
  within the segment yields exactly the events at or after it that have the requested
  types, in order.
\<close>

theorem Read_equals_scan:
  assumes "\<forall>env \<in> set (sEvents s). positioned sid env"
    and "sorted_wrt (\<lambda>x y. off x < off y) (sEvents s)"
  shows "Read s cp types =
    Ret (if cp < sBegin s then ([], Before)
     else if sEnd s \<le> cp then ([], After)
     else (filter (\<lambda>env. cp \<le> off env \<and> TypeId (Body env) \<in> types) (sEvents s), Within))"
proof -
  obtain m where "sort_Search 0 (length (sEvents s))
      (\<lambda>i. go_bind (offsetOf (sEvents s ! i)) (\<lambda>offset. Ret (offset \<ge> cp))) = Ret m"
    and "drop m (sEvents s) = filter (\<lambda>x. cp \<le> off x) (sEvents s)"
    using sort_Search_from[of "sEvents s" sid cp] assms by auto
  then show ?thesis
    by (auto simp: Read_def intro!: filter_cong)
qed

theorem Read_equals_scan_witness:
  "Read \<lparr>sBegin = 0, sEnd = 4, sEvents = sample_log\<rparr> 2 {UUID 0 2}
     = Ret (map (event_at (UUID 0 1) (UUID 0 2)) [2, 3], Within)"
proof -
  let ?s = "\<lparr>sBegin = 0, sEnd = 4, sEvents = sample_log\<rparr>"
  have "\<forall>env \<in> set (sEvents ?s). positioned (UUID 0 1) env"
    and "sorted_wrt (\<lambda>x y. off x < off y) (sEvents ?s)"
    by simp_all
  from Read_equals_scan[OF this, of 2 "{UUID 0 2}"] show ?thesis by simp
qed

end
