(* ===== verification/Database.thy ===== *)
theory Database
  imports Streams "HOL-Library.Product_Lexorder"
begin

text \<open>
  The engine's PostgreSQL schema (\<open>internal/schema/ddl\<close>) as a record of tables, the SQL
  functions that the engine calls as state transformers on it, and the helpers of
  \<open>internal/x/xsql\<close> that run statements and transactions.

  A statement either fails, leaving the transaction to be rolled back, or returns a value
  and the tables it leaves.  Every transaction of the engine locks the rows it decides on
  (\<open>FOR UPDATE\<close>, or an upsert that rewrites the row), so a transaction is one atomic step
  on the tables; rows held by other transactions are an argument of the statements that
  skip them.

  \<open>wf_db\<close> is the schema's invariant: stream identifiers are unique, and the events of a
  stream occupy the offsets below its \<open>next_offset\<close>, each exactly once.  \<open>append\<close>,
  \<open>append_any\<close> and the completion functions keep it.
\<close>

named_theorems sql_simps \<open>equations of SQL statements and transactions\<close>

section \<open>Tables\<close>

record event_row =
  eMessageID :: uuid
  eCorrelationID :: uuid
  eTypeID :: uuid
  eEnvelope :: bytes
  eStreamID :: uuid
  eOffset :: offset
  eAggKey :: "uuid option"
  eAggInstance :: "string option"

record command_row =
  cMessageID :: uuid
  cTypeID :: uuid
  cEnvelope :: bytes
  cFailures :: u64
  cDeliverAt :: time

record agg_row =
  aStreamID :: "uuid option"
  aSnapshot :: "bytes option"
  aSnapshotOffset :: "offset option"

record proc_row =
  pEnded :: bool
  pState :: "bytes option"

record deadline_row =
  dMessageID :: uuid
  dTypeID :: uuid
  dHandlerKey :: uuid
  dInstanceID :: string
  dEnvelope :: bytes
  dFailures :: u64
  dDeliverAt :: time

record db =
  streams :: "(uuid \<times> offset) list"
  events :: "event_row list"
  checkpoints :: "(uuid \<times> uuid) \<rightharpoonup> offset"
  commands :: "command_row list"
  idempotency_keys :: "(string \<times> uuid) list"
  agg_instances :: "(uuid \<times> string) \<rightharpoonup> agg_row"
  proc_instances :: "(uuid \<times> string) \<rightharpoonup> proc_row"
  deadlines :: "deadline_row list"
  proj_handlers :: "uuid \<rightharpoonup> time"
  app_identity :: "(uuid \<times> string) option"

definition empty_db :: db where
  "empty_db = \<lparr>streams = [], events = [], checkpoints = Map.empty, commands = [],
     idempotency_keys = [], agg_instances = Map.empty, proc_instances = Map.empty,
     deadlines = [], proj_handlers = Map.empty, app_identity = None\<rparr>"

section \<open>Statements and transactions\<close>

type_synonym 'a sql = "db \<Rightarrow> err + ('a \<times> db)"

definition sql_return :: "'a \<Rightarrow> 'a sql" where
  "sql_return a d = Inr (a, d)"

definition sql_fail :: "err \<Rightarrow> 'a sql" where
  "sql_fail e d = Inl e"

definition sql_bind :: "'a sql \<Rightarrow> ('a \<Rightarrow> 'b sql) \<Rightarrow> 'b sql" where
  "sql_bind m f d = (case m d of Inl e \<Rightarrow> Inl e | Inr (a, d') \<Rightarrow> f a d')"

text \<open>A statement that may fail for a reason of its own: a lost connection, a cancellation.\<close>

definition stmt :: "err option \<Rightarrow> 'a sql \<Rightarrow> 'a sql" where
  "stmt fault m d = (case fault of Some e \<Rightarrow> Inl e | None \<Rightarrow> m d)"

lemma sql_return_eq [sql_simps]: "sql_return a d = Inr (b, d') \<longleftrightarrow> a = b \<and> d = d'"
  by (auto simp: sql_return_def)

lemma sql_fail_eq [sql_simps]: "sql_fail e d \<noteq> Inr x"
  by (simp add: sql_fail_def)

lemma sql_bind_eq [sql_simps]:
  "sql_bind m f d = Inr (b, d') \<longleftrightarrow> (\<exists>a d1. m d = Inr (a, d1) \<and> f a d1 = Inr (b, d'))"
  by (auto simp: sql_bind_def split: sum.splits prod.splits)

lemma stmt_eq [sql_simps]: "stmt fault m d = Inr x \<longleftrightarrow> fault = None \<and> m d = Inr x"
  by (auto simp: stmt_def split: option.splits)

text \<open>
  \<open>xsql.Transact\<close>.  Beginning and committing may fail.  A failed commit may nevertheless
  have reached the database (\<open>CommitApplied\<close>).  If the call fails and the context is
  canceled by then, the context's error is returned instead.
\<close>

record tx_env =
  BeginErr :: "err option"
  CommitErr :: "err option"
  CommitApplied :: bool
  CtxErr :: "err option"

definition no_faults :: tx_env where
  "no_faults = \<lparr>BeginErr = None, CommitErr = None, CommitApplied = True, CtxErr = None\<rparr>"

definition override :: "tx_env \<Rightarrow> err \<Rightarrow> err" where
  "override env e = (case CtxErr env of Some c \<Rightarrow> c | None \<Rightarrow> e)"

definition Transact :: "tx_env \<Rightarrow> 'a sql \<Rightarrow> db \<Rightarrow> (err + 'a) \<times> db" where
  "Transact env fn d =
     (case BeginErr env of
        Some e \<Rightarrow> (Inl (override env (Errorf ''unable to begin transaction'' [e])), d)
      | None \<Rightarrow>
          (case fn d of
             Inl e \<Rightarrow> (Inl (override env e), d)
           | Inr (a, d') \<Rightarrow>
               (case CommitErr env of
                  Some e \<Rightarrow> (Inl (override env (Errorf ''unable to commit transaction'' [e])),
                    if CommitApplied env then d' else d)
                | None \<Rightarrow> (Inr a, d'))))"

text \<open>
  A transaction is atomic: it leaves the tables as they were, or as its function left them
  on success.  It reports success only in the second case.
\<close>

lemma Transact_cases:
  assumes "Transact env fn d = (r, d')"
  obtains (rolled_back) e where "r = Inl e" "d' = d"
    | (unknown) a e where "r = Inl e" "fn d = Inr (a, d')"
    | (committed) a where "r = Inr a" "fn d = Inr (a, d')"
  using assms by (fastforce simp: Transact_def split: option.splits sum.splits prod.splits if_splits)

lemma Transact_ok [sql_simps]:
  "fn d = Inr (a, d') \<Longrightarrow> Transact no_faults fn d = (Inr a, d')"
  by (simp add: Transact_def no_faults_def)

section \<open>Event streams\<close>

text \<open>The composite type \<open>eventstream.event\<close>.\<close>

record sql_event =
  sqlMessageID :: uuid
  sqlTypeID :: uuid
  sqlEnvelope :: bytes

definition next_offset :: "db \<Rightarrow> uuid \<Rightarrow> offset option" where
  "next_offset d sid = map_of (streams d) sid"

definition set_next_offset :: "uuid \<Rightarrow> offset \<Rightarrow> (uuid \<times> offset) list \<Rightarrow> (uuid \<times> offset) list" where
  "set_next_offset sid n = map (\<lambda>(i, k). if i = sid then (i, n) else (i, k))"

fun rows_from :: "uuid \<Rightarrow> uuid \<Rightarrow> uuid option \<Rightarrow> string option \<Rightarrow> offset \<Rightarrow> sql_event list
    \<Rightarrow> event_row list" where
  "rows_from sid corr key inst base [] = []"
| "rows_from sid corr key inst base (ev # evs) =
     \<lparr>eMessageID = sqlMessageID ev, eCorrelationID = corr, eTypeID = sqlTypeID ev,
      eEnvelope = sqlEnvelope ev, eStreamID = sid, eOffset = base,
      eAggKey = key, eAggInstance = inst\<rparr>
     # rows_from sid corr key inst (base + 1) evs"

text \<open>
  \<open>eventstream.append\<close>.  An empty array has a NULL length, which \<open>next_offset\<close> may not
  become; a \<open>bigint\<close> may not reach \<open>2 ^ 63\<close>; a message may be recorded only once.  On an
  unknown stream nothing is updated or inserted, and the result is NULL.
\<close>

definition eventstream_append :: "uuid \<Rightarrow> uuid \<Rightarrow> uuid option \<Rightarrow> string option \<Rightarrow> sql_event list
    \<Rightarrow> offset option sql" where
  "eventstream_append sid corr key inst evs d =
     (case next_offset d sid of
        None \<Rightarrow> Inr (None, d)
      | Some base \<Rightarrow>
          if evs = [] then Inl (New ''null value in column next_offset'')
          else if unat base + length evs \<ge> 2 ^ 63 then Inl (New ''bigint out of range'')
          else if \<not> distinct (map eMessageID (events d) @ map sqlMessageID evs)
          then Inl (New ''duplicate key value violates unique constraint'')
          else Inr (Some (base + of_nat (length evs)),
            d\<lparr>streams := set_next_offset sid (base + of_nat (length evs)) (streams d),
              events := events d @ rows_from sid corr key inst base evs\<rparr>))"

text \<open>Natural numbers are unary for the code generator, which compares integers instead.\<close>

lemma unat_add_ge: "2 ^ n \<le> unat (w :: offset) + k \<longleftrightarrow> 2 ^ n \<le> uint w + int k"
proof -
  have "uint w = int (unat w)" by simp
  then show ?thesis by (metis of_nat_add of_nat_le_iff of_nat_numeral of_nat_power)
qed

lemma eventstream_append_code [code]:
  "eventstream_append sid corr key inst evs d =
     (case next_offset d sid of
        None \<Rightarrow> Inr (None, d)
      | Some base \<Rightarrow>
          if evs = [] then Inl (New ''null value in column next_offset'')
          else if uint base + int (length evs) \<ge> 2 ^ 63 then Inl (New ''bigint out of range'')
          else if \<not> distinct (map eMessageID (events d) @ map sqlMessageID evs)
          then Inl (New ''duplicate key value violates unique constraint'')
          else Inr (Some (base + of_nat (length evs)),
            d\<lparr>streams := set_next_offset sid (base + of_nat (length evs)) (streams d),
              events := events d @ rows_from sid corr key inst base evs\<rparr>))"
  unfolding eventstream_append_def unat_add_ge ..

text \<open>
  \<open>eventstream.acquire_for_write\<close>: the shortest stream that no other transaction has
  locked, or, if all are locked and one of them is empty, the shortest of all once it is
  released, or else a new stream.  \<open>rnd\<close> is the value \<open>random()\<close> has for each row and
  \<open>fresh\<close> the result of \<open>gen_random_uuid()\<close>.
\<close>

record acquire_env =
  locked :: "uuid set"
  rnd :: "uuid \<Rightarrow> nat"
  fresh :: uuid

definition shortest :: "acquire_env \<Rightarrow> (uuid \<times> offset) list \<Rightarrow> uuid option" where
  "shortest env rows = (case sort_key (\<lambda>(i, n). (n, rnd env i)) rows of
     [] \<Rightarrow> None | (i, n) # _ \<Rightarrow> Some i)"

definition acquire_for_write :: "acquire_env \<Rightarrow> uuid sql" where
  "acquire_for_write env d =
     (case shortest env (filter (\<lambda>(i, n). i \<notin> locked env) (streams d)) of
        Some i \<Rightarrow> Inr (i, d)
      | None \<Rightarrow>
          (case (if list_ex (\<lambda>(i, n). n = 0) (streams d) then shortest env (streams d) else None) of
             Some i \<Rightarrow> Inr (i, d)
           | None \<Rightarrow>
               if fresh env \<in> set (map fst (streams d))
               then Inl (New ''duplicate key value violates unique constraint'')
               else Inr (fresh env, d\<lparr>streams := streams d @ [(fresh env, 0)]\<rparr>)))"

definition append_any :: "acquire_env \<Rightarrow> uuid \<Rightarrow> uuid option \<Rightarrow> string option \<Rightarrow> sql_event list
    \<Rightarrow> (uuid \<times> offset option) sql" where
  "append_any env corr key inst evs =
     sql_bind (acquire_for_write env) (\<lambda>sid.
     sql_bind (eventstream_append sid corr key inst evs) (\<lambda>n. sql_return (sid, n)))"

section \<open>The command queue\<close>

text \<open>\<open>commandqueue.add\<close>, at database time \<open>now\<close>.\<close>

definition commandqueue_add :: "time \<Rightarrow> uuid \<Rightarrow> uuid \<Rightarrow> bytes \<Rightarrow> string \<Rightarrow> (uuid \<times> bool) sql" where
  "commandqueue_add now mid tid env idem_key d =
     (let insert = (\<lambda>d. if mid \<in> cMessageID ` set (commands d)
            then Inl (New ''duplicate key value violates unique constraint'')
            else Inr ((mid, True), d\<lparr>commands := commands d @
              [\<lparr>cMessageID = mid, cTypeID = tid, cEnvelope = env, cFailures = 0, cDeliverAt = now\<rparr>]\<rparr>))
      in if idem_key \<noteq> [] then
           (case map_of (idempotency_keys d) idem_key of
              Some original \<Rightarrow> Inr ((original, False), d)
            | None \<Rightarrow>
                if mid \<in> snd ` set (idempotency_keys d)
                then Inl (New ''duplicate key value violates unique constraint'')
                else insert (d\<lparr>idempotency_keys := idempotency_keys d @ [(idem_key, mid)]\<rparr>))
         else insert d)"

definition commandqueue_remove :: "uuid \<Rightarrow> unit sql" where
  "commandqueue_remove mid d =
     (if mid \<in> cMessageID ` set (commands d)
      then Inr ((), d\<lparr>commands := filter (\<lambda>c. cMessageID c \<noteq> mid) (commands d)\<rparr>)
      else Inl (New ''command does not exist in the queue''))"

section \<open>Completing a command\<close>

definition update_instance :: "uuid \<Rightarrow> string \<Rightarrow> (agg_row \<Rightarrow> agg_row) \<Rightarrow> db \<Rightarrow> db" where
  "update_instance key inst f d = (case agg_instances d (key, inst) of
     None \<Rightarrow> d
   | Some row \<Rightarrow> d\<lparr>agg_instances := (agg_instances d)((key, inst) \<mapsto> f row)\<rparr>)"

definition aggregate_complete_without_events :: "uuid \<Rightarrow> uuid \<Rightarrow> string \<Rightarrow> unit sql" where
  "aggregate_complete_without_events mid key inst d =
     (let d1 = (case agg_instances d (key, inst) of
          None \<Rightarrow> d
        | Some row \<Rightarrow>
            if aStreamID row = None
            then d\<lparr>agg_instances := (agg_instances d)((key, inst) := None)\<rparr> else d)
      in commandqueue_remove mid d1)"

definition aggregate_complete_with_events :: "acquire_env \<Rightarrow> uuid \<Rightarrow> uuid \<Rightarrow> string \<Rightarrow> uuid option
    \<Rightarrow> uuid \<Rightarrow> bytes option \<Rightarrow> sql_event list \<Rightarrow> unit sql" where
  "aggregate_complete_with_events env mid key inst stream corr snap evs =
     sql_bind (case stream of
         Some sid \<Rightarrow> sql_return sid
       | None \<Rightarrow>
           sql_bind (acquire_for_write env) (\<lambda>sid d.
             Inr (sid, update_instance key inst (\<lambda>row. row\<lparr>aStreamID := Some sid\<rparr>) d))) (\<lambda>sid.
     sql_bind (eventstream_append sid corr (Some key) (Some inst) evs) (\<lambda>next.
     sql_bind (\<lambda>d. case snap of
         None \<Rightarrow> Inr ((), d)
       | Some data \<Rightarrow>
           if next = None \<and> agg_instances d (key, inst) \<noteq> None
           then Inl (New ''new row violates check constraint'')
           else Inr ((), update_instance key inst
             (\<lambda>row. row\<lparr>aSnapshotOffset := map_option (\<lambda>n. n - 1) next, aSnapshot := Some data\<rparr>) d))
       (\<lambda>_. commandqueue_remove mid)))"

definition integration_complete_without_events :: "uuid \<Rightarrow> unit sql" where
  "integration_complete_without_events mid = commandqueue_remove mid"

definition integration_complete_with_events :: "acquire_env \<Rightarrow> uuid \<Rightarrow> uuid \<Rightarrow> sql_event list
    \<Rightarrow> unit sql" where
  "integration_complete_with_events env mid corr evs =
     sql_bind (commandqueue_remove mid) (\<lambda>_.
     sql_bind (append_any env corr None None evs) (\<lambda>_. sql_return ()))"

section \<open>The invariant\<close>

definition stream_events :: "db \<Rightarrow> uuid \<Rightarrow> event_row list" where
  "stream_events d sid = filter (\<lambda>r. eStreamID r = sid) (events d)"

text \<open>
  The offsets of a stream, in insertion order, are \<open>0, 1, 2, \<dots>\<close> up to its length, which
  is its \<open>next_offset\<close>.
\<close>

definition wf_db :: "db \<Rightarrow> bool" where
  "wf_db d \<longleftrightarrow> distinct (map fst (streams d)) \<and> distinct (map eMessageID (events d))
     \<and> (\<forall>r \<in> set (events d). eStreamID r \<in> set (map fst (streams d)))
     \<and> (\<forall>(sid, n) \<in> set (streams d). unat n < 2 ^ 63
          \<and> map (unat \<circ> eOffset) (stream_events d sid) = [0..<unat n])"

lemma wf_dbD:
  assumes "wf_db d" and "next_offset d sid = Some n"
  shows "unat n < 2 ^ 63" and "map (unat \<circ> eOffset) (stream_events d sid) = [0..<unat n]"
  using assms by (auto simp: wf_db_def next_offset_def dest: map_of_SomeD)

lemma wf_empty_db: "wf_db empty_db"
  by (simp add: wf_db_def empty_db_def)

lemma wf_db_frame:
  "streams d' = streams d \<Longrightarrow> events d' = events d \<Longrightarrow> wf_db d' = wf_db d"
  by (simp add: wf_db_def stream_events_def)

lemma map_of_set_next_offset:
  "map_of (set_next_offset sid n rows) i =
     (if i = sid \<and> map_of rows sid \<noteq> None then Some n else map_of rows i)"
  by (induction rows) (auto simp: set_next_offset_def)

lemma fst_set_next_offset [simp]: "map fst (set_next_offset sid n rows) = map fst rows"
  by (induction rows) (auto simp: set_next_offset_def)

lemma rows_from_fields [simp]:
  "length (rows_from sid corr key inst base evs) = length evs"
  "map eMessageID (rows_from sid corr key inst base evs) = map sqlMessageID evs"
  "r \<in> set (rows_from sid corr key inst base evs) \<Longrightarrow> eStreamID r = sid"
  by (induction evs arbitrary: base) auto

lemma rows_from_filter [simp]:
  "filter (\<lambda>r. eStreamID r = i) (rows_from sid corr key inst base evs) =
     (if i = sid then rows_from sid corr key inst base evs else [])"
  by (auto simp: filter_id_conv filter_empty_conv dest: rows_from_fields(3))

lemma unat_add_length:
  "unat (base::offset) + n < 2 ^ 63 \<Longrightarrow> unat (base + of_nat n) = unat base + n"
  by (simp add: unat_word_ariths unat_of_nat)

lemma rows_from_offsets:
  "unat base + length evs < 2 ^ 63 \<Longrightarrow>
     map (unat \<circ> eOffset) (rows_from sid corr key inst base evs) = [unat base..<unat base + length evs]"
proof (induction evs arbitrary: base)
  case (Cons ev evs)
  then have "unat (base + 1) = Suc (unat base)"
    using unat_add_length[of base 1] by simp
  then show ?case using Cons.IH[of "base + 1"] Cons.prems
    upt_conv_Cons[of "unat base" "unat base + length (ev # evs)"] by (simp del: upt_Suc)
qed simp

lemma append_cases:
  assumes "eventstream_append sid corr key inst evs d = Inr (r, d')"
  obtains (unknown) "next_offset d sid = None" "r = None" "d' = d"
    | (appended) base where "next_offset d sid = Some base" "evs \<noteq> []"
        "unat base + length evs < 2 ^ 63" "distinct (map eMessageID (events d) @ map sqlMessageID evs)"
        "r = Some (base + of_nat (length evs))"
        "d' = d\<lparr>streams := set_next_offset sid (base + of_nat (length evs)) (streams d),
           events := events d @ rows_from sid corr key inst base evs\<rparr>"
  using assms by (auto simp: eventstream_append_def not_le split: option.splits if_splits)

lemma append_wf:
  assumes "wf_db d" and "eventstream_append sid corr key inst evs d = Inr (r, d')"
  shows "wf_db d'"
  using assms(2)
proof (cases rule: append_cases)
  case (appended base)
  have base: "unat base < 2 ^ 63" "map (unat \<circ> eOffset) (stream_events d sid) = [0..<unat base]"
    using wf_dbD[OF assms(1) appended(1)] .
  let ?n = "base + of_nat (length evs) :: offset"
  have n: "unat ?n = unat base + length evs" using appended(3) by (rule unat_add_length)
  have mem: "sid \<in> set (map fst (streams d))"
    using appended(1) by (force simp: next_offset_def dest: map_of_SomeD)
  have "unat k < 2 ^ 63 \<and> map (unat \<circ> eOffset) (stream_events d' i) = [0..<unat k]"
    if "(i, k) \<in> set (streams d')" for i k
  proof (cases "i = sid")
    case True
    then have "k = ?n" using that appended(6) by (auto simp: set_next_offset_def split: if_splits)
    moreover have "stream_events d' i = stream_events d i @ rows_from sid corr key inst base evs"
      using True appended(6) by (simp add: stream_events_def)
    ultimately show ?thesis
      using True base(2) n appended(3) rows_from_offsets[OF appended(3)]
        upt_add_eq_append[of 0 "unat base" "length evs"] by simp
  next
    case False
    then have "(i, k) \<in> set (streams d)"
      using that appended(6) by (auto simp: set_next_offset_def split: if_splits)
    moreover have "stream_events d' i = stream_events d i"
      using False appended(6) by (simp add: stream_events_def)
    ultimately show ?thesis using assms(1) by (auto simp: wf_db_def)
  qed
  moreover have "\<forall>r \<in> set (events d'). eStreamID r \<in> set (map fst (streams d'))"
    using assms(1) appended(6) mem by (auto simp: wf_db_def dest: rows_from_fields(3)
        simp flip: set_map)
  ultimately show ?thesis
    using assms(1) appended(4,6) by (auto simp: wf_db_def)
qed (use assms in simp)

text \<open>
  Streams only ever grow: \<open>db_extends d d'\<close> says that every stream of \<open>d\<close> is in \<open>d'\<close>, with
  events added at its end only.
\<close>

definition db_extends :: "db \<Rightarrow> db \<Rightarrow> bool" where
  "db_extends d d' \<longleftrightarrow> (\<forall>sid. \<exists>new. stream_events d' sid = stream_events d sid @ new)
     \<and> (\<forall>sid n. next_offset d sid = Some n \<longrightarrow> (\<exists>n'. next_offset d' sid = Some n' \<and> n \<le> n'))"

lemma db_extends_refl [simp]: "db_extends d d"
  by (simp add: db_extends_def)

lemma db_extends_trans: "db_extends d d' \<Longrightarrow> db_extends d' d'' \<Longrightarrow> db_extends d d''"
  unfolding db_extends_def
proof (intro conjI allI impI)
  fix sid
  assume a: "(\<forall>sid. \<exists>new. stream_events d' sid = stream_events d sid @ new)
      \<and> (\<forall>sid n. next_offset d sid = Some n \<longrightarrow> (\<exists>n'. next_offset d' sid = Some n' \<and> n \<le> n'))"
    and b: "(\<forall>sid. \<exists>new. stream_events d'' sid = stream_events d' sid @ new)
      \<and> (\<forall>sid n. next_offset d' sid = Some n \<longrightarrow> (\<exists>n'. next_offset d'' sid = Some n' \<and> n \<le> n'))"
  then show "\<exists>new. stream_events d'' sid = stream_events d sid @ new"
    by (metis append.assoc)
  fix n
  assume "next_offset d sid = Some n"
  with a b show "\<exists>n'. next_offset d'' sid = Some n' \<and> n \<le> n'"
    by (meson order_trans)
qed

lemma db_extends_frame:
  "streams d' = streams d \<Longrightarrow> events d' = events d \<Longrightarrow> db_extends d d'"
  by (simp add: db_extends_def stream_events_def next_offset_def)

lemma append_extends:
  assumes "eventstream_append sid corr key inst evs d = Inr (r, d')"
  shows "db_extends d d'"
  using assms
proof (cases rule: append_cases)
  case (appended base)
  have "base \<le> base + of_nat (length evs)"
    using unat_add_length[OF appended(3)] by (simp add: word_le_nat_alt)
  then show ?thesis
    using appended by (auto simp: db_extends_def stream_events_def next_offset_def map_of_set_next_offset)
qed simp

lemma shortest_mem: "shortest env rows = Some i \<Longrightarrow> i \<in> fst ` set rows"
proof -
  assume "shortest env rows = Some i"
  then obtain n rest where "sort_key (\<lambda>(i, n). (n, rnd env i)) rows = (i, n) # rest"
    by (auto simp: shortest_def split: list.splits prod.splits)
  then have "(i, n) \<in> set rows" by (metis list.set_intros(1) set_sort)
  then show ?thesis by force
qed

lemma acquire_cases:
  assumes "acquire_for_write env d = Inr (sid, d')"
  obtains (existing) "sid \<in> set (map fst (streams d))" "d' = d"
    | (created) "sid \<notin> set (map fst (streams d))" "d' = d\<lparr>streams := streams d @ [(sid, 0)]\<rparr>"
  using assms by (fastforce simp: acquire_for_write_def dest: shortest_mem split: option.splits if_splits)

lemma acquire_known:
  assumes "acquire_for_write env d = Inr (sid, d')"
  shows "\<exists>n. next_offset d' sid = Some n"
  using assms
proof (cases rule: acquire_cases)
  case existing
  then show ?thesis by (auto simp: next_offset_def weak_map_of_SomeI)
next
  case created
  then show ?thesis by (auto simp: next_offset_def map_add_def split: option.splits)
qed

lemma acquire_wf:
  assumes "wf_db d" and "acquire_for_write env d = Inr (sid, d')"
  shows "wf_db d' \<and> db_extends d d'"
  using assms(2)
proof (cases rule: acquire_cases)
  case created
  have "stream_events d sid = []"
    using assms(1) created(1) by (auto simp: stream_events_def filter_empty_conv wf_db_def)
  then have "wf_db d'"
    using assms(1) created by (auto simp: wf_db_def stream_events_def)
  moreover have "db_extends d d'"
    using created by (auto simp: db_extends_def stream_events_def next_offset_def map_add_def
        split: option.splits)
  ultimately show ?thesis by blast
qed (use assms in simp)

lemma append_any_wf:
  assumes "wf_db d" and "append_any env corr key inst evs d = Inr (r, d')"
  shows "wf_db d' \<and> db_extends d d'"
proof -
  obtain sid d1 n where d1: "acquire_for_write env d = Inr (sid, d1)"
    and n: "eventstream_append sid corr key inst evs d1 = Inr (n, d')"
    using assms(2) by (auto simp: append_any_def sql_simps)
  have "wf_db d1" and "db_extends d d1"
    using acquire_wf[OF assms(1) d1] by auto
  with append_wf[OF _ n] append_extends[OF n] show ?thesis
    by (auto intro: db_extends_trans)
qed

lemma commandqueue_remove_frame:
  "commandqueue_remove mid d = Inr (r, d') \<Longrightarrow> streams d' = streams d \<and> events d' = events d"
  by (auto simp: commandqueue_remove_def split: if_splits)

lemma update_instance_frame [simp]:
  "streams (update_instance key inst f d) = streams d"
  "events (update_instance key inst f d) = events d"
  by (simp_all add: update_instance_def split: option.splits)

lemma commandqueue_remove_wf:
  "wf_db d \<Longrightarrow> commandqueue_remove mid d = Inr (r, d') \<Longrightarrow> wf_db d' \<and> db_extends d d'"
  using wf_db_frame[of d' d] db_extends_frame[of d' d] by (simp add: commandqueue_remove_frame)

lemma integration_complete_wf:
  assumes "wf_db d" and "integration_complete_with_events env mid corr evs d = Inr (r, d')"
  shows "wf_db d' \<and> db_extends d d'"
proof -
  obtain d1 x where d1: "commandqueue_remove mid d = Inr ((), d1)"
    and x: "append_any env corr None None evs d1 = Inr (x, d')"
    using assms(2) by (auto simp: integration_complete_with_events_def sql_simps)
  have "wf_db d1" and "db_extends d d1"
    using commandqueue_remove_wf[OF assms(1) d1] by auto
  with append_any_wf[OF _ x] show ?thesis
    by (auto intro: db_extends_trans)
qed

text \<open>
  C34. Appending events assigns them the next offsets of their stream, in order.  On
  success the returned offset is the stream's new \<open>next_offset\<close>, the number of events
  appended past the old one without wrapping; the new rows follow the existing ones, which
  stay as they are; no other stream changes; and the schema's invariant is kept, so the
  events of every stream occupy the offsets below its \<open>next_offset\<close>, each exactly once.
\<close>

theorem append_assigns_offsets:
  assumes "wf_db d" and "eventstream_append sid corr key inst evs d = Inr (Some n, d')"
  shows "\<exists>base. next_offset d sid = Some base \<and> next_offset d' sid = Some n
    \<and> unat n = unat base + length evs \<and> evs \<noteq> []
    \<and> stream_events d' sid = stream_events d sid @ rows_from sid corr key inst base evs
    \<and> map (unat \<circ> eOffset) (stream_events d' sid) = [0..<unat n]
    \<and> (\<forall>other. other \<noteq> sid \<longrightarrow> stream_events d' other = stream_events d other
         \<and> next_offset d' other = next_offset d other)
    \<and> wf_db d'"
  using assms(2)
proof (cases rule: append_cases)
  case (appended base)
  have "next_offset d' sid = Some n"
    using appended by (auto simp: next_offset_def map_of_set_next_offset)
  moreover from this have "map (unat \<circ> eOffset) (stream_events d' sid) = [0..<unat n]"
    by (rule wf_dbD(2)[OF append_wf[OF assms]])
  ultimately show ?thesis
    using appended append_wf[OF assms] unat_add_length[OF appended(3)]
    by (auto simp: stream_events_def next_offset_def map_of_set_next_offset)
qed simp

theorem append_assigns_offsets_witness:
  "\<exists>d'. eventstream_append (UUID 0 1) (UUID 0 2) None None
      [\<lparr>sqlMessageID = UUID 0 3, sqlTypeID = UUID 0 4, sqlEnvelope = []\<rparr>,
       \<lparr>sqlMessageID = UUID 0 5, sqlTypeID = UUID 0 4, sqlEnvelope = []\<rparr>]
      (empty_db\<lparr>streams := [(UUID 0 1, 0)]\<rparr>) = Inr (Some 2, d')
    \<and> map (unat \<circ> eOffset) (stream_events d' (UUID 0 1)) = [0..<2] \<and> wf_db d'"
proof -
  let ?d = "empty_db\<lparr>streams := [(UUID 0 1, 0)]\<rparr>"
  let ?evs = "[\<lparr>sqlMessageID = UUID 0 3, sqlTypeID = UUID 0 4, sqlEnvelope = []\<rparr>,
       \<lparr>sqlMessageID = UUID 0 5, sqlTypeID = UUID 0 4, sqlEnvelope = []\<rparr>]"
  have wf: "wf_db ?d"
    by (simp add: wf_db_def empty_db_def stream_events_def)
  have "\<exists>d'. eventstream_append (UUID 0 1) (UUID 0 2) None None ?evs ?d = Inr (Some 2, d')"
    by (simp add: eventstream_append_def next_offset_def empty_db_def)
  then obtain d' where d': "eventstream_append (UUID 0 1) (UUID 0 2) None None ?evs ?d = Inr (Some 2, d')"
    by blast
  from append_assigns_offsets[OF wf d'] d' show ?thesis
    by auto
qed

end
