(* ===== verification/Local.thy ===== *)
theory Local
  imports Database
begin

text \<open>
  The source of the application's own streams (\<open>internal/eventstream/source/local.go\<close>),
  its reading half: the segment query, \<open>loadSegment\<close> and \<open>Local.Read\<close>.

  Each query of a read sees a database snapshot of its own (\<open>observations\<close>), in which the
  streams may have grown since the previous one.  When the observations run out the read
  is still \<open>Running\<close>.  Deserializing an envelope belongs to \<open>envelopepb\<close> and is a
  parameter, \<open>unmarshal\<close>.
\<close>

section \<open>The segment query\<close>

record segment_query =
  qStream :: uuid
  qTypes :: "uuid list option"
  qLimit :: int

text \<open>The type IDs are sorted, so that equal sets of types give the same query.\<close>

definition buildSegmentQuery :: "int \<Rightarrow> uuid \<Rightarrow> types \<Rightarrow> segment_query" where
  "buildSegmentQuery segmentSize streamID types =
     \<lparr>qStream = streamID, qTypes = map_option sorted_list_of_set types, qLimit = segmentSize\<rparr>"

text \<open>
  The rows of the query: the stream's next offset, if the stream exists, and the matching
  events from the given offset in offset order, up to the limit.
\<close>

definition query_events :: "db \<Rightarrow> segment_query \<Rightarrow> offset \<Rightarrow> event_row list" where
  "query_events d q begin = take (nat (qLimit q)) (sort_key eOffset
     (filter (\<lambda>r. eStreamID r = qStream q \<and> begin \<le> eOffset r
        \<and> (case qTypes q of None \<Rightarrow> True | Some ids \<Rightarrow> eTypeID r \<in> set ids)) (events d)))"

section \<open>Loading a segment\<close>

text \<open>Where the driver may fail while the rows are read.\<close>

record query_faults =
  fQuery :: "err option"
  fFirst :: "err option"
  fScanNext :: "err option"
  fRows :: "err option"

definition with_position :: "envelope \<Rightarrow> uuid \<Rightarrow> offset \<Rightarrow> envelope" where
  "with_position env sid offset =
     env\<lparr>Body := (Body env)\<lparr>Position := Present \<lparr>StreamId = sid, Offset = offset\<rparr>\<rparr>\<rparr>"

fun scan_events :: "(bytes \<Rightarrow> err + envelope) \<Rightarrow> uuid \<Rightarrow> segment \<Rightarrow> event_row list \<Rightarrow> err + segment" where
  "scan_events unmarshal sid seg [] = Inr seg"
| "scan_events unmarshal sid seg (r # rs) = (case unmarshal (eEnvelope r) of
     Inl e \<Rightarrow> Inl (Errorf ''unable to scan event'' [e])
   | Inr env \<Rightarrow> scan_events unmarshal sid
       (seg\<lparr>Envelopes := Envelopes seg @ [with_position env sid (eOffset r)],
            End := eOffset r + 1\<rparr>) rs)"

definition loadSegment :: "(bytes \<Rightarrow> err + envelope) \<Rightarrow> int \<Rightarrow> query_faults \<Rightarrow> db \<Rightarrow> segment_query
    \<Rightarrow> uuid \<Rightarrow> offset \<Rightarrow> err + (segment \<times> bool)" where
  "loadSegment unmarshal segmentSize faults d query streamID begin =
     (case fQuery faults of
        Some e \<Rightarrow> Inl (Errorf ''unable to query events'' [e])
      | None \<Rightarrow>
     (case next_offset d (qStream query) of
        None \<Rightarrow>
          (case fFirst faults of
             Some e \<Rightarrow> Inl (Errorf ''unable to advance to first row'' [e])
           | None \<Rightarrow> Inl (Errorf ''unable to read event stream'' [Sentinel ErrUnrecognizedStream]))
      | Some next \<Rightarrow>
     (case fScanNext faults of
        Some e \<Rightarrow> Inl (Errorf ''unable to scan next offset'' [e])
      | None \<Rightarrow>
          if begin > next then
            Inl (Errorf ''unable to load event stream from offset'' [Sentinel ErrOffsetOutOfRange])
          else
     (case scan_events unmarshal streamID
          \<lparr>StreamID = streamID, Begin = begin, End = begin, Envelopes = []\<rparr>
          (query_events d query begin) of
        Inl e \<Rightarrow> Inl e
      | Inr seg \<Rightarrow>
     (case fRows faults of
        Some e \<Rightarrow> Inl (Errorf ''unable to iterate events'' [e])
      | None \<Rightarrow>
          let exhausted = int (length (Envelopes seg)) < segmentSize
          in Inr (if exhausted then seg\<lparr>End := max (End seg) next\<rparr> else seg, exhausted))))))"

section \<open>Reading\<close>

type_synonym observations = "(db \<times> query_faults) list"

fun Local_Read_loop :: "(bytes \<Rightarrow> err + envelope) \<Rightarrow> int \<Rightarrow> segment_query \<Rightarrow> uuid \<Rightarrow> observations
    \<Rightarrow> offset \<Rightarrow> 's callback \<Rightarrow> 's \<Rightarrow> err option go \<times> 's" where
  "Local_Read_loop unmarshal segmentSize query streamID [] begin fn s = (Running, s)"
| "Local_Read_loop unmarshal segmentSize query streamID ((d, faults) # obs) begin fn s =
     (case loadSegment unmarshal segmentSize faults d query streamID begin of
        Inl e \<Rightarrow> (Ret (Some e), s)
      | Inr (seg, exhausted) \<Rightarrow>
          if End seg > Begin seg then
            (case fn seg s of
               (Some e, s') \<Rightarrow> (Ret (Some e), s')
             | (None, s') \<Rightarrow>
                 if exhausted then (Ret None, s')
                 else Local_Read_loop unmarshal segmentSize query streamID obs (End seg) fn s')
          else if exhausted then (Ret None, s)
          else Local_Read_loop unmarshal segmentSize query streamID obs begin fn s)"

definition Local_Read :: "(bytes \<Rightarrow> err + envelope) \<Rightarrow> int \<Rightarrow> observations \<Rightarrow> uuid \<Rightarrow> types \<Rightarrow> offset
    \<Rightarrow> 's callback \<Rightarrow> 's \<Rightarrow> err option go \<times> 's" where
  "Local_Read unmarshal segmentSize obs streamID types begin fn s =
     (case panicIfEmpty types of
        Panic m \<Rightarrow> (Panic m, s)
      | Running \<Rightarrow> (Running, s)
      | Ret _ \<Rightarrow>
          if segmentSize \<le> 0 then (Panic ''segment size must be positive'', s)
          else Local_Read_loop unmarshal segmentSize (buildSegmentQuery segmentSize streamID types) streamID obs
            begin fn s)"

section \<open>The stream as its events\<close>

definition decode :: "(bytes \<Rightarrow> err + envelope) \<Rightarrow> event_row \<Rightarrow> envelope option" where
  "decode unmarshal r = (case unmarshal (eEnvelope r) of
     Inl e \<Rightarrow> None
   | Inr env \<Rightarrow> Some (with_position env (eStreamID r) (eOffset r)))"

definition local_log :: "(bytes \<Rightarrow> err + envelope) \<Rightarrow> db \<Rightarrow> uuid \<Rightarrow> envelope list" where
  "local_log unmarshal d sid = List.map_filter (decode unmarshal) (stream_events d sid)"

text \<open>Every event row holds an envelope of the type its \<open>message_type_id\<close> column names.\<close>

definition wf_local :: "(bytes \<Rightarrow> err + envelope) \<Rightarrow> db \<Rightarrow> bool" where
  "wf_local unmarshal d \<longleftrightarrow> wf_db d \<and> (\<forall>r \<in> set (events d).
     case unmarshal (eEnvelope r) of Inl e \<Rightarrow> False | Inr env \<Rightarrow> TypeId (Body env) = eTypeID r)"

lemma with_position_simps [simp]:
  "off (with_position env sid offset) = offset"
  "positioned sid' (with_position env sid offset) \<longleftrightarrow> sid = sid'"
  "TypeId (Body (with_position env sid offset)) = TypeId (Body env)"
  by (auto simp: with_position_def off_def positioned_def)

text \<open>On a well-formed database decoding is total, so the log is a plain image of the rows.\<close>

definition envelope_of :: "(bytes \<Rightarrow> err + envelope) \<Rightarrow> event_row \<Rightarrow> envelope" where
  "envelope_of unmarshal r = with_position (projr (unmarshal (eEnvelope r))) (eStreamID r) (eOffset r)"

lemma wf_local_decode:
  assumes "wf_local unmarshal d" and "r \<in> set (events d)"
  shows "unmarshal (eEnvelope r) = Inr (projr (unmarshal (eEnvelope r)))"
    and "TypeId (Body (envelope_of unmarshal r)) = eTypeID r"
    and "decode unmarshal r = Some (envelope_of unmarshal r)"
proof -
  obtain env where "unmarshal (eEnvelope r) = Inr env" and "TypeId (Body env) = eTypeID r"
    using assms unfolding wf_local_def by (cases "unmarshal (eEnvelope r)") fastforce+
  then show "unmarshal (eEnvelope r) = Inr (projr (unmarshal (eEnvelope r)))"
    and "TypeId (Body (envelope_of unmarshal r)) = eTypeID r"
    and "decode unmarshal r = Some (envelope_of unmarshal r)"
    by (simp_all add: envelope_of_def decode_def)
qed

lemma local_log_eq:
  assumes "wf_local unmarshal d"
  shows "local_log unmarshal d sid = map (envelope_of unmarshal) (stream_events d sid)"
proof -
  have "set rs \<subseteq> set (events d) \<Longrightarrow>
      List.map_filter (decode unmarshal) rs = map (envelope_of unmarshal) rs" for rs
    by (induction rs) (auto simp: List.map_filter_simps wf_local_decode(3)[OF assms])
  then show ?thesis
    by (simp add: local_log_def stream_events_def)
qed

lemma envelope_of_simps [simp]:
  "off (envelope_of unmarshal r) = eOffset r"
  "positioned sid (envelope_of unmarshal r) \<longleftrightarrow> eStreamID r = sid"
  by (simp_all add: envelope_of_def)

lemma stream_offsets_sorted:
  assumes "wf_db d"
  shows "sorted_wrt (\<lambda>x y. eOffset x < eOffset y) (stream_events d sid)"
proof (cases "next_offset d sid")
  case None
  then have "stream_events d sid = []"
    using assms by (fastforce simp: stream_events_def filter_empty_conv wf_db_def next_offset_def
        map_of_eq_None_iff)
  then show ?thesis by simp
next
  case (Some n)
  have "sorted_wrt (<) (map (unat \<circ> eOffset) (stream_events d sid))"
    using wf_dbD(2)[OF assms Some] by simp
  then show ?thesis by (simp add: sorted_wrt_map word_less_nat_alt)
qed

lemma stream_offsets_bound:
  assumes "wf_db d" and "next_offset d sid = Some n" and "r \<in> set (stream_events d sid)"
  shows "eOffset r < n"
proof -
  have "unat (eOffset r) \<in> set (map (unat \<circ> eOffset) (stream_events d sid))"
    using assms(3) by simp
  then show ?thesis
    unfolding wf_dbD(2)[OF assms(1,2)] by (simp add: word_less_nat_alt)
qed

lemma local_log_wf: "wf_local unmarshal d \<Longrightarrow> wf_log sid (local_log unmarshal d sid)"
  using stream_offsets_sorted[of d sid]
  by (auto simp: wf_log_def local_log_eq sorted_wrt_map wf_local_def stream_events_def)

section \<open>What a segment holds\<close>

lemma scan_events_ok:
  assumes "wf_local unmarshal d" and "set rs \<subseteq> set (stream_events d sid)"
  shows "scan_events unmarshal sid seg rs = Inr (seg\<lparr>
      Envelopes := Envelopes seg @ map (envelope_of unmarshal) rs,
      End := if rs = [] then End seg else eOffset (last rs) + 1\<rparr>)"
  using assms(2)
proof (induction rs arbitrary: seg)
  case (Cons r rs)
  then have "unmarshal (eEnvelope r) = Inr (projr (unmarshal (eEnvelope r)))" "eStreamID r = sid"
    using wf_local_decode(1)[OF assms(1)] by (auto simp: stream_events_def)
  then show ?case
    using Cons by (cases "unmarshal (eEnvelope r)") (auto simp: envelope_of_def)
qed simp

lemma query_events_eq:
  assumes "wf_local unmarshal d" and "next_offset d sid = Some n"
  shows "map (envelope_of unmarshal) (query_events d (buildSegmentQuery limit sid types) begin)
      = take (nat limit) (window (local_log unmarshal d sid) types begin n)"
    and "set (query_events d (buildSegmentQuery limit sid types) begin) \<subseteq> set (stream_events d sid)"
proof -
  have wf: "wf_db d" using assms(1) by (simp add: wf_local_def)
  let ?P = "\<lambda>r. begin \<le> eOffset r \<and> wants types (envelope_of unmarshal r)"
  let ?rows = "filter ?P (stream_events d sid)"
  have "filter (\<lambda>r. eStreamID r = sid \<and> begin \<le> eOffset r \<and> (case map_option sorted_list_of_set types of
      None \<Rightarrow> True | Some ids \<Rightarrow> eTypeID r \<in> set ids)) (events d) = ?rows"
    unfolding stream_events_def filter_filter
    by (rule filter_cong) (auto simp: wants_def wf_local_decode(2)[OF assms(1)] split: option.splits)
  moreover have "sorted (map eOffset ?rows)"
    using sorted_wrt_filter[OF stream_offsets_sorted[OF wf], of ?P sid]
    by (auto simp: sorted_wrt_map intro: sorted_wrt_mono_rel[rotated])
  ultimately have q: "query_events d (buildSegmentQuery limit sid types) begin = take (nat limit) ?rows"
    by (simp add: query_events_def buildSegmentQuery_def sort_key_id_if_sorted)
  then show "set (query_events d (buildSegmentQuery limit sid types) begin) \<subseteq> set (stream_events d sid)"
    by (auto dest: in_set_takeD)
  have "map (envelope_of unmarshal) ?rows = window (local_log unmarshal d sid) types begin n"
    unfolding window_def local_log_eq[OF assms(1)] filter_map
    by (intro arg_cong[of _ _ "map (envelope_of unmarshal)"] filter_cong)
      (auto simp: stream_offsets_bound[OF wf assms(2)])
  then show "map (envelope_of unmarshal) (query_events d (buildSegmentQuery limit sid types) begin)
      = take (nat limit) (window (local_log unmarshal d sid) types begin n)"
    unfolding q by (metis take_map)
qed

text \<open>
  A successful load returns the next events that match, up to the limit.  Short of the
  limit the segment extends to the end of the stream.
\<close>

definition loaded :: "int \<Rightarrow> uuid \<Rightarrow> offset \<Rightarrow> offset \<Rightarrow> envelope list \<Rightarrow> segment \<times> bool" where
  "loaded limit sid begin n w =
     (if int (length w) < limit
      then (\<lparr>StreamID = sid, Begin = begin, End = n, Envelopes = w\<rparr>, True)
      else (\<lparr>StreamID = sid, Begin = begin, End = off (w ! (nat limit - 1)) + 1,
              Envelopes = take (nat limit) w\<rparr>, False))"

lemma loadSegment_ok:
  assumes wf: "wf_local unmarshal d" and n: "next_offset d sid = Some n" and "begin \<le> n" and "0 < limit"
    and "fQuery f = None" "fScanNext f = None" "fRows f = None"
  shows "loadSegment unmarshal limit f d (buildSegmentQuery limit sid types) sid begin
    = Inr (loaded limit sid begin n (window (local_log unmarshal d sid) types begin n))"
proof -
  let ?rows = "query_events d (buildSegmentQuery limit sid types) begin"
  let ?w = "window (local_log unmarshal d sid) types begin n"
  have rows: "map (envelope_of unmarshal) ?rows = take (nat limit) ?w"
    by (rule query_events_eq(1)[OF wf n])
  have scan: "scan_events unmarshal sid seg ?rows = Inr (seg\<lparr>
      Envelopes := Envelopes seg @ take (nat limit) ?w,
      End := if ?rows = [] then End seg else eOffset (last ?rows) + 1\<rparr>)" for seg
    using scan_events_ok[OF wf query_events_eq(2)[OF wf n]] by (simp add: rows)
  have last: "?rows \<noteq> [] \<Longrightarrow> eOffset (last ?rows) = off (last (take (nat limit) ?w))"
    unfolding rows[symmetric] by (simp add: last_map)
  have stream: "qStream (buildSegmentQuery limit sid types) = sid"
    by (simp add: buildSegmentQuery_def)
  show ?thesis
  proof (cases "int (length ?w) < limit")
    case True
    then have "take (nat limit) ?w = ?w" by simp
    moreover have "?rows \<noteq> [] \<Longrightarrow> eOffset (last ?rows) + 1 \<le> n"
      using last in_window[of "last ?w" "local_log unmarshal d sid" types "begin" n] rows calculation
      by (metis last_in_set list.map_disc_iff offset_Suc_le)
    ultimately show ?thesis
      using assms True scan by (auto simp: loadSegment_def loaded_def stream max_def)
  next
    case False
    then have "take (nat limit) ?w \<noteq> []" using assms(4) by auto
    moreover have "last (take (nat limit) ?w) = ?w ! (nat limit - 1)"
      using False assms(4) \<open>take (nat limit) ?w \<noteq> []\<close> by (simp add: last_conv_nth min_absorb2)
    ultimately show ?thesis
      using assms False scan last rows by (auto simp: loadSegment_def loaded_def stream)
  qed
qed

lemma loadSegment_Inr:
  assumes "loadSegment unmarshal limit f d query sid begin = Inr x"
  shows "\<exists>n. next_offset d (qStream query) = Some n \<and> begin \<le> n"
    and "fQuery f = None" and "fScanNext f = None" and "fRows f = None"
  using assms by (auto simp: loadSegment_def not_less split: option.splits if_splits sum.splits)

lemma loaded_truthful:
  assumes "wf_log sid log" and "begin \<le> n" and "0 < limit"
    and "loaded limit sid begin n (window log types begin n) = (seg, exhausted)"
  shows "truthful log sid types seg \<and> Begin seg = begin \<and> End seg \<le> n
    \<and> (exhausted \<longrightarrow> End seg = n) \<and> (\<not> exhausted \<longrightarrow> begin < End seg)"
proof (cases "int (length (window log types begin n)) < limit")
  case True
  then show ?thesis using assms by (auto simp: loaded_def truthful_def)
next
  case False
  let ?w = "window log types begin n"
  define k where "k = nat limit - 1"
  have k: "k < length ?w" "nat limit = Suc k" using False assms(3) by (auto simp: k_def)
  have o: "begin \<le> off (?w ! k)" "off (?w ! k) < n" using window_nth_bounds[OF k(1)] by auto
  then have "begin < off (?w ! k) + 1" "off (?w ! k) + 1 \<le> n"
    by (auto simp: offset_simps)
  then show ?thesis
    using assms False window_take[OF assms(1) k(1)] by (auto simp: loaded_def truthful_def k)
qed

section \<open>Growing streams\<close>

lemma local_log_extends:
  assumes "wf_local unmarshal d" and "wf_local unmarshal d'" and "db_extends d d'"
    and n: "next_offset d sid = Some n"
  obtains new where "local_log unmarshal d' sid = local_log unmarshal d sid @ new"
    and "\<And>x. x \<in> set new \<Longrightarrow> n \<le> off x"
proof -
  have wf: "wf_db d" "wf_db d'" using assms by (simp_all add: wf_local_def)
  obtain rows where rows: "stream_events d' sid = stream_events d sid @ rows"
    using assms(3) unfolding db_extends_def by blast
  obtain n' where n': "next_offset d' sid = Some n'" "n \<le> n'"
    using assms(3) n unfolding db_extends_def by blast
  have "[0..<unat n] @ map (unat \<circ> eOffset) rows = [0..<unat n']"
    using wf_dbD(2)[OF wf(1) n] wf_dbD(2)[OF wf(2) n'(1)] rows by simp
  moreover have "[0..<unat n'] = [0..<unat n] @ [unat n..<unat n']"
    using n'(2) upt_add_eq_append[of 0 "unat n" "unat n' - unat n"] by (simp add: word_le_nat_alt)
  ultimately have "map (unat \<circ> eOffset) rows = [unat n..<unat n']" by simp
  then have "\<And>r. r \<in> set rows \<Longrightarrow> n \<le> eOffset r"
    by (metis (no_types, lifting) comp_apply image_eqI list.set_map atLeastLessThan_iff set_upt word_le_nat_alt)
  then have "\<And>x. x \<in> set (map (envelope_of unmarshal) rows) \<Longrightarrow> n \<le> off x"
    by auto
  then show thesis
    using that[of "map (envelope_of unmarshal) rows"] rows by (simp add: local_log_eq assms)
qed

lemma truthful_extends:
  assumes "wf_local unmarshal d" and "wf_local unmarshal d'" and "db_extends d d'"
    and "next_offset d sid = Some n" and "truthful (local_log unmarshal d sid) sid types seg"
    and "End seg \<le> n"
  shows "truthful (local_log unmarshal d' sid) sid types seg"
proof -
  obtain new where "local_log unmarshal d' sid = local_log unmarshal d sid @ new"
    and "\<And>x. x \<in> set new \<Longrightarrow> n \<le> off x"
    using local_log_extends[OF assms(1-4)] by blast
  moreover from this(2) have "\<And>x. x \<in> set new \<Longrightarrow> End seg \<le> off x"
    using assms(6) order_trans by blast
  ultimately show ?thesis
    using assms(5) window_append[of new "End seg"] by (simp add: truthful_def)
qed

text \<open>What a read may meet: ever longer versions of the streams, the last of them \<open>lDB\<close>.\<close>

record local_env =
  lUnmarshal :: "bytes \<Rightarrow> err + envelope"
  SegmentSize :: int
  lObs :: observations
  lDB :: db

definition local_ok :: "local_env \<Rightarrow> bool" where
  "local_ok env \<longleftrightarrow> 0 < SegmentSize env
     \<and> (\<forall>d \<in> set (map fst (lObs env) @ [lDB env]). wf_local (lUnmarshal env) d)
     \<and> sorted_wrt db_extends (map fst (lObs env) @ [lDB env])"

definition local_read :: "local_env \<Rightarrow> uuid \<Rightarrow> types \<Rightarrow> offset \<Rightarrow> 's callback \<Rightarrow> 's \<Rightarrow> err option go \<times> 's" where
  "local_read env = Local_Read (lUnmarshal env) (SegmentSize env) (lObs env)"

definition local_end :: "local_env \<Rightarrow> uuid \<Rightarrow> offset" where
  "local_end env sid = (case lObs env of
     [] \<Rightarrow> 0 | (d, f) # obs \<Rightarrow> (case next_offset d sid of None \<Rightarrow> 0 | Some n \<Rightarrow> n))"

lemma Local_Read_loop_plan:
  assumes "0 < limit" and "\<forall>d \<in> set (map fst obs @ [final]). wf_local unmarshal d"
    and "sorted_wrt db_extends (map fst obs @ [final])"
  shows "\<exists>segs r e. (\<forall>fn s. Local_Read_loop unmarshal limit (buildSegmentQuery limit sid types) sid obs b fn s
        = run_segments fn segs r s) \<and> chain b segs e
    \<and> (\<forall>seg \<in> set segs. truthful (local_log unmarshal final sid) sid types seg \<and> Begin seg < End seg)
    \<and> (r = Ret None \<longrightarrow> (\<exists>d \<in> set (map fst obs). next_offset d sid = Some e)) \<and> (\<forall>m. r \<noteq> Panic m)"
    (is "\<exists>segs r e. ?plan obs b segs r e")
  using assms(2,3)
proof (induction obs arbitrary: b)
  case Nil
  show ?case by (intro exI[of _ "[]"] exI[of _ Running] exI[of _ b]) simp
next
  case (Cons x obs)
  obtain d f where o: "x = (d, f)" by (cases x)
  let ?load = "loadSegment unmarshal limit f d (buildSegmentQuery limit sid types) sid b"
  have stream: "qStream (buildSegmentQuery limit sid types) = sid"
    by (simp add: buildSegmentQuery_def)
  have wf: "wf_local unmarshal d" "wf_local unmarshal final" and ext: "db_extends d final"
    using Cons.prems by (auto simp: o)
  show ?case
  proof (cases ?load)
    case (Inl e)
    then show ?thesis
      by (intro exI[of _ "[]"] exI[of _ "Ret (Some e)"] exI[of _ b]) (simp add: o)
  next
    case (Inr y)
    then obtain n where n: "next_offset d sid = Some n" "b \<le> n"
      using loadSegment_Inr(1)[OF Inr] by (auto simp: stream)
    obtain seg ex where x: "y = (seg, ex)" by (cases y)
    have l: "loaded limit sid b n (window (local_log unmarshal d sid) types b n) = (seg, ex)"
      using loadSegment_ok[OF wf(1) n(1,2) assms(1) loadSegment_Inr(2-4)[OF Inr]] Inr x by simp
    have t: "truthful (local_log unmarshal d sid) sid types seg" "Begin seg = b" "End seg \<le> n"
      "ex \<longrightarrow> End seg = n" "\<not> ex \<longrightarrow> b < End seg"
      using loaded_truthful[OF local_log_wf[OF wf(1)] n(2) assms(1) l] by auto
    have t': "truthful (local_log unmarshal final sid) sid types seg"
      by (rule truthful_extends[OF wf ext n(1) t(1,3)])
    have "\<exists>segs r e. ?plan obs (End seg) segs r e"
      using Cons.prems by (intro Cons.IH) auto
    then obtain segs r e where IH: "?plan obs (End seg) segs r e" by blast
    show ?thesis
    proof (cases ex)
      case True
      then show ?thesis using t t' n o Inr x
        by (intro exI[of _ "if b < n then [seg] else []"] exI[of _ "Ret None"] exI[of _ n])
          (auto split: prod.splits option.splits)
    next
      case False
      then show ?thesis using t t' o Inr x IH
        by (intro exI[of _ "seg # segs"] exI[of _ r] exI[of _ e])
          (auto split: prod.splits option.splits)
    qed
  qed
qed

text \<open>The local source keeps the contract of a \<open>Source\<close>.\<close>

interpretation local_source: event_source
    "local_read :: local_env \<Rightarrow> uuid \<Rightarrow> types \<Rightarrow> offset \<Rightarrow> 's callback \<Rightarrow> 's \<Rightarrow> err option go \<times> 's"
    "\<lambda>env. local_log (lUnmarshal env) (lDB env)" local_end local_ok
proof (unfold_locales, goal_cases)
  case (1 env sid)
  then show ?case by (simp add: local_ok_def local_log_wf)
next
  case (2 env types sid b)
  let ?u = "lUnmarshal env" and ?obs = "lObs env" and ?final = "lDB env"
  from 2 obtain segs r e where plan:
    "\<forall>(fn :: 's callback) s. Local_Read_loop ?u (SegmentSize env) (buildSegmentQuery (SegmentSize env) sid types) sid ?obs b fn s
       = run_segments fn segs r s" "chain b segs e"
    "\<forall>seg \<in> set segs. truthful (local_log ?u ?final sid) sid types seg \<and> Begin seg < End seg"
    "\<forall>m. r \<noteq> Panic m"
    and last: "r = Ret None \<longrightarrow> (\<exists>d \<in> set (map fst ?obs). next_offset d sid = Some e)"
    using Local_Read_loop_plan[of "SegmentSize env" ?obs ?final ?u sid types b]
    by (simp add: local_ok_def) blast
  have "r = Ret None \<longrightarrow> local_end env sid \<le> e"
  proof
    assume "r = Ret None"
    then obtain d where d: "d \<in> set (map fst ?obs)" "next_offset d sid = Some e" using last by blast
    then obtain d0 f obs' where obs: "?obs = (d0, f) # obs'" by (cases ?obs) auto
    then have "db_extends d0 d" using d(1) 2(1) by (auto simp: local_ok_def)
    then show "local_end env sid \<le> e"
      using d(2) obs by (auto simp: db_extends_def local_end_def split: option.splits) fastforce
  qed
  then show ?case
    using plan 2 by (intro exI[of _ segs] exI[of _ r] exI[of _ e])
      (simp add: local_read_def Local_Read_def local_ok_def)
qed

section \<open>Properties of the local source\<close>

definition no_query_faults :: query_faults where
  "no_query_faults = \<lparr>fQuery = None, fFirst = None, fScanNext = None, fRows = None\<rparr>"

lemma Local_Read_loop_stable:
  assumes wf: "wf_local unmarshal d" and n: "next_offset d sid = Some n" and "0 < limit"
    and "b \<le> n" and "length (window (local_log unmarshal d sid) types b n) < k * nat limit"
  shows "Local_Read_loop unmarshal limit (buildSegmentQuery limit sid types) sid
      (replicate k (d, no_query_faults)) b collect seen
    = (Ret None, seen @ window (local_log unmarshal d sid) types b n)"
  using assms(4,5)
proof (induction k arbitrary: b seen)
  case (Suc k)
  let ?w = "window (local_log unmarshal d sid) types b n"
  have load: "loadSegment unmarshal limit no_query_faults d (buildSegmentQuery limit sid types) sid b
      = Inr (loaded limit sid b n ?w)"
    using wf n Suc.prems(1) assms(3) by (rule loadSegment_ok) (simp_all add: no_query_faults_def)
  obtain seg ex where l: "loaded limit sid b n ?w = (seg, ex)" by (cases "loaded limit sid b n ?w")
  have log: "wf_log sid (local_log unmarshal d sid)" using wf by (rule local_log_wf)
  have t: "truthful (local_log unmarshal d sid) sid types seg" "Begin seg = b" "End seg \<le> n"
    "ex \<longrightarrow> End seg = n" "\<not> ex \<longrightarrow> b < End seg"
    using loaded_truthful[OF log Suc.prems(1) assms(3) l] by auto
  show ?case
  proof (cases ex)
    case True
    then show ?thesis using t load l by (auto simp: collect_def truthful_def not_less dest: order_antisym)
  next
    case False
    have split: "window (local_log unmarshal d sid) types b (End seg)
        @ window (local_log unmarshal d sid) types (End seg) n = ?w"
      using t False by (intro window_split[OF log]) auto
    have "length (Envelopes seg) = nat limit"
      using False l by (auto simp: loaded_def split: if_splits)
    then have "length (window (local_log unmarshal d sid) types (End seg) n) < k * nat limit"
      using Suc.prems(2) t(1,2) split[symmetric] by (simp add: truthful_def)
    from Suc.IH[OF t(3) this] show ?thesis
      using t load l False split by (simp add: collect_def truthful_def)
  qed
qed simp

text \<open>A stream of three events, the one in the middle of another type, for examples.\<close>

definition sample_row :: "u64 \<Rightarrow> 8 word \<Rightarrow> event_row" where
  "sample_row offset b = \<lparr>eMessageID = UUID 9 offset, eCorrelationID = UUID 0 9,
     eTypeID = UUID 0 (ucast b), eEnvelope = [b], eStreamID = UUID 0 1, eOffset = offset,
     eAggKey = None, eAggInstance = None\<rparr>"

definition sample_db :: db where
  "sample_db = empty_db\<lparr>streams := [(UUID 0 1, 3)],
     events := [sample_row 0 2, sample_row 1 3, sample_row 2 2]\<rparr>"

definition sample_unmarshal :: "bytes \<Rightarrow> err + envelope" where
  "sample_unmarshal bs = (case bs of
     [b] \<Rightarrow> Inr (event_at (UUID 0 1) (UUID 0 (ucast b)) 0)
   | _ \<Rightarrow> Inl (New ''malformed envelope''))"

lemma sample_db_wf: "wf_local sample_unmarshal sample_db"
  by (simp add: wf_local_def wf_db_def sample_db_def sample_row_def sample_unmarshal_def
      empty_db_def stream_events_def upt_rec)

lemma sample_db_next: "next_offset sample_db (UUID 0 1) = Some 3"
  by (simp add: next_offset_def sample_db_def empty_db_def)

text \<open>
  C14. However the streams grow between its queries, and wherever a query fails, what
  \<open>Local.Read\<close> has delivered when it stops is the run of the stream's events, of the
  requested types, from the requested offset up to some offset: no event is skipped,
  repeated or out of order.  If it returns nil, that offset is at least the end of the
  stream as the first query saw it.
\<close>

theorem Local_Read_delivers:
  assumes "local_ok env" and "types \<noteq> Some {}"
    and "local_read env sid types b collect [] = (r, seen)"
  shows "\<exists>e \<ge> b. seen = window (local_log (lUnmarshal env) (lDB env) sid) types b e
    \<and> (r = Ret None \<longrightarrow> local_end env sid \<le> e)"
  using local_source.read_collects[OF assms(1,2), of collect "\<lambda>seg seen. seen @ Envelopes seg"
      "\<lambda>seen. seen", OF _ _ assms(3)]
  by (auto simp: collect_def)

theorem Local_Read_delivers_witness:
  "\<exists>e \<ge> 0. [with_position (event_at (UUID 0 1) (UUID 0 2) 0) (UUID 0 1) 0]
      = window (local_log sample_unmarshal sample_db (UUID 0 1)) (Some {UUID 0 2}) 0 e"
proof -
  let ?env = "\<lparr>lUnmarshal = sample_unmarshal, SegmentSize = 1, lObs = [(sample_db, no_query_faults)],
     lDB = sample_db\<rparr>"
  have "local_ok ?env" by (simp add: local_ok_def sample_db_wf)
  moreover have "local_read ?env (UUID 0 1) (Some {UUID 0 2}) 0 collect []
      = (Running, [with_position (event_at (UUID 0 1) (UUID 0 2) 0) (UUID 0 1) 0])"
    by code_simp
  ultimately show ?thesis
    using Local_Read_delivers[of ?env "Some {UUID 0 2}" "UUID 0 1" 0] by fastforce
qed

text \<open>
  C15. While the database does not change and no query fails, \<open>Local.Read\<close> terminates: a
  number of queries that exceeds the matching events divided by the segment size is enough
  for it to return nil, having delivered every event of the requested types from the
  requested offset to the end of the stream.
\<close>

theorem Local_Read_completes:
  assumes "wf_local unmarshal d" and "next_offset d sid = Some n" and "b \<le> n"
    and "types \<noteq> Some {}" and "0 < limit"
    and "length (window (local_log unmarshal d sid) types b n) < k * nat limit"
  shows "Local_Read unmarshal limit (replicate k (d, no_query_faults)) sid types b collect []
    = (Ret None, window (local_log unmarshal d sid) types b n)"
  using assms Local_Read_loop_stable[of unmarshal d sid n limit b types k "[]"]
  by (simp add: Local_Read_def)

theorem Local_Read_completes_witness:
  "Local_Read sample_unmarshal 1 (replicate 3 (sample_db, no_query_faults)) (UUID 0 1)
      (Some {UUID 0 2}) 0 collect []
    = (Ret None, window (local_log sample_unmarshal sample_db (UUID 0 1)) (Some {UUID 0 2}) 0 3)"
proof -
  have "length (window (local_log sample_unmarshal sample_db (UUID 0 1)) (Some {UUID 0 2}) 0 3) < 3 * nat 1"
    by code_simp
  then show ?thesis
    using Local_Read_completes[OF sample_db_wf sample_db_next, of 0 "Some {UUID 0 2}" 1 3] by simp
qed

end
