(* ===== verification/Watcher.thy ===== *)
theory Watcher
  imports Local "HOL-Library.AList"
begin

text \<open>
  The watching half of the local source (\<open>internal/eventstream/source/local.go\<close>):
  \<open>Local.Run\<close> follows each stream once and delivers its segments to every call to
  \<open>Local.Watch\<close> through a bounded buffer.

  The fields guarded by \<open>Local.m\<close>, the calls to \<open>Watch\<close> and the goroutine that follows
  each stream are one state.  Each critical section, and each query, is one operation; the
  step relation interleaves them freely, with the database growing meanwhile.
\<close>

named_theorems watch_simps \<open>fields after the operations of the local source\<close>

section \<open>State\<close>

text \<open>
  A call to \<open>Watch\<close>: its \<open>watcher\<close> (the buffered channel, and \<open>Err\<close>, which is set exactly
  when the channel is closed), and its local variables.  \<open>Seen\<close> records the segments taken
  so far, before they are filtered.
\<close>

record watcher =
  wTypes :: types
  wSegments :: "segment list"
  wErr :: "err option"
  wOpenings :: "segment list"
  wSeen :: "segment list"

text \<open>The local variables \<open>opened\<close> and \<open>next\<close> of the goroutine that follows a stream.\<close>

datatype follower = Opening | Following offset

record local_state =
  offsets :: "(uuid \<times> offset) list"
  watchers :: "nat list"
  calls :: "nat \<rightharpoonup> watcher"
  followers :: "uuid \<rightharpoonup> follower"
  stored :: db

definition init_local :: "db \<Rightarrow> local_state" where
  "init_local d = \<lparr>offsets = [], watchers = [], calls = Map.empty, followers = Map.empty, stored = d\<rparr>"

section \<open>Operations\<close>

definition empty_segment :: "uuid \<Rightarrow> offset \<Rightarrow> segment" where
  "empty_segment sid offset = \<lparr>StreamID = sid, Begin = offset, End = offset, Envelopes = []\<rparr>"

definition register :: "nat \<Rightarrow> types \<Rightarrow> local_state \<Rightarrow> local_state" where
  "register w types st = st\<lparr>watchers := w # watchers st,
     calls := (calls st)(w \<mapsto> \<lparr>wTypes = types, wSegments = [], wErr = None,
       wOpenings = map (\<lambda>(sid, offset). empty_segment sid offset) (offsets st), wSeen = []\<rparr>)\<rparr>"

definition unregister :: "nat \<Rightarrow> local_state \<Rightarrow> local_state" where
  "unregister w st = st\<lparr>watchers := filter (\<lambda>x. x \<noteq> w) (watchers st)\<rparr>"

definition update_call :: "nat \<Rightarrow> (watcher \<Rightarrow> watcher) \<Rightarrow> local_state \<Rightarrow> local_state" where
  "update_call w f st = st\<lparr>calls := (calls st)(w := map_option f (calls st w))\<rparr>"

definition remove_watcher :: "nat \<Rightarrow> err \<Rightarrow> local_state \<Rightarrow> local_state" where
  "remove_watcher w e st = update_call w (\<lambda>c. c\<lparr>wErr := Some e\<rparr>) (unregister w st)"

text \<open>Sending to the buffered channel of one watcher, or removing the watcher if it is full.\<close>

definition too_slow :: err where
  "too_slow = Errorf ''unable to deliver event stream'' [Sentinel ErrConsumerTooSlow]"

definition has_room :: "nat \<Rightarrow> local_state \<Rightarrow> nat \<Rightarrow> bool" where
  "has_room bufferSize st w = (case calls st w of None \<Rightarrow> False | Some c \<Rightarrow> length (wSegments c) < bufferSize)"

definition send :: "nat \<Rightarrow> segment \<Rightarrow> nat \<Rightarrow> local_state \<Rightarrow> local_state" where
  "send bufferSize seg w st =
     (if has_room bufferSize st w then update_call w (\<lambda>c. c\<lparr>wSegments := wSegments c @ [seg]\<rparr>) st
      else remove_watcher w too_slow st)"

definition deliver :: "nat \<Rightarrow> segment \<Rightarrow> local_state \<Rightarrow> local_state" where
  "deliver bufferSize seg st = fold (send bufferSize seg) (watchers st)
     (st\<lparr>offsets := AList.update (StreamID seg) (End seg) (offsets st)\<rparr>)"

definition fail :: "uuid \<Rightarrow> err \<Rightarrow> local_state \<Rightarrow> local_state" where
  "fail sid e st = fold (\<lambda>w. remove_watcher w e) (watchers st)
     (st\<lparr>offsets := AList.delete sid (offsets st)\<rparr>)"

subsection \<open>Following a stream\<close>

text \<open>\<open>discover\<close> starts a follower for each stream that is not known yet.\<close>

definition loadStreamIDs :: "db \<Rightarrow> uuid list" where
  "loadStreamIDs d = map fst (streams d)"

definition discover :: "local_state \<Rightarrow> local_state" where
  "discover st = st\<lparr>followers := (\<lambda>sid.
     if followers st sid = None \<and> sid \<in> set (loadStreamIDs (stored st)) then Some Opening
     else followers st sid)\<rparr>"

definition loadWatchOffset :: "err option \<Rightarrow> db \<Rightarrow> uuid \<Rightarrow> err + offset" where
  "loadWatchOffset fault d sid = (case fault of
     Some e \<Rightarrow> Inl (Errorf ''unable to scan next stream offset'' [e])
   | None \<Rightarrow> (case next_offset d sid of
       None \<Rightarrow> Inl (New ''event stream not found'')
     | Some n \<Rightarrow> Inr n))"

definition follow :: "uuid \<Rightarrow> follower \<Rightarrow> local_state \<Rightarrow> local_state" where
  "follow sid f st = st\<lparr>followers := (followers st)(sid \<mapsto> f)\<rparr>"

text \<open>
  \<open>watchStream\<close> after \<open>deliverStream\<close> has returned an error and the context is not
  canceled; the supervisor then starts it again.
\<close>

definition watchStream_failed :: "uuid \<Rightarrow> err \<Rightarrow> local_state \<Rightarrow> local_state" where
  "watchStream_failed sid e st =
     follow sid Opening (fail sid (Errorf ''unable to watch event stream'' [e]) st)"

text \<open>
  One iteration of \<open>deliverStream\<close>: opening the stream at its end, or loading and
  delivering its next segment.
\<close>

definition deliverStream :: "(bytes \<Rightarrow> err + envelope) \<Rightarrow> int \<Rightarrow> nat \<Rightarrow> query_faults \<Rightarrow> err option \<Rightarrow> uuid
    \<Rightarrow> local_state \<Rightarrow> local_state" where
  "deliverStream unmarshal segmentSize bufferSize faults fault sid st = (case followers st sid of
     None \<Rightarrow> st
   | Some Opening \<Rightarrow> (case loadWatchOffset fault (stored st) sid of
       Inl e \<Rightarrow> watchStream_failed sid e st
     | Inr n \<Rightarrow> follow sid (Following n) (deliver bufferSize (empty_segment sid n) st))
   | Some (Following next) \<Rightarrow>
      (case loadSegment unmarshal segmentSize faults (stored st) (buildSegmentQuery segmentSize sid None)
          sid next of
         Inl e \<Rightarrow> watchStream_failed sid e st
       | Inr (seg, exhausted) \<Rightarrow>
           if End seg > Begin seg then follow sid (Following (End seg)) (deliver bufferSize seg st)
           else st))"

subsection \<open>A call to Watch\<close>

text \<open>
  The openings are passed to \<open>fn\<close> first, then the buffered segments, each filtered to the
  requested types.  When the buffer is empty the call blocks, or returns \<open>Err\<close> if the
  channel is closed.
\<close>

datatype watch_outcome = Deliver segment watcher | Return "err option" | Blocked

definition Watch_next :: "watcher \<Rightarrow> watch_outcome" where
  "Watch_next c = (case wOpenings c of
     seg # rest \<Rightarrow> Deliver seg (c\<lparr>wOpenings := rest, wSeen := wSeen c @ [seg]\<rparr>)
   | [] \<Rightarrow> (case wSegments c of
       seg # rest \<Rightarrow> Deliver (filterSegment seg (wTypes c)) (c\<lparr>wSegments := rest, wSeen := wSeen c @ [seg]\<rparr>)
     | [] \<Rightarrow> (case wErr c of None \<Rightarrow> Blocked | Some e \<Rightarrow> Return (Some e))))"

text \<open>An iteration of the call, in which \<open>fn\<close> returns \<open>reply\<close>.\<close>

definition Local_Watch :: "err option \<Rightarrow> nat \<Rightarrow> local_state \<Rightarrow> local_state" where
  "Local_Watch reply w st = (case calls st w of
     None \<Rightarrow> st
   | Some c \<Rightarrow> (case Watch_next c of
       Blocked \<Rightarrow> st
     | Return e \<Rightarrow> unregister w st
     | Deliver seg c' \<Rightarrow>
         let st' = update_call w (\<lambda>_. c') st
         in if reply = None then st' else unregister w st'))"

section \<open>Interleavings\<close>

inductive local_step :: "(bytes \<Rightarrow> err + envelope) \<Rightarrow> int \<Rightarrow> nat \<Rightarrow> local_state \<Rightarrow> local_state \<Rightarrow> bool"
    for unmarshal segmentSize bufferSize where
  grow: "db_extends (stored st) d \<Longrightarrow> wf_local unmarshal d \<Longrightarrow>
    local_step unmarshal segmentSize bufferSize st (st\<lparr>stored := d\<rparr>)"
| discover: "local_step unmarshal segmentSize bufferSize st (discover st)"
| follow: "local_step unmarshal segmentSize bufferSize st
    (deliverStream unmarshal segmentSize bufferSize faults fault sid st)"
| register: "calls st w = None \<Longrightarrow> types \<noteq> Some {} \<Longrightarrow>
    local_step unmarshal segmentSize bufferSize st (register w types st)"
| watch: "local_step unmarshal segmentSize bufferSize st (Local_Watch reply w st)"
| cancel: "local_step unmarshal segmentSize bufferSize st (unregister w st)"

inductive local_reachable :: "(bytes \<Rightarrow> err + envelope) \<Rightarrow> int \<Rightarrow> nat \<Rightarrow> local_state \<Rightarrow> bool"
    for unmarshal segmentSize bufferSize where
  init: "wf_local unmarshal d \<Longrightarrow> local_reachable unmarshal segmentSize bufferSize (init_local d)"
| step: "local_reachable unmarshal segmentSize bufferSize st \<Longrightarrow>
    local_step unmarshal segmentSize bufferSize st st' \<Longrightarrow>
    local_reachable unmarshal segmentSize bufferSize st'"

section \<open>What the operations do\<close>

definition sent :: "nat \<Rightarrow> segment \<Rightarrow> watcher \<Rightarrow> watcher" where
  "sent bufferSize seg c =
     (if length (wSegments c) < bufferSize then c\<lparr>wSegments := wSegments c @ [seg]\<rparr>
      else c\<lparr>wErr := Some too_slow\<rparr>)"

lemma fold_send:
  "distinct ws \<Longrightarrow> fold (send b seg) ws st =
     st\<lparr>watchers := filter (\<lambda>w. w \<in> set ws \<longrightarrow> has_room b st w) (watchers st),
       calls := (\<lambda>w. if w \<in> set ws then map_option (sent b seg) (calls st w) else calls st w)\<rparr>"
proof (induction ws arbitrary: st)
  case (Cons w ws)
  let ?st = "send b seg w st"
  have s: "?st = st\<lparr>watchers := filter (\<lambda>x. x = w \<longrightarrow> has_room b st w) (watchers st),
      calls := (calls st)(w := map_option (sent b seg) (calls st w))\<rparr>"
    by (auto simp: send_def has_room_def remove_watcher_def unregister_def update_call_def sent_def
        split: option.splits intro!: filter_cong)
  have room: "x \<noteq> w \<Longrightarrow> has_room b ?st x = has_room b st x" for x
    by (simp add: s has_room_def)
  have room': "x \<in> set ws \<Longrightarrow> has_room b ?st x = has_room b st x" for x
    using Cons.prems room[of x] by fastforce
  have "filter (\<lambda>x. x \<in> set ws \<longrightarrow> has_room b ?st x) (watchers ?st)
      = filter (\<lambda>x. x \<in> set (w # ws) \<longrightarrow> has_room b st x) (watchers st)"
    unfolding s[THEN arg_cong[of _ _ watchers], simplified] filter_filter
    using room' by (intro filter_cong) auto
  then show ?case
    using Cons.prems Cons.IH[of ?st]
    by (intro local_state.equality) (auto simp: s[THEN arg_cong[of _ _ calls]]
        s[THEN arg_cong[of _ _ offsets]] s[THEN arg_cong[of _ _ followers]]
        s[THEN arg_cong[of _ _ stored]] fun_eq_iff)
qed simp

lemma fold_remove:
  "fold (\<lambda>w. remove_watcher w e) ws st =
     st\<lparr>watchers := filter (\<lambda>w. w \<notin> set ws) (watchers st),
       calls := (\<lambda>w. if w \<in> set ws then map_option (\<lambda>c. c\<lparr>wErr := Some e\<rparr>) (calls st w) else calls st w)\<rparr>"
proof (induction ws arbitrary: st)
  case (Cons w ws)
  have "remove_watcher w e st = st\<lparr>watchers := filter (\<lambda>x. x \<noteq> w) (watchers st),
      calls := (calls st)(w := map_option (\<lambda>c. c\<lparr>wErr := Some e\<rparr>) (calls st w))\<rparr>"
    by (simp add: remove_watcher_def unregister_def update_call_def)
  then show ?case
    by (intro local_state.equality) (auto simp: Cons fun_eq_iff option.map_comp comp_def
        intro!: filter_cong)
qed simp

lemma deliver_eq [watch_simps]:
  "distinct (watchers st) \<Longrightarrow> deliver b seg st =
     st\<lparr>offsets := AList.update (StreamID seg) (End seg) (offsets st),
       watchers := filter (has_room b st) (watchers st),
       calls := (\<lambda>w. if w \<in> set (watchers st) then map_option (sent b seg) (calls st w) else calls st w)\<rparr>"
  by (rule local_state.equality)
    (auto simp: deliver_def fold_send has_room_def fun_eq_iff intro!: filter_cong)

lemma fail_eq [watch_simps]:
  "fail sid e st = st\<lparr>offsets := AList.delete sid (offsets st), watchers := [],
     calls := (\<lambda>w. if w \<in> set (watchers st) then map_option (\<lambda>c. c\<lparr>wErr := Some e\<rparr>) (calls st w)
       else calls st w)\<rparr>"
  by (rule local_state.equality) (auto simp: fail_def fold_remove fun_eq_iff filter_empty_conv)

section \<open>The invariant\<close>

text \<open>The segments of one stream that a call has taken or has yet to take.\<close>

definition history :: "watcher \<Rightarrow> uuid \<Rightarrow> segment list" where
  "history c sid = filter (\<lambda>seg. StreamID seg = sid) (wSeen c @ wOpenings c @ wSegments c)"

text \<open>A call has received a stream without gaps, up to the given offset if there is one.\<close>

definition contiguous :: "envelope list \<Rightarrow> uuid \<Rightarrow> offset \<Rightarrow> segment list \<Rightarrow> bool" where
  "contiguous log sid n segs \<longleftrightarrow> (\<exists>b e. chain b segs e \<and> e \<le> n)
     \<and> (\<forall>seg \<in> set segs. truthful log sid None seg)"

definition up_to_date :: "local_state \<Rightarrow> watcher \<Rightarrow> bool" where
  "up_to_date st c \<longleftrightarrow> wErr c = None \<and> (\<forall>sid. case map_of (offsets st) sid of
     None \<Rightarrow> history c sid = []
   | Some n \<Rightarrow> history c sid \<noteq> [] \<and> (\<exists>b. chain b (history c sid) n))"

definition call_inv :: "(bytes \<Rightarrow> err + envelope) \<Rightarrow> nat \<Rightarrow> db \<Rightarrow> watcher \<Rightarrow> bool" where
  "call_inv unmarshal bufferSize d c \<longleftrightarrow> length (wSegments c) \<le> bufferSize \<and> wTypes c \<noteq> Some {}
     \<and> (\<forall>sid. history c sid \<noteq> [] \<longrightarrow>
        (\<exists>n. next_offset d sid = Some n \<and> contiguous (local_log unmarshal d sid) sid n (history c sid)))"

definition local_inv :: "(bytes \<Rightarrow> err + envelope) \<Rightarrow> nat \<Rightarrow> local_state \<Rightarrow> bool" where
  "local_inv unmarshal bufferSize st \<longleftrightarrow> wf_local unmarshal (stored st) \<and> distinct (watchers st)
     \<and> distinct (map fst (offsets st))
     \<and> (\<forall>sid n. map_of (offsets st) sid = Some n \<longleftrightarrow> followers st sid = Some (Following n))
     \<and> (\<forall>sid n. map_of (offsets st) sid = Some n \<longrightarrow> (\<exists>m. next_offset (stored st) sid = Some m \<and> n \<le> m))
     \<and> (\<forall>w \<in> set (watchers st). \<exists>c. calls st w = Some c \<and> up_to_date st c)
     \<and> (\<forall>w c. calls st w = Some c \<longrightarrow> call_inv unmarshal bufferSize (stored st) c)"

text \<open>Taking a segment, or removing a watcher, leaves what a call has received as it is.\<close>

lemma history_simps [simp]:
  "history (c\<lparr>wErr := e\<rparr>) sid = history c sid"
  "history (c\<lparr>wSegments := wSegments c @ [seg]\<rparr>) sid
     = history c sid @ (if StreamID seg = sid then [seg] else [])"
  by (simp_all add: history_def)

lemma Watch_next_history:
  assumes "Watch_next c = Deliver seg c'"
  shows "history c' sid = history c sid" and "wErr c' = wErr c" and "wTypes c' = wTypes c"
    and "length (wSegments c') \<le> length (wSegments c)"
  using assms by (auto simp: Watch_next_def history_def split: list.splits option.splits)

lemma contiguous_Nil [simp]: "contiguous log sid n []"
  by (auto simp: contiguous_def)

lemma contiguous_snoc:
  assumes "contiguous log sid n segs" and "segs \<noteq> [] \<Longrightarrow> \<exists>b. chain b segs (Begin seg)"
    and "truthful log sid None seg" and "End seg \<le> n"
  shows "contiguous log sid n (segs @ [seg])"
proof (cases "segs = []")
  case True
  then show ?thesis using assms(3,4) by (auto simp: contiguous_def)
next
  case False
  then show ?thesis using assms by (auto simp: contiguous_def chain_append)
qed

lemma contiguous_End_le:
  assumes "contiguous log sid n segs" and "seg \<in> set segs"
  shows "End seg \<le> n"
proof -
  obtain b e where c: "chain b segs e" "e \<le> n" using assms(1) by (auto simp: contiguous_def)
  obtain xs ys where segs: "segs = xs @ seg # ys" using assms(2) by (meson split_list)
  have "chain (End seg) ys e" using c(1) by (auto simp: chain_append segs)
  then have "End seg \<le> e"
    by (rule chain_le) (use assms(1) in \<open>auto simp: contiguous_def truthful_def segs\<close>)
  then show ?thesis using c(2) by simp
qed

lemma contiguous_extends:
  assumes "wf_local unmarshal d" and "wf_local unmarshal d'" and "db_extends d d'"
    and "next_offset d sid = Some n" and "contiguous (local_log unmarshal d sid) sid n segs"
  shows "\<exists>n'. next_offset d' sid = Some n' \<and> contiguous (local_log unmarshal d' sid) sid n' segs"
proof -
  obtain n' where n': "next_offset d' sid = Some n'" "n \<le> n'"
    using assms(3,4) unfolding db_extends_def by blast
  have "truthful (local_log unmarshal d' sid) sid None seg" if "seg \<in> set segs" for seg
    using assms(5) that contiguous_End_le[OF assms(5) that]
    by (intro truthful_extends[OF assms(1-4)]) (simp_all add: contiguous_def)
  moreover obtain b e where "chain b segs e" "e \<le> n" using assms(5) by (auto simp: contiguous_def)
  moreover from this n'(2) have "e \<le> n'" by simp
  ultimately show ?thesis
    using n'(1) unfolding contiguous_def by blast
qed

lemma call_inv_extends:
  "wf_local unmarshal d \<Longrightarrow> wf_local unmarshal d' \<Longrightarrow> db_extends d d' \<Longrightarrow> call_inv unmarshal b d c
    \<Longrightarrow> call_inv unmarshal b d' c"
  unfolding call_inv_def by (meson contiguous_extends)

section \<open>Every operation keeps the invariant\<close>

lemma local_invD:
  assumes "local_inv unmarshal b st"
  shows "wf_local unmarshal (stored st)" and "distinct (watchers st)" and "distinct (map fst (offsets st))"
    and "map_of (offsets st) sid = Some n \<longleftrightarrow> followers st sid = Some (Following n)"
    and "map_of (offsets st) sid = Some n \<Longrightarrow> \<exists>m. next_offset (stored st) sid = Some m \<and> n \<le> m"
    and "w \<in> set (watchers st) \<Longrightarrow> \<exists>c. calls st w = Some c \<and> up_to_date st c"
    and "calls st w = Some c \<Longrightarrow> call_inv unmarshal b (stored st) c"
  using assms by (simp_all add: local_inv_def)

lemma local_invI:
  assumes "wf_local unmarshal (stored st)" and "distinct (watchers st)" and "distinct (map fst (offsets st))"
    and "\<And>sid n. map_of (offsets st) sid = Some n \<longleftrightarrow> followers st sid = Some (Following n)"
    and "\<And>sid n. map_of (offsets st) sid = Some n \<Longrightarrow> \<exists>m. next_offset (stored st) sid = Some m \<and> n \<le> m"
    and "\<And>w. w \<in> set (watchers st) \<Longrightarrow> \<exists>c. calls st w = Some c \<and> up_to_date st c"
    and "\<And>w c. calls st w = Some c \<Longrightarrow> call_inv unmarshal b (stored st) c"
  shows "local_inv unmarshal b st"
  using assms by (simp add: local_inv_def)

lemma inv_init: "wf_local unmarshal d \<Longrightarrow> local_inv unmarshal b (init_local d)"
  by (simp add: local_inv_def init_local_def)

lemma inv_grow:
  assumes inv: "local_inv unmarshal b st" and "db_extends (stored st) d" and "wf_local unmarshal d"
  shows "local_inv unmarshal b (st\<lparr>stored := d\<rparr>)"
proof (rule local_invI, goal_cases)
  case (5 sid n)
  then obtain m where "next_offset (stored st) sid = Some m" "n \<le> m"
    using local_invD(5)[OF inv] by auto
  moreover from this obtain m' where "next_offset d sid = Some m'" "m \<le> m'"
    using assms(2) unfolding db_extends_def by blast
  ultimately show ?case by auto
next
  case (6 w)
  then show ?case using local_invD(6)[OF inv, of w] by (simp add: up_to_date_def)
next
  case (7 w c)
  then show ?case
    using call_inv_extends[OF local_invD(1)[OF inv] assms(3,2)] local_invD(7)[OF inv] by simp
qed (use assms local_invD[OF inv] in simp_all)

lemma inv_discover:
  assumes inv: "local_inv unmarshal b st"
  shows "local_inv unmarshal b (discover st)"
proof (rule local_invI, goal_cases)
  case (4 sid n)
  show ?case using local_invD(4)[OF inv, of sid n] by (simp add: discover_def)
next
  case (6 w)
  then show ?case using local_invD(6)[OF inv, of w] by (simp add: up_to_date_def discover_def)
qed (use local_invD[OF inv] in \<open>simp_all add: discover_def\<close>)

lemma inv_unregister: "local_inv unmarshal b st \<Longrightarrow> local_inv unmarshal b (unregister w st)"
  by (auto simp: local_inv_def unregister_def up_to_date_def)

lemma openings_history:
  assumes "distinct (map fst offs)"
  shows "filter (\<lambda>seg. StreamID seg = sid) (map (\<lambda>(sid, offset). empty_segment sid offset) offs)
    = (case map_of offs sid of None \<Rightarrow> [] | Some n \<Rightarrow> [empty_segment sid n])"
  using assms
proof (induction offs)
  case (Cons x offs)
  then show ?case
    by (cases x) (auto simp: empty_segment_def map_of_eq_None_iff split: option.splits
        dest: map_of_SomeD intro: rev_image_eqI)
qed simp

lemma empty_segment_truthful [simp]: "truthful log sid types (empty_segment sid n)"
  "Begin (empty_segment sid n) = n" "End (empty_segment sid n) = n" "StreamID (empty_segment sid n) = sid"
  by (simp_all add: truthful_def empty_segment_def)

lemma inv_register:
  assumes inv: "local_inv unmarshal b st" and "calls st w = None" and "types \<noteq> Some {}"
  shows "local_inv unmarshal b (register w types st)"
proof -
  define c where "c = \<lparr>wTypes = types, wSegments = [], wErr = None,
       wOpenings = map (\<lambda>(sid, offset). empty_segment sid offset) (offsets st), wSeen = []\<rparr>"
  have h: "history c sid = (case map_of (offsets st) sid of None \<Rightarrow> [] | Some n \<Rightarrow> [empty_segment sid n])" for sid
    using openings_history[OF local_invD(3)[OF inv]] by (simp add: c_def history_def)
  have st: "register w types st = st\<lparr>watchers := w # watchers st, calls := (calls st)(w \<mapsto> c)\<rparr>"
    by (simp add: register_def c_def)
  have fresh: "w \<notin> set (watchers st)" using local_invD(6)[OF inv] assms(2) by fastforce
  have "wErr c = None" by (simp add: c_def)
  then have utd: "up_to_date st c" by (auto simp: up_to_date_def h split: option.splits)
  have "call_inv unmarshal b (stored st) c"
    unfolding call_inv_def
  proof (intro conjI allI impI)
    fix sid
    assume "history c sid \<noteq> []"
    then obtain n where n: "map_of (offsets st) sid = Some n" by (auto simp: h split: option.splits)
    then show "\<exists>n. next_offset (stored st) sid = Some n
        \<and> contiguous (local_log unmarshal (stored st) sid) sid n (history c sid)"
      using local_invD(5)[OF inv n] by (auto simp: h contiguous_def)
  qed (simp_all add: c_def assms(3))
  then show ?thesis
    using inv fresh utd unfolding st local_inv_def up_to_date_def by simp
qed

lemma up_to_date_cong:
  "history c' = history c \<Longrightarrow> wErr c' = wErr c \<Longrightarrow> offsets st' = offsets st \<Longrightarrow>
     up_to_date st' c' \<longleftrightarrow> up_to_date st c"
  by (simp only: up_to_date_def)

lemma inv_Local_Watch:
  assumes inv: "local_inv unmarshal b st"
  shows "local_inv unmarshal b (Local_Watch reply w st)"
proof -
  have "local_inv unmarshal b (update_call w (\<lambda>_. c') st)"
    if c: "calls st w = Some c" and n: "Watch_next c = Deliver seg c'" for c c' seg
  proof (rule local_invI, goal_cases)
    case (6 x)
    then obtain k where "calls st x = Some k" "up_to_date st k"
      using local_invD(6)[OF inv, of x] by (auto simp: update_call_def)
    moreover have "history c' = history c" using Watch_next_history(1)[OF n] by auto
    ultimately show ?case
      using c Watch_next_history(2)[OF n] up_to_date_cong[of c' c "update_call w (\<lambda>_. c') st" st]
        up_to_date_cong[of k k "update_call w (\<lambda>_. c') st" st]
      by (auto simp: update_call_def)
  next
    case (7 x k)
    have "call_inv unmarshal b (stored st) c'"
      using local_invD(7)[OF inv c] Watch_next_history[OF n] by (auto simp: call_inv_def)
    then show ?case
      using 7 c local_invD(7)[OF inv, of x k] by (auto simp: update_call_def split: if_splits)
  qed (use local_invD[OF inv] in \<open>simp_all add: update_call_def\<close>)
  then show ?thesis
    using inv by (auto simp: Local_Watch_def Let_def inv_unregister split: option.splits watch_outcome.splits)
qed

text \<open>A segment that continues its stream reaches every watcher, or the watcher is removed.\<close>

lemma sent_cases:
  obtains (room) "sent b seg c = c\<lparr>wSegments := wSegments c @ [seg]\<rparr>" "length (wSegments c) < b"
  | (full) "sent b seg c = c\<lparr>wErr := Some too_slow\<rparr>" "\<not> length (wSegments c) < b"
  by (auto simp: sent_def)

lemma call_inv_sent:
  assumes "call_inv unmarshal b d c" and "truthful (local_log unmarshal d (StreamID seg)) (StreamID seg) None seg"
    and "next_offset d (StreamID seg) = Some m" and "End seg \<le> m"
    and "history c (StreamID seg) \<noteq> [] \<Longrightarrow> \<exists>x. chain x (history c (StreamID seg)) (Begin seg)"
  shows "call_inv unmarshal b d (sent b seg c)"
proof (cases rule: sent_cases[of b seg c])
  case room
  have "contiguous (local_log unmarshal d (StreamID seg)) (StreamID seg) m (history c (StreamID seg))"
    using assms(1,3) by (cases "history c (StreamID seg) = []") (auto simp: call_inv_def)
  then have "contiguous (local_log unmarshal d (StreamID seg)) (StreamID seg) m
      (history c (StreamID seg) @ [seg])"
    using assms by (intro contiguous_snoc) auto
  then show ?thesis
    using assms(1,3) room by (auto simp: call_inv_def)
qed (use assms(1) in \<open>simp add: call_inv_def\<close>)

lemma inv_deliver:
  assumes inv: "local_inv unmarshal b st" and sid: "StreamID seg = sid"
    and t: "truthful (local_log unmarshal (stored st) sid) sid None seg"
    and m: "next_offset (stored st) sid = Some m" "End seg \<le> m"
    and cont: "map_of (offsets st) sid = None \<or> map_of (offsets st) sid = Some (Begin seg)"
  shows "local_inv unmarshal b (follow sid (Following (End seg)) (deliver b seg st))"
proof -
  let ?st = "follow sid (Following (End seg)) (deliver b seg st)"
  note eq = deliver_eq[OF local_invD(2)[OF inv], of b seg] follow_def
  have offs: "map_of (offsets ?st) = (map_of (offsets st))(sid \<mapsto> End seg)"
    by (simp add: eq sid update_conv')
  have chain: "history c sid \<noteq> [] \<Longrightarrow> \<exists>x. chain x (history c sid) (Begin seg)"
    if "up_to_date st c" for c
    using that cont by (auto simp: up_to_date_def split: option.splits dest!: spec[of _ sid])
  show ?thesis
  proof (rule local_invI, goal_cases)
    case 3
    then show ?case using local_invD(3)[OF inv] by (simp add: eq distinct_update)
  next
    case (4 k n)
    then show ?case using local_invD(4)[OF inv, of k n] unfolding offs by (auto simp: eq)
  next
    case (5 k n)
    then show ?case using local_invD(5)[OF inv, of k n] m unfolding offs by (auto simp: eq split: if_splits)
  next
    case (6 w)
    then have w: "w \<in> set (watchers st)" "has_room b st w" by (auto simp: eq)
    then obtain c where c: "calls st w = Some c" "up_to_date st c" "length (wSegments c) < b"
      using local_invD(6)[OF inv] by (fastforce simp: has_room_def)
    have h: "history (sent b seg c) k = history c k @ (if k = sid then [seg] else [])" for k
      using c(3) sid by (auto simp: sent_def)
    have "up_to_date ?st (sent b seg c)"
      unfolding up_to_date_def
    proof (intro conjI allI)
      show "wErr (sent b seg c) = None" using c by (simp add: sent_def up_to_date_def)
      fix k
      show "case map_of (offsets ?st) k of None \<Rightarrow> history (sent b seg c) k = []
        | Some n \<Rightarrow> history (sent b seg c) k \<noteq> [] \<and> (\<exists>x. chain x (history (sent b seg c) k) n)"
        using chain[OF c(2)] c(2) unfolding up_to_date_def offs h[of k]
        by (cases "k = sid"; cases "history c sid = []"; cases "map_of (offsets st) k")
          (auto simp: chain_append dest!: spec[of _ k])
    qed
    then show ?case using c w by (auto simp: eq)
  next
    case (7 w c)
    have sent: "call_inv unmarshal b (stored st) (sent b seg k)" if "calls st w = Some k" "w \<in> set (watchers st)" for k
      using local_invD(6)[OF inv that(2)] local_invD(7)[OF inv that(1)] that(1) chain[of k] t m sid
      by (intro call_inv_sent) auto
    show ?case
      using 7 sent local_invD(7)[OF inv, of w] by (auto simp: eq split: if_splits)
  qed (use local_invD[OF inv] in \<open>simp_all add: eq\<close>)
qed

lemma inv_watchStream_failed:
  assumes inv: "local_inv unmarshal b st"
  shows "local_inv unmarshal b (watchStream_failed sid e st)"
proof (rule local_invI, goal_cases)
  case (4 k n)
  then show ?case using local_invD(4)[OF inv, of k n]
    by (auto simp: watchStream_failed_def fail_eq follow_def delete_conv')
next
  case (5 k n)
  then show ?case using local_invD(5)[OF inv, of k n]
    by (auto simp: watchStream_failed_def fail_eq follow_def delete_conv' split: if_splits)
next
  case (7 w c)
  then obtain k where "calls st w = Some k" "c = k \<or> (\<exists>e. c = k\<lparr>wErr := e\<rparr>)"
    by (auto simp: watchStream_failed_def fail_eq follow_def split: if_splits)
  then show ?case
    using local_invD(7)[OF inv, of w k] by (auto simp: watchStream_failed_def fail_eq follow_def call_inv_def)
qed (use local_invD[OF inv] in
    \<open>simp_all add: watchStream_failed_def fail_eq follow_def distinct_delete\<close>)

lemma inv_deliverStream:
  assumes inv: "local_inv unmarshal b st" and "0 < segmentSize"
  shows "local_inv unmarshal b (deliverStream unmarshal segmentSize b faults fault sid st)"
proof (cases "followers st sid")
  case (Some f)
  note wf = local_invD(1)[OF inv]
  show ?thesis
  proof (cases f)
    case Opening
    then have "map_of (offsets st) sid = None"
      using local_invD(4)[OF inv, of sid] Some by (cases "map_of (offsets st) sid") auto
    then have "next_offset (stored st) sid = Some n \<Longrightarrow>
        local_inv unmarshal b (follow sid (Following n) (deliver b (empty_segment sid n) st))" for n
      using inv_deliver[OF inv, of "empty_segment sid n" sid n] by simp
    then show ?thesis
      using Some Opening inv_watchStream_failed[OF inv]
      by (auto simp: deliverStream_def loadWatchOffset_def split: option.splits)
  next
    case (Following "next")
    then have offs: "map_of (offsets st) sid = Some next"
      using local_invD(4)[OF inv, of sid "next"] Some by simp
    show ?thesis
    proof (cases "loadSegment unmarshal segmentSize faults (stored st) (buildSegmentQuery segmentSize sid None) sid next")
      case (Inl e)
      then show ?thesis
        using Some Following inv_watchStream_failed[OF inv] by (simp add: deliverStream_def)
    next
      case (Inr x)
      obtain seg ex where x: "x = (seg, ex)" by (cases x)
      obtain n where n: "next_offset (stored st) sid = Some n" "next \<le> n"
        using loadSegment_Inr(1)[OF Inr] by (auto simp: buildSegmentQuery_def)
      have "loaded segmentSize sid next n (window (local_log unmarshal (stored st) sid) None next n) = (seg, ex)"
        using loadSegment_ok[OF wf n assms(2) loadSegment_Inr(2-4)[OF Inr]] Inr x by simp
      from loaded_truthful[OF local_log_wf[OF wf] n(2) assms(2) this]
      have t: "truthful (local_log unmarshal (stored st) sid) sid None seg" "Begin seg = next" "End seg \<le> n"
        by simp_all
      then have "local_inv unmarshal b (follow sid (Following (End seg)) (deliver b seg st))"
        using offs n by (intro inv_deliver[OF inv _ t(1) n(1)]) (simp_all add: truthful_def)
      then show ?thesis
        using Some Following Inr x inv by (simp add: deliverStream_def)
    qed
  qed
qed (simp add: deliverStream_def inv)

lemma local_reachable_inv:
  assumes "0 < segmentSize" and "local_reachable unmarshal segmentSize b st"
  shows "local_inv unmarshal b st"
  using assms(2)
proof induction
  case (step st st')
  from step.hyps(2) step.IH show ?case
    by cases (auto intro: inv_grow inv_discover inv_deliverStream[OF _ assms(1)] inv_register
        inv_Local_Watch inv_unregister)
qed (rule inv_init)

section \<open>Properties of watching\<close>


text \<open>
  A run: a call registers, an empty stream is discovered and opened, it grows by three
  events, and the call takes the opening segment and then the segment with the events.
\<close>

definition sample_run :: local_state where
  "sample_run =
    (let follow = deliverStream sample_unmarshal 5 2 no_query_faults None (UUID 0 1);
         st = register 0 None (init_local (empty_db\<lparr>streams := [(UUID 0 1, 0)]\<rparr>));
         st = (follow (discover st))\<lparr>stored := sample_db\<rparr>
     in Local_Watch None 0 (Local_Watch None 0 (follow st)))"

lemma sample_run_reachable: "local_reachable sample_unmarshal 5 2 sample_run"
proof -
  let ?d = "empty_db\<lparr>streams := [(UUID 0 1, 0)]\<rparr>"
  have "wf_local sample_unmarshal ?d"
    by (simp add: wf_local_def wf_db_def empty_db_def stream_events_def)
  moreover have "db_extends ?d sample_db"
    by (auto simp: db_extends_def stream_events_def next_offset_def empty_db_def sample_db_def)
  moreover have "stored (discover (register 0 None (init_local ?d))) = ?d"
    by (simp add: discover_def register_def init_local_def)
  moreover have "distinct (watchers (discover (register 0 None (init_local ?d))))"
    by (simp add: discover_def register_def init_local_def)
  moreover from this have "stored (deliverStream sample_unmarshal 5 2 no_query_faults None sid
      (discover (register 0 None (init_local ?d)))) = stored (discover (register 0 None (init_local ?d)))" for sid
    by (simp add: deliverStream_def watchStream_failed_def follow_def watch_simps
        split: option.splits follower.splits sum.splits)
  ultimately show ?thesis
    unfolding sample_run_def Let_def
    by (intro local_reachable.step[OF _ local_step.watch] local_reachable.step[OF _ local_step.follow]
        local_reachable.step[OF _ local_step.grow] local_reachable.step[OF _ local_step.discover]
        local_reachable.step[OF _ local_step.register] local_reachable.init sample_db_wf)
      (simp_all add: init_local_def)
qed

lemma sample_run_seen:
  "map_option (\<lambda>c. map (\<lambda>seg. (Begin seg, End seg, length (Envelopes seg))) (wSeen c)) (calls sample_run 0)
    = Some [(0, 0, 0), (0, 3, 3)]"
  by code_simp


text \<open>
  C13. A watcher never misses a segment silently.  In every reachable state, a call that is
  still registered has received, of each stream that \<open>Local.Run\<close> is following, contiguous
  segments up to the offset that the stream has been delivered to.  Delivering a segment
  appends it to the buffer of each registered call that has room, and every other registered
  call is removed with an error that wraps \<open>ErrConsumerTooSlow\<close>.
\<close>

theorem deliver_reaches_watchers:
  assumes "0 < segmentSize" and "local_reachable unmarshal segmentSize b st" and "w \<in> set (watchers st)"
  shows "\<exists>c c'. calls st w = Some c \<and> wErr c = None
    \<and> (\<forall>sid n. map_of (offsets st) sid = Some n \<longrightarrow> (\<exists>from. chain from (history c sid) n))
    \<and> calls (deliver b seg st) w = Some c'
    \<and> (if length (wSegments c) < b
       then w \<in> set (watchers (deliver b seg st)) \<and> c' = c\<lparr>wSegments := wSegments c @ [seg]\<rparr>
       else w \<notin> set (watchers (deliver b seg st)) \<and> err_Is (wErr c') ErrConsumerTooSlow)"
proof -
  note inv = local_reachable_inv[OF assms(1,2)]
  obtain c where c: "calls st w = Some c" "up_to_date st c" using local_invD(6)[OF inv assms(3)] by blast
  have up: "\<forall>sid n. map_of (offsets st) sid = Some n \<longrightarrow> (\<exists>from. chain from (history c sid) n)"
  proof (intro allI impI)
    fix sid n
    assume "map_of (offsets st) sid = Some n"
    moreover have "case map_of (offsets st) sid of None \<Rightarrow> history c sid = []
        | Some n \<Rightarrow> history c sid \<noteq> [] \<and> (\<exists>b. chain b (history c sid) n)"
      using c(2) unfolding up_to_date_def by blast
    ultimately show "\<exists>from. chain from (history c sid) n" by simp
  qed
  show ?thesis
  proof (rule exI[of _ c], rule exI[of _ "sent b seg c"], intro conjI up)
    show "wErr c = None" using c(2) by (simp add: up_to_date_def)
    show "calls (deliver b seg st) w = Some (sent b seg c)"
      using c(1) assms(3) by (simp add: deliver_eq[OF local_invD(2)[OF inv]])
    show "if length (wSegments c) < b
       then w \<in> set (watchers (deliver b seg st)) \<and> sent b seg c = c\<lparr>wSegments := wSegments c @ [seg]\<rparr>
       else w \<notin> set (watchers (deliver b seg st)) \<and> err_Is (wErr (sent b seg c)) ErrConsumerTooSlow"
      using c(1) assms(3)
      by (simp add: deliver_eq[OF local_invD(2)[OF inv]] has_room_def sent_def too_slow_def err_Is_def)
  qed (fact c(1))
qed

theorem deliver_reaches_watchers_witness:
  "\<exists>c c'. calls sample_run 0 = Some c
    \<and> (\<forall>sid n. map_of (offsets sample_run) sid = Some n \<longrightarrow> (\<exists>from. chain from (history c sid) n))
    \<and> calls (deliver 2 (empty_segment (UUID 0 1) 3) sample_run) 0 = Some c'"
proof -
  have "0 \<in> set (watchers sample_run)" by code_simp
  from deliver_reaches_watchers[OF _ sample_run_reachable this, of "empty_segment (UUID 0 1) 3"]
  show ?thesis by fastforce
qed

end
