(* ===== verification/Memory.thy ===== *)
theory Memory
  imports Streams "HOL-Library.AList"
begin

text \<open>
  The in-memory source (\<open>internal/eventstream/source/memory.go\<close>).  As in the local
  source, each critical section of a read or watch sees a state of its own, in which the
  streams may have grown, and the call is still \<open>Running\<close> when the given states run out.
\<close>

section \<open>State and operations\<close>

record memoryStream =
  mEnvelopes :: "envelope list"
  mEnd :: offset

record memory =
  mSegmentSize :: int
  mStreams :: "(uuid \<times> memoryStream) list"

definition Memory_Append :: "segment \<Rightarrow> memory \<Rightarrow> memory go" where
  "Memory_Append seg m =
     (let ms = (case map_of (mStreams m) (StreamID seg) of
                  None \<Rightarrow> \<lparr>mEnvelopes = [], mEnd = Begin seg\<rparr>
                | Some ms \<Rightarrow> ms)
      in if Begin seg \<noteq> mEnd ms then Panic ''segment does not begin where the stream ends''
         else Ret (m\<lparr>mStreams := AList.update (StreamID seg)
           (ms\<lparr>mEnvelopes := mEnvelopes ms @ Envelopes seg, mEnd := End seg\<rparr>) (mStreams m)\<rparr>))"

definition memory_segment :: "uuid \<Rightarrow> memoryStream \<Rightarrow> types \<Rightarrow> offset \<Rightarrow> offset \<Rightarrow> segment go" where
  "memory_segment streamID ms types b e =
     go_bind (go_filter (\<lambda>env. go_bind (offsetOf env) (\<lambda>offset.
         Ret (\<not> (offset < b \<or> offset \<ge> e) \<and> wants types env))) (mEnvelopes ms))
       (\<lambda>envs. Ret \<lparr>StreamID = streamID, Begin = b, End = e, Envelopes = envs\<rparr>)"

definition unread :: "memory \<Rightarrow> uuid \<Rightarrow> types \<Rightarrow> offset \<Rightarrow> (err + segment option) go" where
  "unread m streamID types b = (case map_of (mStreams m) streamID of
     None \<Rightarrow> Ret (Inl (Errorf ''unable to read event stream'' [Sentinel ErrUnrecognizedStream]))
   | Some ms \<Rightarrow>
       if b > mEnd ms then Ret (Inl (Errorf ''unable to read event stream'' [Sentinel ErrOffsetOutOfRange]))
       else if b = mEnd ms then Ret (Inr None)
       else go_bind (memory_segment streamID ms types b (mEnd ms)) (\<lambda>seg.
         if mSegmentSize m > 0 \<and> int (length (Envelopes seg)) > mSegmentSize m then
           go_bind (index (Envelopes seg) (mSegmentSize m - 1)) (\<lambda>env.
             go_bind (offsetOf env) (\<lambda>offset.
               Ret (Inr (Some (seg\<lparr>Envelopes := take (nat (mSegmentSize m)) (Envelopes seg),
                 End := offset + 1\<rparr>)))))
         else Ret (Inr (Some seg))))"

fun Memory_Read_loop :: "memory list \<Rightarrow> uuid \<Rightarrow> types \<Rightarrow> offset \<Rightarrow> 's callback \<Rightarrow> 's \<Rightarrow> err option go \<times> 's" where
  "Memory_Read_loop [] streamID types b fn s = (Running, s)"
| "Memory_Read_loop (m # ms) streamID types b fn s = (case unread m streamID types b of
     Panic msg \<Rightarrow> (Panic msg, s)
   | Running \<Rightarrow> (Running, s)
   | Ret (Inl e) \<Rightarrow> (Ret (Some e), s)
   | Ret (Inr None) \<Rightarrow> (Ret None, s)
   | Ret (Inr (Some seg)) \<Rightarrow> (case fn seg s of
       (Some e, s') \<Rightarrow> (Ret (Some e), s')
     | (None, s') \<Rightarrow> Memory_Read_loop ms streamID types (End seg) fn s'))"

definition Memory_Read :: "memory list \<Rightarrow> uuid \<Rightarrow> types \<Rightarrow> offset \<Rightarrow> 's callback \<Rightarrow> 's \<Rightarrow> err option go \<times> 's" where
  "Memory_Read ms streamID types b fn s = (case panicIfEmpty types of
     Panic msg \<Rightarrow> (Panic msg, s)
   | Running \<Rightarrow> (Running, s)
   | Ret _ \<Rightarrow> Memory_Read_loop ms streamID types b fn s)"

text \<open>
  \<open>undelivered\<close> visits each stream; \<open>delivered\<close> holds the offset up to which each has been
  delivered.  The order in which a map is visited is immaterial here, as each stream has at
  most one segment.
\<close>

fun undelivered :: "types \<Rightarrow> (uuid \<times> memoryStream) list \<Rightarrow> (uuid \<times> offset) list
    \<Rightarrow> (segment list \<times> (uuid \<times> offset) list) go" where
  "undelivered types [] delivered = Ret ([], delivered)"
| "undelivered types ((streamID, ms) # rest) delivered =
     (let found = map_of delivered streamID;
          b = (case found of None \<Rightarrow> mEnd ms | Some b \<Rightarrow> b)
      in if found \<noteq> None \<and> b = mEnd ms then undelivered types rest delivered
         else go_bind (memory_segment streamID ms types b (mEnd ms)) (\<lambda>seg.
           go_bind (undelivered types rest (AList.update streamID (mEnd ms) delivered)) (\<lambda>(segs, delivered').
             Ret (seg # segs, delivered'))))"

text \<open>
  Each iteration of \<open>Watch\<close> sees a state, delivers what is new in it, and then waits for a
  change, unless its context is done first.
\<close>

fun Memory_Watch :: "(memory \<times> err option) list \<Rightarrow> types \<Rightarrow> (uuid \<times> offset) list \<Rightarrow> 's callback \<Rightarrow> 's
    \<Rightarrow> err option go \<times> 's" where
  "Memory_Watch [] types delivered fn s = (Running, s)"
| "Memory_Watch ((m, ctxErr) # obs) types delivered fn s =
     (case undelivered types (mStreams m) delivered of
        Panic msg \<Rightarrow> (Panic msg, s)
      | Running \<Rightarrow> (Running, s)
      | Ret (segs, delivered') \<Rightarrow> (case run_segments fn segs (Ret None) s of
          (Ret None, s') \<Rightarrow> (case ctxErr of
              Some e \<Rightarrow> (Ret (Some e), s')
            | None \<Rightarrow> Memory_Watch obs types delivered' fn s')
        | (r, s') \<Rightarrow> (r, s')))"

section \<open>Well-formed and growing streams\<close>

definition memory_log :: "memory \<Rightarrow> uuid \<Rightarrow> envelope list" where
  "memory_log m sid = (case map_of (mStreams m) sid of None \<Rightarrow> [] | Some ms \<Rightarrow> mEnvelopes ms)"

definition memory_end :: "memory \<Rightarrow> uuid \<Rightarrow> offset" where
  "memory_end m sid = (case map_of (mStreams m) sid of None \<Rightarrow> 0 | Some ms \<Rightarrow> mEnd ms)"

definition wf_memory :: "memory \<Rightarrow> bool" where
  "wf_memory m \<longleftrightarrow> distinct (map fst (mStreams m)) \<and> (\<forall>(sid, ms) \<in> set (mStreams m).
     wf_log sid (mEnvelopes ms) \<and> (\<forall>env \<in> set (mEnvelopes ms). off env < mEnd ms))"

definition memory_extends :: "memory \<Rightarrow> memory \<Rightarrow> bool" where
  "memory_extends m m' \<longleftrightarrow> (\<forall>sid ms. map_of (mStreams m) sid = Some ms \<longrightarrow>
     (\<exists>ms' new. map_of (mStreams m') sid = Some ms' \<and> mEnvelopes ms' = mEnvelopes ms @ new
        \<and> (\<forall>env \<in> set new. mEnd ms \<le> off env) \<and> mEnd ms \<le> mEnd ms'))"

lemma wf_memoryD:
  assumes "wf_memory m" and "map_of (mStreams m) sid = Some ms"
  shows "wf_log sid (mEnvelopes ms)" and "env \<in> set (mEnvelopes ms) \<Longrightarrow> off env < mEnd ms"
  using assms by (auto simp: wf_memory_def dest!: map_of_SomeD)

lemma memory_log_wf: "wf_memory m \<Longrightarrow> wf_log sid (memory_log m sid)"
  by (auto simp: memory_log_def wf_memoryD split: option.splits) (simp add: wf_log_def)

text \<open>
  Appending a segment of new events keeps the streams well-formed and only makes them
  longer; the appended segment is then what the stream holds in its range.
\<close>

lemma Memory_Append_wf:
  assumes wf: "wf_memory m" and "Memory_Append seg m = Ret m'"
    and new: "wf_log (StreamID seg) (Envelopes seg)" "Begin seg \<le> End seg"
      "\<And>env. env \<in> set (Envelopes seg) \<Longrightarrow> Begin seg \<le> off env \<and> off env < End seg"
  shows "wf_memory m'" and "memory_extends m m'" and "truthful (memory_log m' (StreamID seg)) (StreamID seg) None seg"
proof -
  define ms where "ms = (case map_of (mStreams m) (StreamID seg) of
      None \<Rightarrow> \<lparr>mEnvelopes = [], mEnd = Begin seg\<rparr> | Some ms \<Rightarrow> ms)"
  define ms' where "ms' = ms\<lparr>mEnvelopes := mEnvelopes ms @ Envelopes seg, mEnd := End seg\<rparr>"
  have m': "m' = m\<lparr>mStreams := AList.update (StreamID seg) ms' (mStreams m)\<rparr>" and b: "Begin seg = mEnd ms"
    using assms(2) by (auto simp: Memory_Append_def Let_def ms_def ms'_def split: if_splits)
  have ms: "wf_log (StreamID seg) (mEnvelopes ms)" "\<forall>env \<in> set (mEnvelopes ms). off env < Begin seg"
    using wf_memoryD[OF wf] b by (auto simp: ms_def wf_log_def split: option.splits)
  have look: "map_of (mStreams m') = (map_of (mStreams m))(StreamID seg \<mapsto> ms')"
    by (simp add: m' update_conv')
  have dist: "distinct (map fst (mStreams m'))"
    using wf by (simp add: m' wf_memory_def distinct_update)
  have "\<forall>x \<in> set (mEnvelopes ms). \<forall>y \<in> set (Envelopes seg). off x < off y"
    using ms(2) new(3) by (meson less_le_trans)
  then have wf': "wf_log (StreamID seg) (mEnvelopes ms')"
    using ms(1) new(1) by (auto simp: ms'_def wf_log_def sorted_wrt_append)
  have "\<forall>env \<in> set (mEnvelopes ms). off env < End seg"
    using ms(2) new(2) by (meson less_le_trans)
  then have end': "\<forall>env \<in> set (mEnvelopes ms'). off env < mEnd ms'"
    using new(3) by (auto simp: ms'_def)
  show "wf_memory m'"
    unfolding wf_memory_def
  proof (intro conjI dist ballI, clarify)
    fix sid x
    assume "(sid, x) \<in> set (mStreams m')"
    then have "map_of (mStreams m') sid = Some x" using dist by simp
    then show "wf_log sid (mEnvelopes x) \<and> (\<forall>env \<in> set (mEnvelopes x). off env < mEnd x)"
      using wf' end' wf_memoryD[OF wf, of sid x] unfolding look by (auto split: if_splits)
  qed
  show "memory_extends m m'"
    using new b unfolding memory_extends_def look
    by (auto simp: ms_def ms'_def split: option.splits)
  have "window (mEnvelopes ms @ Envelopes seg) None (Begin seg) (End seg) = Envelopes seg"
    using ms(2) new(3) by (auto simp: window_def filter_empty_conv filter_id_conv)
  then show "truthful (memory_log m' (StreamID seg)) (StreamID seg) None seg"
    using new(2) by (simp add: truthful_def memory_log_def look ms'_def)
qed

section \<open>Reading\<close>

lemma memory_segment_ok:
  assumes "wf_log sid (mEnvelopes ms)"
  shows "memory_segment sid ms types b e
    = Ret \<lparr>StreamID = sid, Begin = b, End = e, Envelopes = window (mEnvelopes ms) types b e\<rparr>"
proof -
  have "go_filter (\<lambda>env. go_bind (offsetOf env) (\<lambda>offset.
      Ret (\<not> (offset < b \<or> offset \<ge> e) \<and> wants types env))) (mEnvelopes ms)
    = Ret (filter (\<lambda>env. \<not> (off env < b \<or> off env \<ge> e) \<and> wants types env) (mEnvelopes ms))"
    by (rule go_filter_Ret) (use assms in \<open>simp add: wf_log_def offsetOf_positioned[of sid]\<close>)
  moreover have "filter (\<lambda>env. \<not> (off env < b \<or> off env \<ge> e) \<and> wants types env) (mEnvelopes ms)
      = window (mEnvelopes ms) types b e"
    unfolding window_def by (rule filter_cong) auto
  ultimately show ?thesis by (simp add: memory_segment_def)
qed

lemma unread_ok:
  assumes wf: "wf_memory m" and ms: "map_of (mStreams m) sid = Some ms" and b: "b < mEnd ms"
  obtains seg where "unread m sid types b = Ret (Inr (Some seg))"
    and "truthful (mEnvelopes ms) sid types seg" and "Begin seg = b" and "b < End seg" and "End seg \<le> mEnd ms"
proof -
  note log = wf_memoryD(1)[OF wf ms]
  let ?w = "window (mEnvelopes ms) types b (mEnd ms)"
  show thesis
  proof (cases "mSegmentSize m > 0 \<and> int (length ?w) > mSegmentSize m")
    case False
    then have "unread m sid types b = Ret (Inr (Some \<lparr>StreamID = sid, Begin = b, End = mEnd ms, Envelopes = ?w\<rparr>))"
      using b by (auto simp: unread_def ms memory_segment_ok[OF log])
    then show thesis using that b by (auto simp: truthful_def)
  next
    case True
    define k where "k = nat (mSegmentSize m) - 1"
    have k: "k < length ?w" "nat (mSegmentSize m) = Suc k" "nat (mSegmentSize m - 1) = k"
      using True by (auto simp: k_def)
    have o: "b \<le> off (?w ! k)" "off (?w ! k) < mEnd ms" using window_nth_bounds[OF k(1)] by auto
    then have end_b: "b < off (?w ! k) + 1" "off (?w ! k) + 1 \<le> mEnd ms" by (auto simp: offset_simps)
    have "positioned sid (?w ! k)"
      using log nth_mem[OF k(1)] by (auto simp: in_window)
    then have "unread m sid types b = Ret (Inr (Some \<lparr>StreamID = sid, Begin = b,
        End = off (?w ! k) + 1, Envelopes = take (Suc k) ?w\<rparr>))"
      using True b k by (auto simp: unread_def ms memory_segment_ok[OF log] go_simps)
    then show thesis
      using that end_b window_take[OF log k(1)] by (auto simp: truthful_def)
  qed
qed

definition memory_ok :: "memory list \<times> memory \<Rightarrow> bool" where
  "memory_ok env \<longleftrightarrow> (\<forall>m \<in> set (fst env @ [snd env]). wf_memory m)
     \<and> sorted_wrt memory_extends (fst env @ [snd env])"

lemma Memory_Read_loop_plan:
  assumes "\<forall>m \<in> set (ms @ [final]). wf_memory m" and "sorted_wrt memory_extends (ms @ [final])"
  shows "\<exists>segs r e. (\<forall>fn s. Memory_Read_loop ms sid types b fn s = run_segments fn segs r s) \<and> chain b segs e
    \<and> (\<forall>seg \<in> set segs. truthful (memory_log final sid) sid types seg \<and> Begin seg < End seg)
    \<and> (r = Ret None \<longrightarrow> (\<exists>m \<in> set ms. memory_end m sid = e)) \<and> (\<forall>m. r \<noteq> Panic m)"
    (is "\<exists>segs r e. ?plan ms b segs r e")
  using assms
proof (induction ms arbitrary: b)
  case Nil
  show ?case by (intro exI[of _ "[]"] exI[of _ Running] exI[of _ b]) simp
next
  case (Cons m ms)
  have wf: "wf_memory m" and ext: "memory_extends m final" using Cons.prems by auto
  show ?case
  proof (cases "map_of (mStreams m) sid")
    case None
    then show ?thesis
      by (intro exI[of _ "[]"] exI[of _ "Ret (Some (Errorf ''unable to read event stream''
        [Sentinel ErrUnrecognizedStream]))"] exI[of _ b]) (simp add: unread_def)
  next
    case (Some x)
    consider "b > mEnd x" | "b = mEnd x" | "b < mEnd x" by fastforce
    then show ?thesis
    proof cases
      case 1
      then show ?thesis
        by (intro exI[of _ "[]"] exI[of _ "Ret (Some (Errorf ''unable to read event stream''
          [Sentinel ErrOffsetOutOfRange]))"] exI[of _ b]) (simp add: unread_def Some)
    next
      case 2
      then show ?thesis
        by (intro exI[of _ "[]"] exI[of _ "Ret None"] exI[of _ b]) (simp add: unread_def Some memory_end_def)
    next
      case 3
      obtain seg where seg: "unread m sid types b = Ret (Inr (Some seg))"
        "truthful (mEnvelopes x) sid types seg" "Begin seg = b" "b < End seg" "End seg \<le> mEnd x"
        using unread_ok[OF wf Some 3] by metis
      obtain x' new where "map_of (mStreams final) sid = Some x'" "mEnvelopes x' = mEnvelopes x @ new"
        "\<forall>env \<in> set new. mEnd x \<le> off env"
        using ext Some unfolding memory_extends_def by meson
      moreover from this(3) seg(5) have "\<And>env. env \<in> set new \<Longrightarrow> End seg \<le> off env"
        by (meson order_trans)
      ultimately have t: "truthful (memory_log final sid) sid types seg"
        using seg(2) by (simp add: truthful_def memory_log_def window_append)
      have "\<exists>segs r e. ?plan ms (End seg) segs r e"
        using Cons.prems by (intro Cons.IH) auto
      then obtain segs r e where IH: "?plan ms (End seg) segs r e" by blast
      then show ?thesis
        using t seg by (intro exI[of _ "seg # segs"] exI[of _ r] exI[of _ e])
          (auto split: prod.splits option.splits)
    qed
  qed
qed

interpretation memory_source: event_source
    "\<lambda>env. Memory_Read (fst env) :: uuid \<Rightarrow> types \<Rightarrow> offset \<Rightarrow> 's callback \<Rightarrow> 's \<Rightarrow> err option go \<times> 's"
    "\<lambda>env. memory_log (snd env)" "\<lambda>env sid. case fst env of [] \<Rightarrow> 0 | m # ms \<Rightarrow> memory_end m sid" memory_ok
proof (unfold_locales, goal_cases)
  case (1 env sid)
  then show ?case by (simp add: memory_ok_def memory_log_wf)
next
  case (2 env types sid b)
  from 2(1) obtain segs r e where plan:
    "\<forall>(fn :: 's callback) s. Memory_Read_loop (fst env) sid types b fn s = run_segments fn segs r s"
    "chain b segs e"
    "\<forall>seg \<in> set segs. truthful (memory_log (snd env) sid) sid types seg \<and> Begin seg < End seg"
    "\<forall>m. r \<noteq> Panic m"
    and last: "r = Ret None \<longrightarrow> (\<exists>m \<in> set (fst env). memory_end m sid = e)"
    using Memory_Read_loop_plan[of "fst env" "snd env" sid types b] unfolding memory_ok_def by blast
  have "r = Ret None \<longrightarrow> (case fst env of [] \<Rightarrow> 0 | m # ms \<Rightarrow> memory_end m sid) \<le> e"
  proof
    assume "r = Ret None"
    then obtain m where m: "m \<in> set (fst env)" "memory_end m sid = e" using last by blast
    then obtain m0 ms where ms: "fst env = m0 # ms" by (cases "fst env") auto
    then have "m0 = m \<or> memory_extends m0 m" using m(1) 2(1) by (auto simp: memory_ok_def)
    then show "(case fst env of [] \<Rightarrow> 0 | m # ms \<Rightarrow> memory_end m sid) \<le> e"
      using m(2) ms by (auto simp: memory_extends_def memory_end_def split: option.splits) fastforce+
  qed
  then show ?case
    using plan 2(2) by (intro exI[of _ segs] exI[of _ r] exI[of _ e]) (simp add: Memory_Read_def)
qed

section \<open>Watching\<close>

text \<open>The segment that one visit delivers of a stream, if any.\<close>

definition pending :: "types \<Rightarrow> uuid \<Rightarrow> memoryStream option \<Rightarrow> offset option \<Rightarrow> segment list" where
  "pending types sid ms delivered = (case ms of None \<Rightarrow> [] | Some x \<Rightarrow>
     (if delivered = Some (mEnd x) then []
      else let b = (case delivered of None \<Rightarrow> mEnd x | Some b \<Rightarrow> b)
           in [\<lparr>StreamID = sid, Begin = b, End = mEnd x, Envelopes = window (mEnvelopes x) types b (mEnd x)\<rparr>]))"

lemma undelivered_ok:
  assumes "distinct (map fst ss)" and "\<And>sid ms. (sid, ms) \<in> set ss \<Longrightarrow> wf_log sid (mEnvelopes ms)"
  shows "\<exists>segs delivered'. undelivered types ss delivered = Ret (segs, delivered')
    \<and> (\<forall>sid. filter (\<lambda>seg. StreamID seg = sid) segs = pending types sid (map_of ss sid) (map_of delivered sid))
    \<and> (\<forall>sid. map_of delivered' sid = (case map_of ss sid of None \<Rightarrow> map_of delivered sid | Some ms \<Rightarrow> Some (mEnd ms)))"
  using assms
proof (induction ss arbitrary: delivered)
  case (Cons x ss)
  obtain k ms where x: "x = (k, ms)" by (cases x)
  have k: "map_of ss k = None" using Cons.prems(1) by (simp add: x map_of_eq_None_iff)
  have seg: "memory_segment k ms types b e
      = Ret \<lparr>StreamID = k, Begin = b, End = e, Envelopes = window (mEnvelopes ms) types b e\<rparr>" for b e
    using Cons.prems(2)[of k ms] by (simp add: x memory_segment_ok)
  have IH: "\<exists>segs delivered'. undelivered types ss delivered = Ret (segs, delivered')
    \<and> (\<forall>sid. filter (\<lambda>seg. StreamID seg = sid) segs = pending types sid (map_of ss sid) (map_of delivered sid))
    \<and> (\<forall>sid. map_of delivered' sid = (case map_of ss sid of None \<Rightarrow> map_of delivered sid | Some ms \<Rightarrow> Some (mEnd ms)))"
    for delivered
    using Cons.prems by (intro Cons.IH) auto
  show ?case
  proof (cases "map_of delivered k = Some (mEnd ms)")
    case True
    with IH[of delivered] k show ?thesis
      by (auto simp: x Let_def pending_def fun_eq_iff)
  next
    case False
    define b where "b = (case map_of delivered k of None \<Rightarrow> mEnd ms | Some b \<Rightarrow> b)"
    obtain segs delivered' where r: "undelivered types ss (AList.update k (mEnd ms) delivered) = Ret (segs, delivered')"
      and f: "\<And>sid. filter (\<lambda>seg. StreamID seg = sid) segs
        = pending types sid (map_of ss sid) (((map_of delivered)(k \<mapsto> mEnd ms)) sid)"
      and d: "\<And>sid. map_of delivered' sid = (case map_of ss sid of
          None \<Rightarrow> ((map_of delivered)(k \<mapsto> mEnd ms)) sid | Some ms \<Rightarrow> Some (mEnd ms))"
      using IH[of "AList.update k (mEnd ms) delivered"] unfolding update_conv' by blast
    let ?seg = "\<lparr>StreamID = k, Begin = b, End = mEnd ms, Envelopes = window (mEnvelopes ms) types b (mEnd ms)\<rparr>"
    have "undelivered types (x # ss) delivered = Ret (?seg # segs, delivered')"
      using False r by (auto simp: x Let_def seg b_def split: option.splits)
    moreover have "filter (\<lambda>seg. StreamID seg = sid) (?seg # segs)
        = pending types sid (map_of (x # ss) sid) (map_of delivered sid)" for sid
      using f[of sid] k False by (cases "sid = k") (simp_all add: x pending_def Let_def b_def)
    moreover have "map_of delivered' sid
        = (case map_of (x # ss) sid of None \<Rightarrow> map_of delivered sid | Some ms \<Rightarrow> Some (mEnd ms))" for sid
      using d[of sid] k by (cases "sid = k"; cases "map_of ss sid") (simp_all add: x)
    ultimately show ?thesis by blast
  qed
qed (simp add: pending_def)

definition visited :: "memory \<Rightarrow> (uuid \<times> offset) list \<Rightarrow> bool" where
  "visited m delivered \<longleftrightarrow>
     (\<forall>sid b. map_of delivered sid = Some b \<longrightarrow> (\<exists>ms. map_of (mStreams m) sid = Some ms \<and> b \<le> mEnd ms))"

lemma visited_extends: "visited m delivered \<Longrightarrow> memory_extends m m' \<Longrightarrow> visited m' delivered"
  unfolding visited_def memory_extends_def by (meson order_trans)

lemma pending_truthful:
  assumes "visited m delivered" and "memory_extends m final" and "seg \<in> set (pending types sid (map_of (mStreams m) sid) (map_of delivered sid))"
  shows "truthful (memory_log final sid) sid types seg"
proof -
  obtain ms where ms: "map_of (mStreams m) sid = Some ms"
    using assms(3) by (cases "map_of (mStreams m) sid") (auto simp: pending_def)
  then have seg: "End seg = mEnd ms" "StreamID seg = sid"
    "Envelopes seg = window (mEnvelopes ms) types (Begin seg) (End seg)"
    and b: "Begin seg = (case map_of delivered sid of None \<Rightarrow> mEnd ms | Some b \<Rightarrow> b)"
    using assms(3) by (auto simp: pending_def Let_def split: if_splits)
  have "Begin seg \<le> End seg"
    using assms(1) ms seg b by (fastforce simp: visited_def split: option.splits)
  moreover obtain ms' new where "map_of (mStreams final) sid = Some ms'" "mEnvelopes ms' = mEnvelopes ms @ new"
    "\<forall>env \<in> set new. mEnd ms \<le> off env"
    using assms(2) ms unfolding memory_extends_def by meson
  ultimately show ?thesis
    using ms seg by (simp add: truthful_def memory_log_def window_append)
qed

lemma Memory_Watch_plan:
  assumes "\<forall>m \<in> set (prev # map fst obs @ [final]). wf_memory m"
    and "sorted_wrt memory_extends (prev # map fst obs @ [final])" and "visited prev delivered"
  shows "\<exists>r segs. (\<forall>acc. Memory_Watch obs types delivered keep acc = (r, acc @ segs)) \<and> (\<forall>m. r \<noteq> Panic m)
    \<and> (\<forall>sid. (\<forall>seg \<in> set (filter (\<lambda>seg. StreamID seg = sid) segs). truthful (memory_log final sid) sid types seg)
        \<and> (\<exists>b e. chain b (filter (\<lambda>seg. StreamID seg = sid) segs) e
            \<and> (\<forall>d. map_of delivered sid = Some d \<longrightarrow> b = d)))"
    (is "\<exists>r segs. ?plan obs delivered r segs")
  using assms
proof (induction obs arbitrary: prev delivered)
  case Nil
  have "\<exists>b. \<forall>d. map_of delivered sid = Some d \<longrightarrow> b = d" for sid by (cases "map_of delivered sid") auto
  then show ?case by (intro exI[of _ Running] exI[of _ "[]"]) simp
next
  case (Cons o' obs)
  obtain m ctxErr where o': "o' = (m, ctxErr)" by (cases o')
  have wf: "wf_memory m" and vis: "visited m delivered" and ext: "memory_extends m final"
    using Cons.prems visited_extends[OF Cons.prems(3), of m] by (auto simp: o')
  obtain segs delivered' where u: "undelivered types (mStreams m) delivered = Ret (segs, delivered')"
    and f: "\<And>sid. filter (\<lambda>seg. StreamID seg = sid) segs
      = pending types sid (map_of (mStreams m) sid) (map_of delivered sid)"
    and d: "\<And>sid. map_of delivered' sid = (case map_of (mStreams m) sid of
        None \<Rightarrow> map_of delivered sid | Some ms \<Rightarrow> Some (mEnd ms))"
    using undelivered_ok[of "mStreams m" types delivered] wf unfolding wf_memory_def by fastforce
  have t: "\<forall>seg \<in> set (filter (\<lambda>seg. StreamID seg = sid) segs). truthful (memory_log final sid) sid types seg" for sid
    unfolding f using pending_truthful[OF vis ext] by blast
  have c: "\<exists>b e. chain b (filter (\<lambda>seg. StreamID seg = sid) segs) e
      \<and> (\<forall>d. map_of delivered sid = Some d \<longrightarrow> b = d) \<and> (\<forall>d. map_of delivered' sid = Some d \<longrightarrow> e = d)" for sid
    unfolding f d by (cases "map_of delivered sid"; cases "map_of (mStreams m) sid") (auto simp: pending_def Let_def)
  show ?case
  proof (cases ctxErr)
    case (Some e)
    have "?plan (o' # obs) delivered (Ret (Some e)) segs" using u t c Some by (auto simp: o') blast
    then show ?thesis by blast
  next
    case None
    have "visited m delivered'"
      using vis unfolding visited_def d by (auto split: option.splits) (metis not_Some_eq option.simps(3))
    with Cons.prems have "\<exists>r segs. ?plan obs delivered' r segs"
      by (intro Cons.IH[of m]) (auto simp: o')
    then obtain r segs' where IH: "?plan obs delivered' r segs'" by blast
    have "\<exists>b e. chain b (filter (\<lambda>seg. StreamID seg = sid) (segs @ segs')) e
        \<and> (\<forall>d. map_of delivered sid = Some d \<longrightarrow> b = d)" for sid
    proof -
      obtain b e where "chain b (filter (\<lambda>seg. StreamID seg = sid) segs) e"
        "\<forall>d. map_of delivered sid = Some d \<longrightarrow> b = d" "\<forall>d. map_of delivered' sid = Some d \<longrightarrow> e = d"
        using c by blast
      moreover obtain b' e' where "chain b' (filter (\<lambda>seg. StreamID seg = sid) segs') e'"
        "\<forall>d. map_of delivered' sid = Some d \<longrightarrow> b' = d"
        using IH by blast
      moreover have "map_of delivered' sid = None \<Longrightarrow> filter (\<lambda>seg. StreamID seg = sid) segs = [] \<and> map_of delivered sid = None"
        unfolding f d by (auto simp: pending_def split: option.splits)
      ultimately show ?thesis
        by (cases "map_of delivered' sid") (auto simp: chain_append)
    qed
    then have "?plan (o' # obs) delivered r (segs @ segs')" using IH u t None by (auto simp: o')
    then show ?thesis by blast
  qed
qed

section \<open>Properties of the in-memory source\<close>



end
