(* ===== verification/Remote.thy ===== *)
theory Remote
  imports Streams "HOL-Library.AList"
begin

text \<open>
  The source of a remote application's streams (\<open>internal/eventstream/source/remote.go\<close>),
  which checks every segment it receives before it delivers it.

  The multi-envelopes that travel over the wire belong to \<open>envelopepb\<close>; their operations
  are the fields of \<open>multi_api\<close>.  \<open>status.Code\<close> of gRPC and \<open>uuidpb.UUID.Validate\<close> are
  parameters too.  A call is driven by what its gRPC stream receives, and is still
  \<open>Running\<close> when that runs out.
\<close>

section \<open>Segments on the wire\<close>

record 'm multi_api =
  AsMultiEnvelope :: "envelope \<Rightarrow> 'm"
  TryAppendEnvelope :: "'m \<Rightarrow> envelope \<Rightarrow> 'm option"
  All :: "'m \<Rightarrow> envelope list"
  MultiValidate :: "'m \<Rightarrow> err option"

record 'm EventStreamSegment =
  EventStreamId :: uuid
  BeginOffset :: offset
  EndOffset :: offset
  MultiEnvelopes :: "'m list"

definition invalidSegment :: "err \<Rightarrow> err" where
  "invalidSegment reason = Errorf ''invalid segment'' [Sentinel ErrInvalidSegment, reason]"

section \<open>Checking a segment\<close>

text \<open>The events of one multi-envelope; \<open>next\<close> is the lowest offset that the next event may have.\<close>

fun parse_events :: "types \<Rightarrow> segment \<Rightarrow> offset \<Rightarrow> envelope list \<Rightarrow> err + segment \<times> offset" where
  "parse_events types seg next [] = Inr (seg, next)"
| "parse_events types seg next (env # envs) = (case Position (Body env) of
     Malformed e \<Rightarrow> Inl (invalidSegment (Errorf ''event has an invalid event stream position'' [e]))
   | Absent \<Rightarrow> Inl (invalidSegment (New ''event has no event stream position''))
   | Present pos \<Rightarrow>
       if StreamId pos \<noteq> StreamID seg then
         Inl (invalidSegment (New ''event is from another event stream''))
       else if Offset pos < Begin seg then
         Inl (invalidSegment (New ''event is before the segment begins''))
       else if Offset pos \<ge> End seg then
         Inl (invalidSegment (New ''event is at or beyond the end of the segment''))
       else if Offset pos < next then
         Inl (invalidSegment (New ''event does not follow the previous event''))
       else if \<not> wants types env then
         Inl (invalidSegment (New ''event is of a type which was not requested''))
       else parse_events types (seg\<lparr>Envelopes := Envelopes seg @ [env]\<rparr>) (Offset pos + 1) envs)"

fun parse_multis :: "'m multi_api \<Rightarrow> types \<Rightarrow> segment \<Rightarrow> offset \<Rightarrow> 'm list \<Rightarrow> err + segment" where
  "parse_multis api types seg next [] = Inr seg"
| "parse_multis api types seg next (multi # multis) = (case MultiValidate api multi of
     Some e \<Rightarrow> Inl (invalidSegment (Errorf ''invalid envelope'' [e]))
   | None \<Rightarrow> (case parse_events types seg next (All api multi) of
       Inl e \<Rightarrow> Inl e
     | Inr (seg', next') \<Rightarrow> parse_multis api types seg' next' multis))"

definition parseSegment :: "'m multi_api \<Rightarrow> (uuid \<Rightarrow> err option) \<Rightarrow> types \<Rightarrow> 'm EventStreamSegment \<Rightarrow> err + segment" where
  "parseSegment api Validate types res =
     (let seg = \<lparr>StreamID = EventStreamId res, Begin = BeginOffset res, End = EndOffset res, Envelopes = []\<rparr>
      in case Validate (StreamID seg) of
        Some e \<Rightarrow> Inl (invalidSegment (Errorf ''invalid event stream ID'' [e]))
      | None \<Rightarrow>
          if End seg < Begin seg then Inl (invalidSegment (New ''it ends before it begins''))
          else parse_multis api types seg (Begin seg) (MultiEnvelopes res))"

section \<open>Errors of the remote engine\<close>

definition watchError :: "(err \<Rightarrow> grpc_code) \<Rightarrow> err option \<Rightarrow> err \<Rightarrow> err" where
  "watchError Code ctxErr e = (case ctxErr of
     Some c \<Rightarrow> c
   | None \<Rightarrow>
       if e = Sentinel EOF then New ''remote engine stopped watching events''
       else (case Code e of
         Aborted \<Rightarrow> Errorf ''unable to watch events'' [e, Sentinel ErrConsumerTooSlow]
       | Unimplemented \<Rightarrow> Errorf ''unable to watch events'' [e, Sentinel ErrUnsupported]
       | _ \<Rightarrow> Errorf ''unable to watch events'' [e]))"

definition readError :: "(err \<Rightarrow> grpc_code) \<Rightarrow> err option \<Rightarrow> err \<Rightarrow> err" where
  "readError Code ctxErr e = (case ctxErr of
     Some c \<Rightarrow> c
   | None \<Rightarrow> (case Code e of
       NotFound \<Rightarrow> Errorf ''unable to read event stream'' [e, Sentinel ErrUnrecognizedStream]
     | OutOfRange \<Rightarrow> Errorf ''unable to read event stream'' [e, Sentinel ErrOffsetOutOfRange]
     | _ \<Rightarrow> Errorf ''unable to read event stream'' [e]))"

text \<open>The filter of a request: every type, or specific ones.\<close>

datatype MessageFilter = FilterAll | FilterSpecific "uuid list"

definition messageFilter :: "types \<Rightarrow> MessageFilter" where
  "messageFilter types = (case types of
     None \<Rightarrow> FilterAll | Some ids \<Rightarrow> FilterSpecific (sorted_list_of_set ids))"

section \<open>Calls\<close>

text \<open>
  What a client is given of the world: the codecs, whether the call could be opened, and
  one received value per call to \<open>Recv\<close>, each with the context's error at that moment.
\<close>

record 'm remote_env =
  Api :: "'m multi_api"
  ValidateID :: "uuid \<Rightarrow> err option"
  Code :: "err \<Rightarrow> grpc_code"
  Opened :: "err option"
  OpenCtx :: "err option"
  Recv :: "((err + 'm EventStreamSegment) \<times> err option) list"

fun Remote_Read_loop :: "'m remote_env \<Rightarrow> uuid \<Rightarrow> types \<Rightarrow> ((err + 'm EventStreamSegment) \<times> err option) list
    \<Rightarrow> bool \<Rightarrow> offset \<Rightarrow> 's callback \<Rightarrow> 's \<Rightarrow> err option go \<times> 's" where
  "Remote_Read_loop env streamID types [] first begin fn s = (Running, s)"
| "Remote_Read_loop env streamID types ((Inl e, ctxErr) # recv) first begin fn s =
     (if e = Sentinel EOF then (Ret None, s) else (Ret (Some (readError (Code env) ctxErr e)), s))"
| "Remote_Read_loop env streamID types ((Inr res, ctxErr) # recv) first begin fn s =
     (case parseSegment (Api env) (ValidateID env) types res of
        Inl e \<Rightarrow> (Ret (Some e), s)
      | Inr seg \<Rightarrow>
          if StreamID seg \<noteq> streamID then
            (Ret (Some (invalidSegment (New ''it is not a segment of the event stream which was requested''))), s)
          else if Begin seg \<noteq> begin then
            (Ret (Some (invalidSegment (Errorf ''it does not begin at offset''
               [New (if first then ''which was requested'' else ''where the previous segment ended'')]))), s)
          else (case fn seg s of
             (Some e, s') \<Rightarrow> (Ret (Some e), s')
           | (None, s') \<Rightarrow> Remote_Read_loop env streamID types recv False (End seg) fn s'))"

definition Remote_Read :: "'m remote_env \<Rightarrow> uuid \<Rightarrow> types \<Rightarrow> offset \<Rightarrow> 's callback \<Rightarrow> 's \<Rightarrow> err option go \<times> 's" where
  "Remote_Read env streamID types begin fn s = (case panicIfEmpty types of
     Panic m \<Rightarrow> (Panic m, s)
   | Running \<Rightarrow> (Running, s)
   | Ret _ \<Rightarrow> (case Opened env of
       Some e \<Rightarrow> (Ret (Some (readError (Code env) (OpenCtx env) e)), s)
     | None \<Rightarrow> Remote_Read_loop env streamID types (Recv env) True begin fn s))"

fun Remote_Watch_loop :: "'m remote_env \<Rightarrow> types \<Rightarrow> ((err + 'm EventStreamSegment) \<times> err option) list
    \<Rightarrow> (uuid \<times> offset) list \<Rightarrow> 's callback \<Rightarrow> 's \<Rightarrow> err option go \<times> 's" where
  "Remote_Watch_loop env types [] ends fn s = (Running, s)"
| "Remote_Watch_loop env types ((Inl e, ctxErr) # recv) ends fn s =
     (Ret (Some (watchError (Code env) ctxErr e)), s)"
| "Remote_Watch_loop env types ((Inr res, ctxErr) # recv) ends fn s =
     (case parseSegment (Api env) (ValidateID env) types res of
        Inl e \<Rightarrow> (Ret (Some e), s)
      | Inr seg \<Rightarrow>
          if map_of ends (StreamID seg) \<noteq> None \<and> map_of ends (StreamID seg) \<noteq> Some (Begin seg) then
            (Ret (Some (invalidSegment (New ''it does not begin where the previous segment ended''))), s)
          else (case fn seg s of
             (Some e, s') \<Rightarrow> (Ret (Some e), s')
           | (None, s') \<Rightarrow>
               Remote_Watch_loop env types recv (AList.update (StreamID seg) (End seg) ends) fn s'))"

definition Remote_Watch :: "'m remote_env \<Rightarrow> types \<Rightarrow> 's callback \<Rightarrow> 's \<Rightarrow> err option go \<times> 's" where
  "Remote_Watch env types fn s = (case panicIfEmpty types of
     Panic m \<Rightarrow> (Panic m, s)
   | Running \<Rightarrow> (Running, s)
   | Ret _ \<Rightarrow> (case Opened env of
       Some e \<Rightarrow> (Ret (Some (watchError (Code env) (OpenCtx env) e)), s)
     | None \<Rightarrow> Remote_Watch_loop env types (Recv env) [] fn s))"

section \<open>What a checked segment guarantees\<close>

text \<open>
  A sound segment: its events are positioned on its stream, within its bounds, at strictly
  increasing offsets, and of the requested types.
\<close>

definition sound_segment :: "types \<Rightarrow> segment \<Rightarrow> bool" where
  "sound_segment types seg \<longleftrightarrow> Begin seg \<le> End seg \<and> wf_log (StreamID seg) (Envelopes seg)
     \<and> (\<forall>env \<in> set (Envelopes seg). Begin seg \<le> off env \<and> off env < End seg \<and> wants types env)"

text \<open>
  \<open>parse_events\<close> accepts exactly the events that may follow; \<open>next\<close> does not wrap, as every
  offset is below the end of the segment.
\<close>

fun may_follow :: "types \<Rightarrow> segment \<Rightarrow> offset \<Rightarrow> envelope list \<Rightarrow> bool" where
  "may_follow types seg next [] \<longleftrightarrow> True"
| "may_follow types seg next (env # envs) \<longleftrightarrow> positioned (StreamID seg) env \<and> Begin seg \<le> off env
     \<and> off env < End seg \<and> next \<le> off env \<and> wants types env \<and> may_follow types seg (off env + 1) envs"

lemma may_follow_frame [simp]: "may_follow types (seg\<lparr>Envelopes := xs\<rparr>) n envs = may_follow types seg n envs"
  by (induction envs arbitrary: n) auto

lemma parse_events_ok:
  "may_follow types seg next envs \<Longrightarrow> parse_events types seg next envs =
     Inr (seg\<lparr>Envelopes := Envelopes seg @ envs\<rparr>, if envs = [] then next else off (last envs) + 1)"
proof (induction envs arbitrary: seg "next")
  case (Cons env envs)
  then have "Position (Body env) = Present \<lparr>StreamId = StreamID seg, Offset = off env\<rparr>"
    by (auto simp: positioned_def off_def split: extension.splits)
  then show ?case
    using Cons.prems Cons.IH[of "seg\<lparr>Envelopes := Envelopes seg @ [env]\<rparr>" "off env + 1"] by auto
qed simp

lemma parse_events_reject:
  "\<not> may_follow types seg next envs \<Longrightarrow> \<exists>e. parse_events types seg next envs = Inl (invalidSegment e)"
proof (induction envs arbitrary: seg "next")
  case (Cons env envs)
  show ?case
  proof (cases "Position (Body env)")
    case (Present pos)
    then show ?thesis
      using Cons.prems Cons.IH[of "seg\<lparr>Envelopes := Envelopes seg @ [env]\<rparr>" "Offset pos + 1"]
      by (auto simp: positioned_def off_def)
  qed auto
qed simp

lemma may_follow_append:
  "may_follow types seg next (xs @ ys) \<longleftrightarrow> may_follow types seg next xs
     \<and> may_follow types seg (if xs = [] then next else off (last xs) + 1) ys"
  by (induction xs arbitrary: "next") auto

lemma may_follow_sound:
  "may_follow types seg next envs \<longleftrightarrow> wf_log (StreamID seg) envs
     \<and> (\<forall>env \<in> set envs. Begin seg \<le> off env \<and> off env < End seg \<and> wants types env \<and> next \<le> off env)"
proof (induction envs arbitrary: "next")
  case (Cons env envs)
  have "off env < End seg \<Longrightarrow> off env + 1 \<le> off x \<longleftrightarrow> off env < off x" for x
    by (rule offset_Suc_le_iff)
  moreover have "next \<le> off env \<Longrightarrow> off env < off x \<Longrightarrow> next \<le> off x" for x by simp
  ultimately show ?case by (auto simp: Cons.IH wf_log_def)
qed (simp add: wf_log_def)

lemma parse_multis_ok:
  assumes "\<And>m. m \<in> set multis \<Longrightarrow> MultiValidate api m = None"
    and "may_follow types seg next (concat (map (All api) multis))"
  shows "parse_multis api types seg next multis
    = Inr (seg\<lparr>Envelopes := Envelopes seg @ concat (map (All api) multis)\<rparr>)"
  using assms
proof (induction multis arbitrary: seg "next")
  case (Cons m multis)
  then show ?case by (auto simp: may_follow_append parse_events_ok)
qed simp

lemma parse_multis_Inr:
  assumes "parse_multis api types seg next multis = Inr seg'"
  shows "may_follow types seg next (concat (map (All api) multis))
    \<and> (\<forall>m \<in> set multis. MultiValidate api m = None)"
  using assms
proof (induction multis arbitrary: seg "next")
  case (Cons m multis)
  have v: "MultiValidate api m = None" using Cons.prems by (cases "MultiValidate api m") auto
  have f: "may_follow types seg next (All api m)"
  proof (rule ccontr)
    assume "\<not> may_follow types seg next (All api m)"
    from parse_events_reject[OF this] Cons.prems v show False by auto
  qed
  from Cons.prems v have "parse_multis api types (seg\<lparr>Envelopes := Envelopes seg @ All api m\<rparr>)
      (if All api m = [] then next else off (last (All api m)) + 1) multis = Inr seg'"
    by (simp add: parse_events_ok[OF f])
  from Cons.IH[OF this] v f show ?case by (auto simp: may_follow_append)
qed simp

lemma parse_multis_Inl:
  "parse_multis api types seg next multis = Inl e \<Longrightarrow> errors_Is e ErrInvalidSegment"
proof (induction multis arbitrary: seg "next")
  case (Cons m multis)
  show ?case
  proof (cases "may_follow types seg next (All api m)")
    case True
    then show ?thesis
      using Cons by (auto simp: parse_events_ok invalidSegment_def split: option.splits)
  next
    case False
    then show ?thesis
      using Cons.prems parse_events_reject[OF False] by (auto simp: invalidSegment_def split: option.splits)
  qed
qed simp

text \<open>\<open>parseSegment\<close> accepts a message exactly if it is valid and its events are sound.\<close>

definition wire_segment :: "'m multi_api \<Rightarrow> 'm EventStreamSegment \<Rightarrow> segment" where
  "wire_segment api res = \<lparr>StreamID = EventStreamId res, Begin = BeginOffset res, End = EndOffset res,
     Envelopes = concat (map (All api) (MultiEnvelopes res))\<rparr>"

lemma parseSegment_iff:
  "parseSegment api Validate types res = Inr seg \<longleftrightarrow> seg = wire_segment api res
     \<and> Validate (EventStreamId res) = None \<and> (\<forall>m \<in> set (MultiEnvelopes res). MultiValidate api m = None)
     \<and> sound_segment types (wire_segment api res)"
proof -
  let ?seg = "\<lparr>StreamID = EventStreamId res, Begin = BeginOffset res, End = EndOffset res, Envelopes = []\<rparr>"
  let ?envs = "concat (map (All api) (MultiEnvelopes res))"
  have sound: "may_follow types ?seg (BeginOffset res) ?envs \<and> BeginOffset res \<le> EndOffset res
      \<longleftrightarrow> sound_segment types (wire_segment api res)"
    by (auto simp: may_follow_sound sound_segment_def wire_segment_def)
  show ?thesis
    using sound parse_multis_ok[of "MultiEnvelopes res" api types ?seg "BeginOffset res"]
      parse_multis_Inr[of api types ?seg "BeginOffset res" "MultiEnvelopes res" seg]
    by (auto simp: parseSegment_def Let_def not_less wire_segment_def split: option.splits)
qed

lemma parseSegment_Inl: "parseSegment api Validate types res = Inl e \<Longrightarrow> errors_Is e ErrInvalidSegment"
  by (auto simp: parseSegment_def Let_def invalidSegment_def parse_multis_Inl split: option.splits if_splits)

section \<open>Properties of the remote source\<close>

text \<open>A multi-envelope codec for examples: a multi-envelope is the list of its envelopes.\<close>

definition list_api :: "envelope list multi_api" where
  "list_api = \<lparr>AsMultiEnvelope = (\<lambda>env. [env]),
     TryAppendEnvelope = (\<lambda>m env. if map Header (take 1 m) = [Header env] then Some (m @ [env]) else None),
     All = (\<lambda>m. m), MultiValidate = (\<lambda>m. if m = [] then Some (New ''empty'') else None)\<rparr>"

definition sample_remote :: "((err + envelope list EventStreamSegment) \<times> err option) list \<Rightarrow> envelope list remote_env" where
  "sample_remote recv = \<lparr>Api = list_api, ValidateID = (\<lambda>sid. None),
     Code = (\<lambda>e. case e of Status c m \<Rightarrow> c | _ \<Rightarrow> OtherCode 2), Opened = None, OpenCtx = None, Recv = recv\<rparr>"

text \<open>
  C18. \<open>parseSegment\<close> accepts exactly the sound segments: it succeeds if and only if the
  stream ID and every multi-envelope are valid, the range is not inverted, and the events
  are positioned on that stream, inside the range, at strictly increasing offsets, and of
  the requested types; it then returns them all.  Every rejection wraps
  \<open>ErrInvalidSegment\<close>.
\<close>

theorem parseSegment_exact:
  "(parseSegment api Validate types res = Inr seg \<longleftrightarrow>
      Validate (EventStreamId res) = None \<and> (\<forall>m \<in> set (MultiEnvelopes res). MultiValidate api m = None)
      \<and> seg = wire_segment api res \<and> sound_segment types seg)
    \<and> (\<forall>e. parseSegment api Validate types res = Inl e \<longrightarrow> errors_Is e ErrInvalidSegment)"
  using parseSegment_iff[of api Validate types res seg] parseSegment_Inl[of api Validate types res]
  by blast

theorem parseSegment_exact_witness:
  "errors_Is (projl (parseSegment list_api (\<lambda>sid. None) None
     \<lparr>EventStreamId = UUID 0 1, BeginOffset = 0, EndOffset = 5,
      MultiEnvelopes = [[event_at (UUID 0 1) (UUID 0 2) 3, event_at (UUID 0 1) (UUID 0 2) 3]]\<rparr>)) ErrInvalidSegment"
proof -
  let ?res = "\<lparr>EventStreamId = UUID 0 1, BeginOffset = 0, EndOffset = 5,
      MultiEnvelopes = [[event_at (UUID 0 1) (UUID 0 2) 3, event_at (UUID 0 1) (UUID 0 2) 3]]\<rparr>"
  have "isl (parseSegment list_api (\<lambda>sid. None) None ?res)" by code_simp
  then obtain e where "parseSegment list_api (\<lambda>sid. None) None ?res = Inl e" by (auto simp: isl_def)
  then show ?thesis using parseSegment_exact[of list_api "\<lambda>sid. None" None ?res] by simp
qed

lemma Remote_Read_loop_keep:
  "\<exists>segs r e. (\<forall>acc. Remote_Read_loop env sid types recv first b keep acc = (r, acc @ segs)) \<and> chain b segs e
    \<and> (\<forall>seg \<in> set segs. StreamID seg = sid \<and> sound_segment types seg)
    \<and> (\<forall>m. r \<noteq> Panic m) \<and> (r = Ret None \<longrightarrow> (\<exists>ctxErr. (Inl (Sentinel EOF), ctxErr) \<in> set recv))"
    (is "\<exists>segs r e. ?plan recv first b segs r e")
proof (induction recv arbitrary: first b)
  case Nil
  show ?case by (intro exI[of _ "[]"] exI[of _ Running] exI[of _ b]) simp
next
  case (Cons x recv)
  obtain y ctxErr where x: "x = (y, ctxErr)" by (cases x)
  have stop: "\<exists>segs r e. ?plan (x # recv) first b segs r e"
    if "\<And>acc. Remote_Read_loop env sid types (x # recv) first b keep acc = (Ret (Some err), acc)" for err
    using that by (intro exI[of _ "[]"] exI[of _ "Ret (Some err)"] exI[of _ b]) simp
  show ?case
  proof (cases y)
    case (Inl e)
    show ?thesis
    proof (cases "e = Sentinel EOF")
      case True
      then show ?thesis
        by (intro exI[of _ "[]"] exI[of _ "Ret None"] exI[of _ b]) (auto simp: x Inl)
    qed (rule stop, simp add: x Inl)
  next
    case (Inr res)
    show ?thesis
    proof (cases "parseSegment (Api env) (ValidateID env) types res")
      case (Inl e)
      then show ?thesis by (intro stop) (simp add: x Inr)
    next
      case seg: (Inr seg)
      then have sound: "sound_segment types seg" by (simp add: parseSegment_iff)
      show ?thesis
      proof (cases "StreamID seg = sid \<and> Begin seg = b")
        case False
        then show ?thesis
          by (cases "StreamID seg = sid") (rule stop, simp add: x Inr seg)+
      next
        case True
        obtain segs r e where "?plan recv False (End seg) segs r e" using Cons.IH[of False "End seg"] by blast
        then have "?plan (x # recv) first b (seg # segs) r e"
          using True sound by (auto simp: x Inr seg keep_def)
        then show ?thesis by blast
      qed
    qed
  qed
qed

text \<open>
  C19. Whatever a remote engine sends, however malformed, the segments that \<open>Remote.Read\<close>
  passes on are sound segments of the requested stream that join up from the requested
  offset.  It returns nil only once the remote engine has ended the stream, and it never
  panics unless the set of types is empty.
\<close>

theorem Remote_Read_contiguous:
  assumes "types \<noteq> Some {}" and "Remote_Read env sid types b keep [] = (r, segs)"
  shows "(\<exists>e. chain b segs e) \<and> (\<forall>seg \<in> set segs. StreamID seg = sid \<and> sound_segment types seg)
    \<and> (\<forall>m. r \<noteq> Panic m) \<and> (r = Ret None \<longrightarrow> (\<exists>ctxErr. (Inl (Sentinel EOF), ctxErr) \<in> set (Recv env)))"
proof (cases "Opened env")
  case None
  obtain segs' r' e where "\<forall>acc. Remote_Read_loop env sid types (Recv env) True b keep acc = (r', acc @ segs')"
    and rest: "chain b segs' e" "\<forall>seg \<in> set segs'. StreamID seg = sid \<and> sound_segment types seg"
    "\<forall>m. r' \<noteq> Panic m" "r' = Ret None \<longrightarrow> (\<exists>ctxErr. (Inl (Sentinel EOF), ctxErr) \<in> set (Recv env))"
    using Remote_Read_loop_keep by blast
  then have "r' = r" "segs' = segs" using assms None by (auto simp: Remote_Read_def)
  then show ?thesis using rest by blast
qed (use assms in \<open>auto simp: Remote_Read_def\<close>)

theorem Remote_Read_contiguous_witness:
  "\<exists>e. chain 3 [\<lparr>StreamID = UUID 0 1, Begin = 3, End = 5, Envelopes = [event_at (UUID 0 1) (UUID 0 2) 3]\<rparr>] e"
proof -
  let ?env = "sample_remote [(Inr \<lparr>EventStreamId = UUID 0 1, BeginOffset = 3, EndOffset = 5,
      MultiEnvelopes = [[event_at (UUID 0 1) (UUID 0 2) 3]]\<rparr>, None),
      (Inr \<lparr>EventStreamId = UUID 0 1, BeginOffset = 6, EndOffset = 7, MultiEnvelopes = []\<rparr>, None)]"
  have "Remote_Read ?env (UUID 0 1) None 3 keep [] = (fst (Remote_Read ?env (UUID 0 1) None 3 keep []),
      [\<lparr>StreamID = UUID 0 1, Begin = 3, End = 5, Envelopes = [event_at (UUID 0 1) (UUID 0 2) 3]\<rparr>])"
    by code_simp
  from Remote_Read_contiguous[OF _ this] show ?thesis by blast
qed

lemma Remote_Watch_loop_keep:
  "\<exists>segs r. (\<forall>acc. Remote_Watch_loop env types recv ends keep acc = (r, acc @ segs))
    \<and> (\<forall>seg \<in> set segs. sound_segment types seg) \<and> (\<forall>m. r \<noteq> Panic m) \<and> r \<noteq> Ret None
    \<and> (\<forall>sid. \<exists>b e. chain b (filter (\<lambda>seg. StreamID seg = sid) segs) e
         \<and> (\<forall>d. map_of ends sid = Some d \<longrightarrow> b = d))"
    (is "\<exists>segs r. ?plan recv ends segs r")
proof (induction recv arbitrary: ends)
  case Nil
  have "\<exists>b. \<forall>d. map_of ends sid = Some d \<longrightarrow> b = d" for sid by (cases "map_of ends sid") auto
  then show ?case by (intro exI[of _ "[]"] exI[of _ Running]) simp
next
  case (Cons x recv)
  obtain y ctxErr where x: "x = (y, ctxErr)" by (cases x)
  have stop: "\<exists>segs r. ?plan (x # recv) ends segs r"
    if "\<And>acc. Remote_Watch_loop env types (x # recv) ends keep acc = (Ret (Some err), acc)" for err
  proof -
    have "\<exists>b. \<forall>d. map_of ends sid = Some d \<longrightarrow> b = d" for sid by (cases "map_of ends sid") auto
    then show ?thesis using that by (intro exI[of _ "[]"] exI[of _ "Ret (Some err)"]) simp
  qed
  show ?case
  proof (cases y)
    case (Inl e)
    show ?thesis by (rule stop) (simp add: x Inl)
  next
    case (Inr res)
    show ?thesis
    proof (cases "parseSegment (Api env) (ValidateID env) types res")
      case (Inl e)
      then show ?thesis by (intro stop) (simp add: x Inr)
    next
      case seg: (Inr seg)
      show ?thesis
      proof (cases "map_of ends (StreamID seg) \<noteq> None \<and> map_of ends (StreamID seg) \<noteq> Some (Begin seg)")
        case True
        then show ?thesis by (intro stop) (simp add: x Inr seg)
      next
        case False
        let ?ends = "AList.update (StreamID seg) (End seg) ends"
        obtain segs r where IH: "?plan recv ?ends segs r" using Cons.IH[of ?ends] by blast
        have "\<exists>b e. chain b (filter (\<lambda>s. StreamID s = sid) (seg # segs)) e
            \<and> (\<forall>d. map_of ends sid = Some d \<longrightarrow> b = d)" for sid
        proof -
          obtain b e where c: "chain b (filter (\<lambda>s. StreamID s = sid) segs) e"
            "\<forall>d. map_of ?ends sid = Some d \<longrightarrow> b = d" using IH by blast
          show ?thesis
          proof (cases "sid = StreamID seg")
            case True
            then show ?thesis using c False
              by (intro exI[of _ "Begin seg"] exI[of _ e]) (auto simp: update_conv')
          next
            case False
            then show ?thesis using c by (intro exI[of _ b] exI[of _ e]) (auto simp: update_conv')
          qed
        qed
        moreover have "sound_segment types seg" using seg by (simp add: parseSegment_iff)
        ultimately have "?plan (x # recv) ends (seg # segs) r"
          using IH False by (auto simp: x Inr seg keep_def)
        then show ?thesis by blast
      qed
    qed
  qed
qed

text \<open>
  C20. Whatever a remote engine sends, the segments that \<open>Remote.Watch\<close> passes on are sound,
  and those of one stream join up.  It never returns nil: the remote engine ending the watch
  is a failure, and it never panics unless the set of types is empty.
\<close>

theorem Remote_Watch_contiguous:
  assumes "types \<noteq> Some {}" and "Remote_Watch env types keep [] = (r, segs)"
  shows "(\<forall>seg \<in> set segs. sound_segment types seg) \<and> (\<forall>m. r \<noteq> Panic m) \<and> r \<noteq> Ret None
    \<and> (\<exists>b e. chain b (filter (\<lambda>seg. StreamID seg = sid) segs) e)"
proof (cases "Opened env")
  case None
  obtain segs' r' where "\<forall>acc. Remote_Watch_loop env types (Recv env) [] keep acc = (r', acc @ segs')"
    and rest: "\<forall>seg \<in> set segs'. sound_segment types seg" "\<forall>m. r' \<noteq> Panic m" "r' \<noteq> Ret None"
    "\<forall>sid. \<exists>b e. chain b (filter (\<lambda>seg. StreamID seg = sid) segs') e \<and> (\<forall>d. map_of [] sid = Some d \<longrightarrow> b = d)"
    using Remote_Watch_loop_keep[of env types "Recv env" "[]"] by meson
  then have "r' = r" "segs' = segs" using assms None by (auto simp: Remote_Watch_def)
  then show ?thesis using rest by blast
qed (use assms in \<open>auto simp: Remote_Watch_def\<close>)

theorem Remote_Watch_contiguous_witness:
  "\<exists>b e. chain b [\<lparr>StreamID = UUID 0 1, Begin = 3, End = 5, Envelopes = [event_at (UUID 0 1) (UUID 0 2) 3]\<rparr>] e"
proof -
  let ?env = "sample_remote [(Inr \<lparr>EventStreamId = UUID 0 1, BeginOffset = 3, EndOffset = 5,
      MultiEnvelopes = [[event_at (UUID 0 1) (UUID 0 2) 3]]\<rparr>, None),
      (Inr \<lparr>EventStreamId = UUID 0 1, BeginOffset = 6, EndOffset = 7, MultiEnvelopes = []\<rparr>, None)]"
  have run: "Remote_Watch ?env None keep [] = (fst (Remote_Watch ?env None keep []),
      [\<lparr>StreamID = UUID 0 1, Begin = 3, End = 5, Envelopes = [event_at (UUID 0 1) (UUID 0 2) 3]\<rparr>])"
    by code_simp
  from Remote_Watch_contiguous[OF _ run, of "UUID 0 1"] show ?thesis by simp
qed

end
