(* ===== verification/Server.thy ===== *)
theory Server
  imports Remote Local
begin

text \<open>
  The service through which remote engines consume this application's streams
  (\<open>internal/eventstream/source/server.go\<close>), and a client and a server put together: what
  \<open>Remote.Read\<close> delivers of a stream that a \<open>Server\<close> reads from a source.

  Segments are split so that each part is at most \<open>MaxSegmentBytes\<close> large.  The sizes of
  protocol buffers messages, the multi-envelope operations and the validation of requests
  are parameters.
\<close>

section \<open>Splitting segments\<close>

record 'm server =
  sApi :: "'m multi_api"
  SizeHeader :: "header \<Rightarrow> int"
  SizeBody :: "body \<Rightarrow> int"
  MaxSegmentBytes :: int

text \<open>
  The second half of the loop body: the event joins the current multi-envelope, which is the
  part's last and is modified in place, or begins a new one.
\<close>

definition add_event :: "'m server \<Rightarrow> 'm EventStreamSegment \<Rightarrow> 'm option \<Rightarrow> int \<Rightarrow> envelope
    \<Rightarrow> 'm EventStreamSegment \<times> 'm option \<times> int" where
  "add_event sv part multi size' env =
     (case (case multi of None \<Rightarrow> None | Some m \<Rightarrow> TryAppendEnvelope (sApi sv) m env) of
        Some m' \<Rightarrow> (part\<lparr>MultiEnvelopes := butlast (MultiEnvelopes part) @ [m']\<rparr>, Some m',
          size' + SizeBody sv (Body env))
      | None \<Rightarrow> let m' = AsMultiEnvelope (sApi sv) env
          in (part\<lparr>MultiEnvelopes := MultiEnvelopes part @ [m']\<rparr>, Some m',
            size' + SizeHeader sv (Header env) + SizeBody sv (Body env)))"

definition new_part :: "uuid \<Rightarrow> offset \<Rightarrow> 'm EventStreamSegment" where
  "new_part sid b = \<lparr>EventStreamId = sid, BeginOffset = b, EndOffset = 0, MultiEnvelopes = []\<rparr>"

text \<open>The parts that are yielded in the loop, and the part that is left when it ends.\<close>

fun split_loop :: "'m server \<Rightarrow> uuid \<Rightarrow> 'm EventStreamSegment \<Rightarrow> 'm option \<Rightarrow> int \<Rightarrow> envelope list
    \<Rightarrow> 'm EventStreamSegment list \<times> 'm EventStreamSegment go" where
  "split_loop sv sid part multi size' [] = ([], Ret part)"
| "split_loop sv sid part multi size' (env # envs) =
     (if size' > 0 \<and> size' + SizeHeader sv (Header env) + SizeBody sv (Body env) > MaxSegmentBytes sv then
        (case offsetOf env of
           Panic m \<Rightarrow> ([], Panic m)
         | Running \<Rightarrow> ([], Running)
         | Ret offset \<Rightarrow>
             (case add_event sv (new_part sid offset) None 0 env of
                (part', multi', size'') \<Rightarrow>
                  (case split_loop sv sid part' multi' size'' envs of
                     (parts, r) \<Rightarrow> (part\<lparr>EndOffset := offset\<rparr> # parts, r))))
      else
        (case add_event sv part multi size' env of
           (part', multi', size'') \<Rightarrow> split_loop sv sid part' multi' size'' envs))"

definition splitSegment :: "'m server \<Rightarrow> segment \<Rightarrow> 'm EventStreamSegment list \<times> unit go" where
  "splitSegment sv seg =
     (case split_loop sv (StreamID seg) (new_part (StreamID seg) (Begin seg)) None 0 (Envelopes seg) of
        (parts, Ret part) \<Rightarrow> (parts @ [part\<lparr>EndOffset := End seg\<rparr>], Ret ())
      | (parts, Panic m) \<Rightarrow> (parts, Panic m)
      | (parts, Running) \<Rightarrow> (parts, Running))"

section \<open>Serving requests\<close>

text \<open>
  Sending to a client changes a state of the transport; iteration stops at the first part
  that can not be sent.
\<close>

fun send_parts :: "('m EventStreamSegment \<Rightarrow> 't \<Rightarrow> err option \<times> 't) \<Rightarrow> 'm EventStreamSegment list
    \<Rightarrow> unit go \<Rightarrow> 't \<Rightarrow> err option go \<times> 't" where
  "send_parts send [] r t = (go_bind r (\<lambda>_. Ret None), t)"
| "send_parts send (part # parts) r t = (case send part t of
     (Some e, t') \<Rightarrow> (Ret (Some (Errorf ''unable to send segment'' [e])), t')
   | (None, t') \<Rightarrow> send_parts send parts r t')"

definition splitAndSendSegment :: "'m server \<Rightarrow> ('m EventStreamSegment \<Rightarrow> 't \<Rightarrow> err option \<times> 't)
    \<Rightarrow> segment \<Rightarrow> 't \<Rightarrow> err option go \<times> 't" where
  "splitAndSendSegment sv send seg t = (case splitSegment sv seg of (parts, r) \<Rightarrow> send_parts send parts r t)"

text \<open>
  The callback that is given to the source.  A panic unwinds through the source: it ends the
  read, and \<open>unwound\<close> raises it again in the caller.
\<close>

definition sending :: "'m server \<Rightarrow> ('m EventStreamSegment \<Rightarrow> 't \<Rightarrow> err option \<times> 't)
    \<Rightarrow> ('t \<times> string option) callback" where
  "sending sv send seg s = (case splitAndSendSegment sv send seg (fst s) of
     (Ret e, t) \<Rightarrow> (e, (t, None))
   | (Panic m, t) \<Rightarrow> (Some (PanicError m None), (t, Some m))
   | (Running, t) \<Rightarrow> (Some (PanicError [] None), (t, Some [])))"

definition unwound :: "err option go \<times> 't \<times> string option \<Rightarrow> err option go \<times> 't" where
  "unwound x = (case x of (r, t, None) \<Rightarrow> (r, t) | (r, t, Some m) \<Rightarrow> (Panic m, t))"

definition requestedTypes :: "(MessageFilter \<Rightarrow> err option) \<Rightarrow> MessageFilter \<Rightarrow> err + types" where
  "requestedTypes ValidateFilter filter' = (case ValidateFilter filter' of
     Some e \<Rightarrow> Inl (Status InvalidArgument ''invalid message filter'')
   | None \<Rightarrow> (case filter' of FilterAll \<Rightarrow> Inr None | FilterSpecific ids \<Rightarrow> Inr (Some (set ids))))"

text \<open>The error of a call as the handler returns it: a status for the errors that clients tell apart.\<close>

definition read_status :: "err option \<Rightarrow> err option" where
  "read_status e = (if err_Is e ErrUnrecognizedStream then Some (Status NotFound ''unrecognized stream'')
     else if err_Is e ErrOffsetOutOfRange then Some (Status OutOfRange ''offset out of range'')
     else e)"

definition watch_status :: "err option \<Rightarrow> err option" where
  "watch_status e = (if err_Is e ErrConsumerTooSlow then Some (Status Aborted ''consumer too slow'') else e)"

definition map_ret :: "('a \<Rightarrow> 'b) \<Rightarrow> 'a go \<Rightarrow> 'b go" where
  "map_ret f r = go_bind r (\<lambda>a. Ret (f a))"

definition ReadEvents :: "'m server \<Rightarrow> (uuid \<Rightarrow> err option) \<Rightarrow> (MessageFilter \<Rightarrow> err option)
    \<Rightarrow> (uuid \<Rightarrow> types \<Rightarrow> offset \<Rightarrow> ('t \<times> string option) callback \<Rightarrow> 't \<times> string option
          \<Rightarrow> err option go \<times> 't \<times> string option)
    \<Rightarrow> ('m EventStreamSegment \<Rightarrow> 't \<Rightarrow> err option \<times> 't)
    \<Rightarrow> uuid \<Rightarrow> offset \<Rightarrow> MessageFilter \<Rightarrow> 't \<Rightarrow> err option go \<times> 't" where
  "ReadEvents sv Validate ValidateFilter read send sid b filter' t =
     (if MaxSegmentBytes sv \<le> 0 then (Panic ''maximum segment size must be positive'', t)
      else case Validate sid of
        Some e \<Rightarrow> (Ret (Some (Status InvalidArgument ''invalid event stream ID'')), t)
      | None \<Rightarrow> (case requestedTypes ValidateFilter filter' of
          Inl e \<Rightarrow> (Ret (Some e), t)
        | Inr types \<Rightarrow> (case unwound (read sid types b (sending sv send) (t, None)) of
            (r, t') \<Rightarrow> (map_ret read_status r, t'))))"

definition WatchEvents :: "'m server \<Rightarrow> (MessageFilter \<Rightarrow> err option)
    \<Rightarrow> (types \<Rightarrow> ('t \<times> string option) callback \<Rightarrow> 't \<times> string option
          \<Rightarrow> err option go \<times> 't \<times> string option)
    \<Rightarrow> ('m EventStreamSegment \<Rightarrow> 't \<Rightarrow> err option \<times> 't)
    \<Rightarrow> MessageFilter \<Rightarrow> 't \<Rightarrow> err option go \<times> 't" where
  "WatchEvents sv ValidateFilter watch send filter' t =
     (if MaxSegmentBytes sv \<le> 0 then (Panic ''maximum segment size must be positive'', t)
      else case requestedTypes ValidateFilter filter' of
        Inl e \<Rightarrow> (Ret (Some e), t)
      | Inr types \<Rightarrow> (case unwound (watch types (sending sv send) (t, None)) of
          (r, t') \<Rightarrow> (map_ret watch_status r, t')))"

section \<open>Correctness of splitting\<close>

text \<open>What the engine relies on of multi-envelopes; \<open>valid\<close> is the validity of one envelope.\<close>

definition multi_laws :: "'m multi_api \<Rightarrow> (envelope \<Rightarrow> bool) \<Rightarrow> bool" where
  "multi_laws api valid \<longleftrightarrow> (\<forall>env. All api (AsMultiEnvelope api env) = [env])
     \<and> (\<forall>m env m'. TryAppendEnvelope api m env = Some m' \<longrightarrow> All api m' = All api m @ [env])
     \<and> (\<forall>m. All api m \<noteq> [] \<and> (\<forall>env \<in> set (All api m). valid env) \<longrightarrow> MultiValidate api m = None)"

definition part_events :: "'m server \<Rightarrow> 'm EventStreamSegment \<Rightarrow> envelope list" where
  "part_events sv part = concat (map (All (sApi sv)) (MultiEnvelopes part))"

definition part_ok :: "'m server \<Rightarrow> 'm EventStreamSegment \<Rightarrow> 'm option \<Rightarrow> bool" where
  "part_ok sv part multi \<longleftrightarrow> (\<forall>m \<in> set (MultiEnvelopes part). All (sApi sv) m \<noteq> [])
     \<and> (\<forall>m. multi = Some m \<longrightarrow> MultiEnvelopes part \<noteq> [] \<and> last (MultiEnvelopes part) = m)"

lemma add_event_ok:
  assumes "multi_laws (sApi sv) valid" and "part_ok sv part multi"
    and "add_event sv part multi size' env = (part', multi', size'')"
  shows "part_events sv part' = part_events sv part @ [env]" and "part_ok sv part' multi'"
    and "EventStreamId part' = EventStreamId part" and "BeginOffset part' = BeginOffset part"
proof -
  have app: "All (sApi sv) m' = All (sApi sv) m @ [env]" if "TryAppendEnvelope (sApi sv) m env = Some m'" for m m'
    using assms(1) that by (simp add: multi_laws_def)
  have new: "All (sApi sv) (AsMultiEnvelope (sApi sv) env) = [env]"
    using assms(1) by (simp add: multi_laws_def)
  have split: "ms \<noteq> [] \<Longrightarrow> concat (map f ms) = concat (map f (butlast ms)) @ f (last ms)"
    for ms :: "'a list" and f :: "'a \<Rightarrow> envelope list"
    by (induction ms) auto
  show "part_events sv part' = part_events sv part @ [env]" and "part_ok sv part' multi'"
    and "EventStreamId part' = EventStreamId part" and "BeginOffset part' = BeginOffset part"
    using assms(2,3) split[of "MultiEnvelopes part" "All (sApi sv)"]
    by (auto simp: add_event_def part_events_def part_ok_def app new Let_def split: option.splits)
      (meson in_set_butlastD)
qed

text \<open>A part as a client reads it.\<close>

abbreviation part_segment :: "'m server \<Rightarrow> 'm EventStreamSegment \<Rightarrow> segment" where
  "part_segment sv \<equiv> wire_segment (sApi sv)"

lemma part_segment_simps [simp]:
  "StreamID (part_segment sv p) = EventStreamId p" "Begin (part_segment sv p) = BeginOffset p"
  "End (part_segment sv p) = EndOffset p" "Envelopes (part_segment sv p) = part_events sv p"
  by (simp_all add: wire_segment_def part_events_def)

definition good_part :: "'m server \<Rightarrow> envelope list \<Rightarrow> uuid \<Rightarrow> types \<Rightarrow> 'm EventStreamSegment \<Rightarrow> bool" where
  "good_part sv log sid types p \<longleftrightarrow> truthful log sid types (part_segment sv p) \<and> BeginOffset p < EndOffset p
     \<and> (\<forall>m \<in> set (MultiEnvelopes p). All (sApi sv) m \<noteq> [])"

text \<open>
  The invariant of the loop: what the current part holds, followed by the events that are
  left, is the window of the log from the part's begin to the end of the segment.
\<close>

lemma window_cut:
  assumes "wf_log sid log" and "xs @ env # ys = window log types b e"
  shows "xs = window log types b (off env)" and "env # ys = window log types (off env) e"
    and "xs \<noteq> [] \<Longrightarrow> b < off env" and "off env < e"
proof -
  have s: "sorted_wrt (\<lambda>x y. off x < off y) (xs @ env # ys)"
    using window_sorted[OF assms(1)] assms(2) by simp
  have mem: "\<And>x. x \<in> set (xs @ env # ys) \<Longrightarrow> b \<le> off x \<and> off x < e"
    unfolding assms(2) by (simp add: in_window)
  then have bounds: "b \<le> off env" "off env < e" by auto
  then have split: "window log types b (off env) @ window log types (off env) e = xs @ env # ys"
    using window_split[OF assms(1), of b "off env" e] assms(2) by simp
  have lo: "\<And>x. x \<in> set (window log types b (off env)) \<Longrightarrow> off x < off env"
    and hi: "\<And>x. x \<in> set (window log types (off env) e) \<Longrightarrow> off env \<le> off x"
    by (auto simp: in_window)
  have "filter (\<lambda>x. off x < off env) (xs @ env # ys) = xs"
    using s by (auto simp: sorted_wrt_append filter_empty_conv not_less intro: less_imp_le)
  moreover have "filter (\<lambda>x. off x < off env) (window log types b (off env) @ window log types (off env) e)
      = window log types b (off env)"
    using lo hi by (auto simp: filter_empty_conv not_less)
  ultimately show xs: "xs = window log types b (off env)" using split by simp
  show "env # ys = window log types (off env) e" using split unfolding xs[symmetric] by simp
  show "off env < e" by (rule bounds)
  assume "xs \<noteq> []"
  then have "hd xs \<in> set xs" by simp
  then have "b \<le> off (hd xs)" "off (hd xs) < off env" using mem lo xs by auto
  then show "b < off env" by simp
qed

lemma split_loop_ok:
  assumes laws: "multi_laws (sApi sv) valid" and log: "wf_log sid log"
    and "EventStreamId part = sid" and "part_ok sv part multi" and "size' > 0 \<Longrightarrow> part_events sv part \<noteq> []"
    and "part_events sv part @ envs = window log types (BeginOffset part) e" and "BeginOffset part < e"
  shows "\<exists>parts part'. split_loop sv sid part multi size' envs = (parts, Ret part')
    \<and> (\<forall>p \<in> set parts. good_part sv log sid types p)
    \<and> good_part sv log sid types (part'\<lparr>EndOffset := e\<rparr>)
    \<and> chain (BeginOffset part) (map (part_segment sv) (parts @ [part'\<lparr>EndOffset := e\<rparr>])) e"
  using assms(3-7)
proof (induction envs arbitrary: part multi size')
  case Nil
  then show ?case
    by (auto simp: good_part_def truthful_def part_ok_def part_events_def wire_segment_def)
next
  case (Cons env envs)
  note cut = window_cut[OF log Cons.prems(4)]
  show ?case
  proof (cases "size' > 0 \<and> size' + SizeHeader sv (Header env) + SizeBody sv (Body env) > MaxSegmentBytes sv")
    case True
    have "env \<in> set log" using cut(2) by (metis in_window list.set_intros(1))
    then have o: "offsetOf env = Ret (off env)" using log by (intro offsetOf_positioned[of sid]) auto
    obtain p m s where add: "add_event sv (new_part sid (off env)) None 0 env = (p, m, s)"
      using prod_cases3 by blast
    have new: "part_ok sv (new_part sid (off env)) None" "part_events sv (new_part sid (off env)) = []"
      by (simp_all add: part_ok_def new_part_def part_events_def)
    note a = add_event_ok[OF laws new(1) add]
    have "\<exists>parts part'. split_loop sv sid p m s envs = (parts, Ret part')
        \<and> (\<forall>p \<in> set parts. good_part sv log sid types p)
        \<and> good_part sv log sid types (part'\<lparr>EndOffset := e\<rparr>)
        \<and> chain (BeginOffset p) (map (part_segment sv) (parts @ [part'\<lparr>EndOffset := e\<rparr>])) e"
      using a new(2) cut(2,4) by (intro Cons.IH) (simp_all add: new_part_def)
    then obtain parts part' where IH: "split_loop sv sid p m s envs = (parts, Ret part')"
      "\<forall>p \<in> set parts. good_part sv log sid types p" "good_part sv log sid types (part'\<lparr>EndOffset := e\<rparr>)"
      "chain (off env) (map (part_segment sv) (parts @ [part'\<lparr>EndOffset := e\<rparr>])) e"
      using a(4) by (auto simp: new_part_def)
    have "BeginOffset part < off env" using cut(3) Cons.prems(3) True by simp
    moreover have "part_events sv (part\<lparr>EndOffset := off env\<rparr>) = window log types (BeginOffset part) (off env)"
      using cut(1) by (simp add: part_events_def)
    ultimately have "good_part sv log sid types (part\<lparr>EndOffset := off env\<rparr>)"
      using Cons.prems(1,2) by (simp add: good_part_def truthful_def part_ok_def)
    then show ?thesis
      using IH True add o by (intro exI[of _ "part\<lparr>EndOffset := off env\<rparr> # parts"] exI[of _ part']) auto
  next
    case False
    obtain p m s where add: "add_event sv part multi size' env = (p, m, s)"
      using prod_cases3 by blast
    note a = add_event_ok[OF laws Cons.prems(2) add]
    have "\<exists>parts part'. split_loop sv sid p m s envs = (parts, Ret part')
        \<and> (\<forall>p \<in> set parts. good_part sv log sid types p)
        \<and> good_part sv log sid types (part'\<lparr>EndOffset := e\<rparr>)
        \<and> chain (BeginOffset p) (map (part_segment sv) (parts @ [part'\<lparr>EndOffset := e\<rparr>])) e"
      using a Cons.prems by (intro Cons.IH) simp_all
    then show ?thesis using False add a(4) by auto
  qed
qed

lemma splitSegment_ok:
  assumes "multi_laws (sApi sv) valid" and "wf_log sid log" and "truthful log sid types seg"
    and "Begin seg < End seg"
  shows "\<exists>parts. splitSegment sv seg = (parts, Ret ()) \<and> (\<forall>p \<in> set parts. good_part sv log sid types p)
    \<and> chain (Begin seg) (map (part_segment sv) parts) (End seg)"
proof -
  have "\<exists>parts part'. split_loop sv sid (new_part sid (Begin seg)) None 0 (Envelopes seg) = (parts, Ret part')
    \<and> (\<forall>p \<in> set parts. good_part sv log sid types p)
    \<and> good_part sv log sid types (part'\<lparr>EndOffset := End seg\<rparr>)
    \<and> chain (BeginOffset (new_part sid (Begin seg) :: 'a EventStreamSegment))
        (map (part_segment sv) (parts @ [part'\<lparr>EndOffset := End seg\<rparr>])) (End seg)"
    using assms by (intro split_loop_ok) (simp_all add: new_part_def part_ok_def part_events_def truthful_def)
  then show ?thesis
    using assms(3) by (auto simp: splitSegment_def truthful_def new_part_def)
qed

text \<open>The size of a part's events: each multi-envelope has one header and a body for each event.\<close>

definition multi_size :: "'m server \<Rightarrow> 'm \<Rightarrow> int" where
  "multi_size sv m = SizeHeader sv (Header (hd (All (sApi sv) m)))
     + sum_list (map (\<lambda>env. SizeBody sv (Body env)) (All (sApi sv) m))"

definition part_size :: "'m server \<Rightarrow> 'm EventStreamSegment \<Rightarrow> int" where
  "part_size sv p = sum_list (map (multi_size sv) (MultiEnvelopes p))"

definition within_limit :: "'m server \<Rightarrow> 'm EventStreamSegment \<Rightarrow> bool" where
  "within_limit sv p \<longleftrightarrow> part_size sv p \<le> MaxSegmentBytes sv \<or> length (part_events sv p) = 1"

definition sizes_ok :: "'m server \<Rightarrow> bool" where
  "sizes_ok sv \<longleftrightarrow> (\<forall>h. 0 \<le> SizeHeader sv h) \<and> (\<forall>b. 0 < SizeBody sv b)"

lemma add_event_size:
  assumes "multi_laws (sApi sv) valid" and "part_ok sv part multi"
    and "add_event sv part multi (part_size sv part) env = (part', multi', s)"
  shows "s = part_size sv part'" and "sizes_ok sv \<Longrightarrow>
    s \<le> part_size sv part + SizeHeader sv (Header env) + SizeBody sv (Body env)"
proof -
  have app: "All (sApi sv) m' = All (sApi sv) m @ [env]" if "TryAppendEnvelope (sApi sv) m env = Some m'" for m m'
    using assms(1) that by (simp add: multi_laws_def)
  have new: "All (sApi sv) (AsMultiEnvelope (sApi sv) env) = [env]"
    using assms(1) by (simp add: multi_laws_def)
  have split: "ms \<noteq> [] \<Longrightarrow> sum_list (map f ms) = sum_list (map f (butlast ms)) + f (last ms)"
    for ms :: "'a list" and f :: "'a \<Rightarrow> int"
    by (induction ms) auto
  show "s = part_size sv part'" and "sizes_ok sv \<Longrightarrow>
      s \<le> part_size sv part + SizeHeader sv (Header env) + SizeBody sv (Body env)"
    using assms(2,3) split[of "MultiEnvelopes part" "multi_size sv"]
    by (auto simp: add_event_def part_size_def part_ok_def multi_size_def app new Let_def sizes_ok_def
        split: option.splits)
qed

lemma part_size_pos:
  assumes "sizes_ok sv" and "\<forall>m \<in> set (MultiEnvelopes p). All (sApi sv) m \<noteq> []"
  shows "0 \<le> part_size sv p" and "part_size sv p = 0 \<longleftrightarrow> MultiEnvelopes p = []"
proof -
  have pos: "All (sApi sv) m \<noteq> [] \<Longrightarrow> 0 < multi_size sv m" for m
  proof -
    assume "All (sApi sv) m \<noteq> []"
    then obtain x xs where "All (sApi sv) m = x # xs" by (meson neq_Nil_conv)
    moreover have "0 \<le> sum_list (map (\<lambda>env. SizeBody sv (Body env)) xs)"
      using assms(1) by (intro sum_list_nonneg) (auto simp: sizes_ok_def less_imp_le)
    moreover have "0 \<le> SizeHeader sv (Header x)" "0 < SizeBody sv (Body x)"
      using assms(1) by (simp_all add: sizes_ok_def)
    ultimately show ?thesis by (simp add: multi_size_def)
  qed
  have "\<forall>m \<in> set ms. 0 < multi_size sv m \<Longrightarrow> 0 \<le> sum_list (map (multi_size sv) ms)
      \<and> (sum_list (map (multi_size sv) ms) = 0 \<longleftrightarrow> ms = [])" for ms
    by (induction ms) auto
  then show "0 \<le> part_size sv p" and "part_size sv p = 0 \<longleftrightarrow> MultiEnvelopes p = []"
    using assms(2) pos by (auto simp: part_size_def)
qed

lemma split_loop_size:
  assumes laws: "multi_laws (sApi sv) valid" and sizes: "sizes_ok sv"
    and "part_ok sv part multi" and "within_limit sv part \<or> MultiEnvelopes part = []"
    and "split_loop sv sid part multi (part_size sv part) envs = (parts, Ret part')"
  shows "(\<forall>p \<in> set parts. within_limit sv p) \<and> (within_limit sv part' \<or> MultiEnvelopes part' = [])"
  using assms(3-5)
proof (induction envs arbitrary: part multi parts)
  case (Cons env envs)
  have frame: "within_limit sv (p\<lparr>EndOffset := n\<rparr>) = within_limit sv p" for p n
    by (simp add: within_limit_def part_size_def part_events_def)
  have single: "within_limit sv p" if "part_events sv p = [env]" for p
    using that by (simp add: within_limit_def)
  show ?case
  proof (cases "part_size sv part > 0 \<and>
      part_size sv part + SizeHeader sv (Header env) + SizeBody sv (Body env) > MaxSegmentBytes sv")
    case True
    then obtain offset where o: "offsetOf env = Ret offset"
      using Cons.prems(3) by (cases "offsetOf env") auto
    obtain p m s where add: "add_event sv (new_part sid offset) None 0 env = (p, m, s)"
      using prod_cases3 by blast
    have new: "part_ok sv (new_part sid offset) None" "part_events sv (new_part sid offset) = []"
      "part_size sv (new_part sid offset) = 0"
      by (simp_all add: part_ok_def new_part_def part_events_def part_size_def)
    have p: "part_events sv p = [env]" "part_ok sv p m" "s = part_size sv p"
      using add_event_ok[OF laws new(1) add] add_event_size(1)[OF laws new(1)] new add by auto
    obtain ps where rest: "split_loop sv sid p m (part_size sv p) envs = (ps, Ret part')"
      and parts: "parts = part\<lparr>EndOffset := offset\<rparr> # ps"
      using Cons.prems(3) True o add p(3) by (auto split: prod.splits)
    have "within_limit sv part"
      using Cons.prems(2) True by (auto simp: part_size_def)
    then show ?thesis
      using Cons.IH[OF p(2) _ rest] single[OF p(1)] parts frame by auto
  next
    case False
    obtain p m s where add: "add_event sv part multi (part_size sv part) env = (p, m, s)"
      using prod_cases3 by blast
    have p: "part_ok sv p m" "s = part_size sv p" "part_events sv p = part_events sv part @ [env]"
      using add_event_ok[OF laws Cons.prems(1) add] add_event_size(1)[OF laws Cons.prems(1) add] by auto
    have "within_limit sv p"
    proof (cases "part_size sv part > 0")
      case True
      then show ?thesis
        using False add_event_size[OF laws Cons.prems(1) add] sizes by (auto simp: within_limit_def)
    next
      case zero: False
      then have "MultiEnvelopes part = []"
        using part_size_pos[OF sizes, of part] Cons.prems(1) by (auto simp: part_ok_def)
      then show ?thesis using p(3) by (intro single) (simp add: part_events_def)
    qed
    moreover have "split_loop sv sid p m (part_size sv p) envs = (parts, Ret part')"
      using Cons.prems(3) False add p(2) by simp
    ultimately show ?thesis using Cons.IH[OF p(1)] by blast
  qed
qed simp

section \<open>A client and a server together\<close>

text \<open>
  The path between the two: how a client sees an error that a handler returned (\<open>toStatus\<close>),
  the parameters of both ends, and the point at which the connection breaks, if it does.
\<close>

record 'm link =
  lServer :: "'m server"
  lValid :: "envelope \<Rightarrow> bool"
  lValidateID :: "uuid \<Rightarrow> err option"
  lValidateFilter :: "MessageFilter \<Rightarrow> err option"
  lCode :: "err \<Rightarrow> grpc_code"
  toStatus :: "err \<Rightarrow> err"
  lBreak :: "(nat \<times> err \<times> err option) option"

definition received :: "'m link \<Rightarrow> err option go \<times> 'm EventStreamSegment list
    \<Rightarrow> ((err + 'm EventStreamSegment) \<times> err option) list" where
  "received link x = (case x of (r, sent) \<Rightarrow>
     (let parts = map (\<lambda>p. (Inr p, None)) sent
      in case lBreak link of
        Some (n, e, ctxErr) \<Rightarrow> take n parts @ [(Inl e, ctxErr)]
      | None \<Rightarrow> parts @ (case r of
          Ret None \<Rightarrow> [(Inl (Sentinel EOF), None)]
        | Ret (Some e) \<Rightarrow> [(Inl (toStatus link e), None)]
        | Panic m \<Rightarrow> [(Inl (Status (OtherCode 14) m), None)]
        | Running \<Rightarrow> [])))"

text \<open>\<open>Remote.Read\<close> on the client, against \<open>ReadEvents\<close> on the server.\<close>

definition remote_read :: "'m link
    \<Rightarrow> (uuid \<Rightarrow> types \<Rightarrow> offset \<Rightarrow> ('m EventStreamSegment list \<times> string option) callback
         \<Rightarrow> 'm EventStreamSegment list \<times> string option
         \<Rightarrow> err option go \<times> 'm EventStreamSegment list \<times> string option)
    \<Rightarrow> uuid \<Rightarrow> types \<Rightarrow> offset \<Rightarrow> 's callback \<Rightarrow> 's \<Rightarrow> err option go \<times> 's" where
  "remote_read link read sid types b fn s = Remote_Read
     \<lparr>Api = sApi (lServer link), ValidateID = lValidateID link, Code = lCode link, Opened = None, OpenCtx = None,
      Recv = received link (ReadEvents (lServer link) (lValidateID link) (lValidateFilter link) read
        (\<lambda>p sent. (None, sent @ [p])) sid b (messageFilter types) [])\<rparr> sid types b fn s"

text \<open>What both ends rely on.\<close>

definition link_ok :: "'m link \<Rightarrow> (uuid \<Rightarrow> envelope list) \<Rightarrow> bool" where
  "link_ok link log \<longleftrightarrow> multi_laws (sApi (lServer link)) (lValid link) \<and> 0 < MaxSegmentBytes (lServer link)
     \<and> (\<forall>sid. \<forall>env \<in> set (log sid). lValid link env)
     \<and> (\<forall>types. types \<noteq> Some {} \<longrightarrow> lValidateFilter link (messageFilter types) = None)
     \<and> (\<forall>e. \<exists>c m. toStatus link e = Status c m)
     \<and> (\<forall>n e ctxErr. lBreak link = Some (n, e, ctxErr) \<longrightarrow> e \<noteq> Sentinel EOF)"

lemma requestedTypes_messageFilter:
  "ValidateFilter (messageFilter types) = None \<Longrightarrow> requestedTypes ValidateFilter (messageFilter types) = Inr types"
  by (auto simp: requestedTypes_def messageFilter_def split: option.splits)

lemma send_parts_keep [simp]: "send_parts (\<lambda>p sent. (None, sent @ [p])) parts r t = (go_bind r (\<lambda>_. Ret None), t @ parts)"
  by (induction parts arbitrary: t) auto

lemma run_sending:
  assumes "multi_laws (sApi sv) valid" and "wf_log sid log" and "chain b segs e"
    and "\<forall>seg \<in> set segs. truthful log sid types seg \<and> Begin seg < End seg"
  shows "\<exists>parts. (\<forall>t. run_segments (sending sv (\<lambda>p sent. (None, sent @ [p]))) segs r (t, None) = (r, (t @ parts, None)))
    \<and> (\<forall>p \<in> set parts. good_part sv log sid types p) \<and> chain b (map (part_segment sv) parts) e"
  using assms(3,4)
proof (induction segs arbitrary: b)
  case Nil
  then show ?case by (intro exI[of _ "[]"]) simp
next
  case (Cons seg segs)
  obtain parts where p: "splitSegment sv seg = (parts, Ret ())" "\<forall>p \<in> set parts. good_part sv log sid types p"
    "chain b (map (part_segment sv) parts) (End seg)"
    using splitSegment_ok[OF assms(1,2), of types seg] Cons.prems by auto
  obtain ps where ps: "\<forall>t. run_segments (sending sv (\<lambda>p sent. (None, sent @ [p]))) segs r (t, None) = (r, (t @ ps, None))"
    "\<forall>p \<in> set ps. good_part sv log sid types p" "chain (End seg) (map (part_segment sv) ps) e"
    using Cons.IH[of "End seg"] Cons.prems by auto
  moreover have "sending sv (\<lambda>p sent. (None, sent @ [p])) seg (t, None) = (None, (t @ parts, None))" for t
    using p(1) by (simp add: sending_def splitAndSendSegment_def)
  ultimately show ?case
    using p by (intro exI[of _ "parts @ ps"]) (auto simp: chain_append)
qed

lemma good_part_parses:
  assumes "multi_laws (sApi sv) valid" and "wf_log sid log" and "\<forall>env \<in> set log. valid env"
    and "good_part sv log sid types p" and "Validate sid = None"
  shows "parseSegment (sApi sv) Validate types p = Inr (part_segment sv p)"
proof -
  have t: "EventStreamId p = sid" "part_events sv p = window log types (BeginOffset p) (EndOffset p)"
    "BeginOffset p \<le> EndOffset p"
    using assms(4) by (auto simp: good_part_def truthful_def)
  have "sound_segment types (part_segment sv p)"
    using t assms(2) window_sorted[OF assms(2)] by (auto simp: sound_segment_def wf_log_def in_window)
  moreover have "MultiValidate (sApi sv) m = None" if "m \<in> set (MultiEnvelopes p)" for m
  proof -
    have "set (All (sApi sv) m) \<subseteq> set (part_events sv p)" using that by (auto simp: part_events_def)
    then have "\<forall>env \<in> set (All (sApi sv) m). valid env" using t(2) assms(3) by (auto simp: in_window)
    moreover have "All (sApi sv) m \<noteq> []" using assms(4) that by (simp add: good_part_def)
    ultimately show ?thesis using assms(1) by (simp add: multi_laws_def)
  qed
  ultimately show ?thesis using t(1) assms(5) by (simp add: parseSegment_iff)
qed

lemma Remote_Read_loop_parts:
  assumes "\<forall>p \<in> set parts. parseSegment (Api env) (ValidateID env) types p = Inr (wire_segment (Api env) p)
      \<and> EventStreamId p = sid"
    and "chain b (map (wire_segment (Api env)) parts) e"
    and "\<And>first b s. Remote_Read_loop env sid types tail first b fn s = (r, s)"
  shows "Remote_Read_loop env sid types (map (\<lambda>p. (Inr p, None)) parts @ tail) first b fn s
      = run_segments fn (map (wire_segment (Api env)) parts) r s"
  using assms(1,2)
proof (induction parts arbitrary: b first s)
  case (Cons p parts)
  have "parseSegment (Api env) (ValidateID env) types p = Inr (wire_segment (Api env) p)"
    "StreamID (wire_segment (Api env) p) = sid" "Begin (wire_segment (Api env) p) = b"
    using Cons.prems by (simp_all add: wire_segment_def)
  with Cons.IH[of "End (wire_segment (Api env) p)" False] Cons.prems show ?case
    by (auto split: prod.splits option.splits)
qed (simp add: assms(3))

lemma chain_take: "chain b segs e \<Longrightarrow> \<exists>e'. chain b (take n segs) e'"
  by (metis append_take_drop_id chain_append)

text \<open>The server's side of a read that delivers truthful segments.\<close>

lemma ReadEvents_parts:
  assumes "multi_laws (sApi sv) valid" and "0 < MaxSegmentBytes sv" and "wf_log sid log"
    and run: "\<And>fn s. read sid types b fn s = run_segments fn segs r s"
    and "chain b segs e" and "\<forall>seg \<in> set segs. truthful log sid types seg \<and> Begin seg < End seg"
    and "Validate sid = None" and filter: "ValidateFilter (messageFilter types) = None"
  shows "\<exists>parts. ReadEvents sv Validate ValidateFilter read (\<lambda>p sent. (None, sent @ [p])) sid b
        (messageFilter types) [] = (map_ret read_status r, parts)
    \<and> (\<forall>p \<in> set parts. good_part sv log sid types p) \<and> chain b (map (part_segment sv) parts) e"
proof -
  obtain parts where parts: "\<forall>t. run_segments (sending sv (\<lambda>p sent. (None, sent @ [p]))) segs r (t, None) = (r, (t @ parts, None))"
    "\<forall>p \<in> set parts. good_part sv log sid types p" "chain b (map (part_segment sv) parts) e"
    using run_sending[OF assms(1,3,5,6)] by blast
  have "requestedTypes ValidateFilter (messageFilter types) = Inr types"
    using filter by (rule requestedTypes_messageFilter)
  then show ?thesis
    using assms(2,7) parts by (simp add: ReadEvents_def run unwound_def)
qed

text \<open>The client's side: it sees the parts, or the first few of them if the connection breaks.\<close>

definition outcome :: "'m link \<Rightarrow> err option go \<Rightarrow> err option go" where
  "outcome link r = (case lBreak link of
     Some (n, e, ctxErr) \<Rightarrow> Ret (Some (readError (lCode link) ctxErr e))
   | None \<Rightarrow> (case r of
       Ret None \<Rightarrow> Ret None
     | Ret (Some e) \<Rightarrow> Ret (Some (readError (lCode link) None (toStatus link e)))
     | Panic m \<Rightarrow> Ret (Some (readError (lCode link) None (Status (OtherCode 14) m)))
     | Running \<Rightarrow> Running))"

lemma received_run:
  assumes link: "link_ok link logs" and good: "\<forall>p \<in> set parts. good_part (lServer link) (logs sid) sid types p"
    and c: "chain b (map (part_segment (lServer link)) parts) e" and wf: "wf_log sid (logs sid)"
    and v: "lValidateID link sid = None"
    and E: "Api E = sApi (lServer link)" "ValidateID E = lValidateID link" "Code E = lCode link"
      "Recv E = received link (r, parts)"
  shows "\<exists>ps e'. set ps \<subseteq> set parts \<and> chain b (map (part_segment (lServer link)) ps) e'
    \<and> (\<forall>fn (s :: 's). Remote_Read_loop E sid types (Recv E) True b fn s
         = run_segments fn (map (part_segment (lServer link)) ps) (outcome link r) s)
    \<and> (outcome link r = Ret None \<longrightarrow> r = Ret None \<and> e' = e)"
proof -
  let ?sv = "lServer link"
  have multi: "multi_laws (sApi ?sv) (lValid link)" and valid: "\<forall>env \<in> set (logs sid). lValid link env"
    and status: "\<And>e. toStatus link e \<noteq> Sentinel EOF"
    and brk: "\<And>n e c. lBreak link = Some (n, e, c) \<Longrightarrow> e \<noteq> Sentinel EOF"
    using link unfolding link_ok_def by (auto, metis err.distinct(5))
  have parse: "\<forall>p \<in> set ps. parseSegment (Api E) (ValidateID E) types p = Inr (wire_segment (Api E) p)
      \<and> EventStreamId p = sid" if "set ps \<subseteq> set parts" for ps
  proof
    fix p
    assume "p \<in> set ps"
    then have "good_part ?sv (logs sid) sid types p" using that good by blast
    moreover from this have "parseSegment (sApi ?sv) (lValidateID link) types p = Inr (part_segment ?sv p)"
      using multi wf valid v by (intro good_part_parses)
    ultimately show "parseSegment (Api E) (ValidateID E) types p = Inr (wire_segment (Api E) p) \<and> EventStreamId p = sid"
      by (simp add: E good_part_def truthful_def)
  qed
  show ?thesis
  proof (cases "lBreak link")
    case (Some x)
    obtain n e' ctx where x: "x = (n, e', ctx)" by (cases x)
    obtain m where m: "chain b (map (part_segment ?sv) (take n parts)) m"
      using chain_take[OF c, of n] by (auto simp: take_map)
    have "Remote_Read_loop E sid types (map (\<lambda>p. (Inr p, None)) (take n parts) @ [(Inl e', ctx)]) True b fn s
        = run_segments fn (map (wire_segment (Api E)) (take n parts)) (outcome link r) s" for fn and s :: 's
      using brk[of n e' ctx] Some x m
      by (intro Remote_Read_loop_parts[OF parse]) (auto simp: set_take_subset E outcome_def)
    then show ?thesis
      using Some x m by (intro exI[of _ "take n parts"] exI[of _ m])
        (simp add: E received_def Let_def outcome_def set_take_subset take_map)
  next
    case None
    define tail where "tail = (case r of
        Ret None \<Rightarrow> [(Inl (Sentinel EOF) :: err + 'a EventStreamSegment, None :: err option)]
      | Ret (Some e) \<Rightarrow> [(Inl (toStatus link e), None)]
      | Panic m \<Rightarrow> [(Inl (Status (OtherCode 14) m), None)]
      | Running \<Rightarrow> [])"
    have "Remote_Read_loop E sid types (map (\<lambda>p. (Inr p, None)) parts @ tail) True b fn s
        = run_segments fn (map (wire_segment (Api E)) parts) (outcome link r) s" for fn and s :: 's
      using None status c
      by (intro Remote_Read_loop_parts[OF parse]) (auto simp: E outcome_def tail_def split: go.splits option.splits)
    then show ?thesis
      using None c by (intro exI[of _ parts] exI[of _ e])
        (auto simp: E received_def Let_def tail_def outcome_def split: go.splits option.splits)
  qed
qed

text \<open>A source that is read through a server keeps the contract of a source.\<close>

locale served_source = event_source read log stream_end ok
  for read :: "'env \<Rightarrow> uuid \<Rightarrow> types \<Rightarrow> offset \<Rightarrow> ('m EventStreamSegment list \<times> string option) callback
      \<Rightarrow> 'm EventStreamSegment list \<times> string option
      \<Rightarrow> err option go \<times> 'm EventStreamSegment list \<times> string option"
    and log :: "'env \<Rightarrow> uuid \<Rightarrow> envelope list"
    and stream_end :: "'env \<Rightarrow> uuid \<Rightarrow> offset"
    and ok :: "'env \<Rightarrow> bool"
begin

lemma remote_plan:
  assumes "ok env" and link: "link_ok link (log env)" and types: "types \<noteq> Some {}"
  shows "\<exists>segs r e. (\<forall>fn (s :: 's). remote_read link (read env) sid types b fn s = run_segments fn segs r s)
    \<and> chain b segs e
    \<and> (\<forall>seg \<in> set segs. truthful (log env sid) sid types seg \<and> Begin seg < End seg)
    \<and> (r = Ret None \<longrightarrow> stream_end env sid \<le> e) \<and> (\<forall>m. r \<noteq> Panic m)"
proof -
  let ?sv = "lServer link" and ?log = "log env sid"
  let ?serve = "ReadEvents ?sv (lValidateID link) (lValidateFilter link) (read env)
        (\<lambda>p sent. (None, sent @ [p])) sid b (messageFilter types) []"
  define E where "E = \<lparr>Api = sApi ?sv, ValidateID = lValidateID link, Code = lCode link, Opened = None,
      OpenCtx = None, Recv = received link ?serve\<rparr>"
  have rr: "remote_read link (read env) sid types b fn s = Remote_Read_loop E sid types (Recv E) True b fn s"
    for fn and s :: 's
    using types by (simp add: remote_read_def Remote_Read_def E_def)
  have max: "0 < MaxSegmentBytes ?sv" and multi: "multi_laws (sApi ?sv) (lValid link)"
    and filter: "lValidateFilter link (messageFilter types) = None"
    using link types by (auto simp: link_ok_def)
  show ?thesis
  proof (cases "lValidateID link sid")
    case (Some x)
    then have "?serve = (Ret (Some (Status InvalidArgument ''invalid event stream ID'')), [])"
      using max by (simp add: ReadEvents_def)
    moreover have "\<And>e. toStatus link e \<noteq> Sentinel EOF" "\<And>n e c. lBreak link = Some (n, e, c) \<Longrightarrow> e \<noteq> Sentinel EOF"
      using link unfolding link_ok_def by (auto, metis err.distinct(5))
    ultimately have "\<exists>x c. Recv E = [(Inl x, c)] \<and> x \<noteq> Sentinel EOF"
      by (auto simp: E_def received_def Let_def split: option.splits)
    then show ?thesis by (auto simp: rr intro!: exI[of _ "[]"] exI[of _ b])
  next
    case None
    obtain segs r e where "\<forall>fn s. read env sid types b fn s = run_segments fn segs r s" and "chain b segs e"
      and "\<forall>seg \<in> set segs. truthful ?log sid types seg \<and> Begin seg < End seg"
      and fin: "r = Ret None \<longrightarrow> stream_end env sid \<le> e"
      using read_plan[OF assms(1) types, of sid b] by blast
    then obtain parts where serve: "?serve = (map_ret read_status r, parts)"
      and parts: "\<forall>p \<in> set parts. good_part ?sv ?log sid types p" "chain b (map (part_segment ?sv) parts) e"
      using ReadEvents_parts[OF multi max log_wf[OF assms(1)], of "read env" sid types b segs r e "lValidateID link"
          "lValidateFilter link"] None filter by blast
    define r' where "r' = map_ret read_status r"
    have r': "r' = Ret None \<Longrightarrow> r = Ret None"
      unfolding r'_def by (cases r) (auto simp: map_ret_def read_status_def split: if_splits)
    have "\<exists>ps e'. set ps \<subseteq> set parts \<and> chain b (map (part_segment ?sv) ps) e'
      \<and> (\<forall>fn (s :: 's). Remote_Read_loop E sid types (Recv E) True b fn s
           = run_segments fn (map (part_segment ?sv) ps) (outcome link r') s)
      \<and> (outcome link r' = Ret None \<longrightarrow> r' = Ret None \<and> e' = e)"
      using serve by (intro received_run[OF link parts log_wf[OF assms(1)] None]) (simp_all add: E_def r'_def)
    then obtain ps e' where ps: "set ps \<subseteq> set parts" "chain b (map (part_segment ?sv) ps) e'"
      "\<forall>fn (s :: 's). Remote_Read_loop E sid types (Recv E) True b fn s
           = run_segments fn (map (part_segment ?sv) ps) (outcome link r') s"
      "outcome link r' = Ret None \<longrightarrow> r' = Ret None \<and> e' = e" by blast
    have "\<forall>m. outcome link r' \<noteq> Panic m"
      by (auto simp: outcome_def split: option.splits go.splits)
    moreover have "\<forall>seg \<in> set (map (part_segment ?sv) ps). truthful ?log sid types seg \<and> Begin seg < End seg"
      using ps(1) parts(1) by (auto simp: good_part_def)
    moreover have "outcome link r' = Ret None \<longrightarrow> stream_end env sid \<le> e'" using ps(4) r' fin by blast
    ultimately show ?thesis unfolding rr using ps(2,3) by blast
  qed
qed

end

text \<open>The local source, read directly by a server, and then by a client through the server.\<close>

interpretation served_local: served_source
    "local_read :: local_env \<Rightarrow> uuid \<Rightarrow> types \<Rightarrow> offset \<Rightarrow> ('m EventStreamSegment list \<times> string option) callback
      \<Rightarrow> 'm EventStreamSegment list \<times> string option
      \<Rightarrow> err option go \<times> 'm EventStreamSegment list \<times> string option"
    "\<lambda>env. local_log (lUnmarshal env) (lDB env)" local_end local_ok
  by unfold_locales

interpretation remote_source: event_source
    "\<lambda>(link, env). remote_read link (local_read env)
       :: uuid \<Rightarrow> types \<Rightarrow> offset \<Rightarrow> 's callback \<Rightarrow> 's \<Rightarrow> err option go \<times> 's"
    "\<lambda>(link, env). local_log (lUnmarshal env) (lDB env)" "\<lambda>(link, env). local_end env"
    "\<lambda>(link, env). local_ok env \<and> link_ok link (local_log (lUnmarshal env) (lDB env))"
proof (unfold_locales, goal_cases)
  case (1 env sid)
  then show ?case by (cases env) (simp add: local_source.log_wf)
next
  case (2 env types sid b)
  obtain link lenv where env: "env = (link, lenv)" by (cases env)
  show ?case
    using 2 served_local.remote_plan[of lenv link types sid b] unfolding env by simp
qed

section \<open>Properties of serving streams\<close>

definition sample_server :: "int \<Rightarrow> envelope list server" where
  "sample_server limit = \<lparr>sApi = list_api, SizeHeader = (\<lambda>h. 1), SizeBody = (\<lambda>b. 2), MaxSegmentBytes = limit\<rparr>"

definition sample_link :: "envelope list link" where
  "sample_link = \<lparr>lServer = sample_server 4, lValid = (\<lambda>env. True), lValidateID = (\<lambda>sid. None),
     lValidateFilter = (\<lambda>f. None), lCode = (\<lambda>e. case e of Status c m \<Rightarrow> c | _ \<Rightarrow> OtherCode 2),
     toStatus = (\<lambda>e. case e of Status c m \<Rightarrow> Status c m | _ \<Rightarrow> Status (OtherCode 2) []), lBreak = None\<rparr>"

lemma list_api_laws: "multi_laws list_api (\<lambda>env. True)"
  by (simp add: multi_laws_def list_api_def)

lemma sample_link_ok: "link_ok sample_link log"
  by (auto simp: link_ok_def sample_link_def sample_server_def list_api_laws split: err.splits)

text \<open>
  C16. Reading over the network.  Whatever the server's database reads meet, wherever the
  connection breaks, and however segments are split on the way, the events that a client of
  \<open>Remote.Read\<close> receives from a \<open>Server\<close> over the local source are the stream's events, of
  the requested types, in one range of offsets that begins at the requested offset, once each
  and in order.  If \<open>Remote.Read\<close> returns nil, the range reaches the end of the stream.
\<close>

theorem remote_read_delivers:
  assumes "local_ok env" and "link_ok link (local_log (lUnmarshal env) (lDB env))" and "types \<noteq> Some {}"
    and "remote_read link (local_read env) sid types b collect [] = (r, seen)"
  shows "\<exists>e \<ge> b. seen = window (local_log (lUnmarshal env) (lDB env) sid) types b e
    \<and> (r = Ret None \<longrightarrow> local_end env sid \<le> e)"
  using remote_source.read_collects[of "(link, env)" types collect "\<lambda>seg seen. seen @ Envelopes seg"
      "\<lambda>seen. seen" sid b "[]" r seen] assms
  by (auto simp: collect_def)

theorem remote_read_delivers_witness:
  "\<exists>e \<ge> 0. map (\<lambda>o'. with_position (event_at (UUID 0 1) (UUID 0 2) 0) (UUID 0 1) o') [0, 2]
      = window (local_log sample_unmarshal sample_db (UUID 0 1)) (Some {UUID 0 2}) 0 e \<and> 3 \<le> e"
proof -
  let ?env = "\<lparr>lUnmarshal = sample_unmarshal, SegmentSize = 5, lObs = [(sample_db, no_query_faults)],
     lDB = sample_db\<rparr>"
  have "local_ok ?env" by (simp add: local_ok_def sample_db_wf)
  moreover have "remote_read sample_link (local_read ?env) (UUID 0 1) (Some {UUID 0 2}) 0 collect []
      = (Ret None, map (\<lambda>o'. with_position (event_at (UUID 0 1) (UUID 0 2) 0) (UUID 0 1) o') [0, 2])"
    by code_simp
  moreover have "local_end ?env (UUID 0 1) = 3" by (simp add: local_end_def sample_db_next)
  ultimately show ?thesis
    using remote_read_delivers[of ?env sample_link "Some {UUID 0 2}" "UUID 0 1" 0] sample_link_ok by fastforce
qed

text \<open>
  C17. Splitting respects the limit and loses nothing.  The parts of a segment of a stream
  cover it contiguously; each is at most \<open>MaxSegmentBytes\<close> large, counting one header per
  multi-envelope, unless it holds a single event; each is accepted by the client's
  \<open>parseSegment\<close>; and what the client obtains, joined together, is the events of the segment.
\<close>

theorem splitSegment_round_trip:
  assumes "multi_laws (sApi sv) valid" and "sizes_ok sv" and "0 < MaxSegmentBytes sv"
    and "wf_log sid log" and "\<forall>env \<in> set log. valid env"
    and "truthful log sid types seg" and "Begin seg < End seg" and "Validate sid = None"
  shows "\<exists>parts segs. splitSegment sv seg = (parts, Ret ()) \<and> (\<forall>p \<in> set parts. within_limit sv p)
    \<and> map (parseSegment (sApi sv) Validate types) parts = map Inr segs
    \<and> chain (Begin seg) segs (End seg) \<and> concat (map Envelopes segs) = Envelopes seg"
proof -
  obtain parts where p: "splitSegment sv seg = (parts, Ret ())" "\<forall>p \<in> set parts. good_part sv log sid types p"
    "chain (Begin seg) (map (part_segment sv) parts) (End seg)"
    using splitSegment_ok[OF assms(1,4,6,7)] by blast
  have parse: "map (parseSegment (sApi sv) Validate types) parts = map Inr (map (part_segment sv) parts)"
    using good_part_parses[OF assms(1,4,5), of types _ Validate] p(2) assms(8) by simp
  have all: "concat (map Envelopes (map (part_segment sv) parts)) = Envelopes seg"
    using assms(6) by (subst chain_window[OF assms(4) p(3)]) (use p(2) in \<open>auto simp: good_part_def truthful_def\<close>)
  obtain ps part where loop: "split_loop sv sid (new_part sid (Begin seg)) None 0 (Envelopes seg) = (ps, Ret part)"
    and parts: "parts = ps @ [part\<lparr>EndOffset := End seg\<rparr>]"
    using p(1) assms(6) by (auto simp: splitSegment_def truthful_def split: prod.splits go.splits)
  have "(\<forall>p \<in> set ps. within_limit sv p) \<and> (within_limit sv part \<or> MultiEnvelopes part = [])"
    using loop by (intro split_loop_size[OF assms(1,2), of "new_part sid (Begin seg)" None sid "Envelopes seg"])
      (simp_all add: part_ok_def new_part_def part_size_def)
  then have "\<forall>p \<in> set parts. within_limit sv p"
    using assms(3) by (auto simp: parts within_limit_def part_size_def part_events_def)
  then show ?thesis using p parse all by blast
qed

theorem splitSegment_round_trip_witness:
  "\<exists>parts (segs :: segment list). splitSegment (sample_server 5) \<lparr>StreamID = UUID 0 1, Begin = 0, End = 4,
        Envelopes = map (event_at (UUID 0 1) (UUID 0 2)) [0, 1, 2, 3]\<rparr> = (parts, Ret ())
    \<and> (\<forall>p \<in> set parts. within_limit (sample_server 5) p)
    \<and> concat (map Envelopes segs) = map (event_at (UUID 0 1) (UUID 0 2)) [0, 1, 2, 3]"
proof -
  define log where "log = map (event_at (UUID 0 1) (UUID 0 2)) [0, 1, 2, 3]"
  define seg where "seg = \<lparr>StreamID = UUID 0 1, Begin = 0, End = 4, Envelopes = log\<rparr>"
  have "wf_log (UUID 0 1) log" by (simp add: wf_log_def log_def)
  moreover have "truthful log (UUID 0 1) None seg" "Begin seg < End seg"
    by (simp_all add: truthful_def window_def seg_def log_def)
  moreover have "sizes_ok (sample_server 5)" "0 < MaxSegmentBytes (sample_server 5)"
    "multi_laws (sApi (sample_server 5)) (\<lambda>env. True)"
    using list_api_laws by (simp_all add: sizes_ok_def sample_server_def)
  ultimately have "\<exists>parts segs. splitSegment (sample_server 5) seg = (parts, Ret ())
    \<and> (\<forall>p \<in> set parts. within_limit (sample_server 5) p)
    \<and> map (parseSegment (sApi (sample_server 5)) (\<lambda>sid. None) None) parts = map Inr segs
    \<and> chain (Begin seg) segs (End seg) \<and> concat (map Envelopes segs) = Envelopes seg"
    by (intro splitSegment_round_trip[of _ "\<lambda>env. True" "UUID 0 1" log]) simp_all
  then obtain parts and segs :: "segment list" where "splitSegment (sample_server 5) seg = (parts, Ret ())"
    "\<forall>p \<in> set parts. within_limit (sample_server 5) p" "concat (map Envelopes segs) = Envelopes seg"
    by blast
  then show ?thesis
    unfolding seg_def log_def by (intro exI[of _ parts] exI[of _ segs] conjI) simp_all
qed



end
