(* ===== verification/Feed.thy ===== *)
theory Feed
  imports Cache Server
begin

text \<open>
  Feeds (\<open>internal/eventstream/feed.go\<close>): consumers of one stream are served from the cache
  while they keep up, and by reading from the source while they catch up.

  \<open>feed.consume\<close> is driven by a list of observations, one for each iteration of its loop:
  the cache's segment as it is loaded, what a read from the source meets, whether the feed
  turns out to be closed, and what ends a wait.  It is still \<open>Running\<close> when they run out.
\<close>

section \<open>The feed\<close>

record feed =
  fID :: uuid
  fTypes :: types
  fCache :: cache
  fClosed :: bool
  fReads :: nat

definition feed_Append :: "segment \<Rightarrow> feed \<Rightarrow> feed go" where
  "feed_Append seg f =
     (if fClosed f then Ret f
      else let c = (if Begin seg \<noteq> sEnd (snapshot (fCache f)) then Reset (fCache f) (Begin seg) else fCache f)
        in go_bind (Append c (Begin seg) (End seg) (Envelopes seg)) (\<lambda>c'. Ret (f\<lparr>fCache := c'\<rparr>)))"

definition feed_Close :: "feed \<Rightarrow> feed" where
  "feed_Close f = f\<lparr>fClosed := True\<rparr>"

definition startRead :: "feed \<Rightarrow> feed \<times> bool" where
  "startRead f = (if fClosed f then (f, False) else (f\<lparr>fReads := fReads f + 1\<rparr>, True))"

definition read_Done :: "feed \<Rightarrow> feed" where
  "read_Done f = f\<lparr>fReads := fReads f - 1\<rparr>"

section \<open>Consuming\<close>

datatype wake = Done err | Changed | FeedClosed

record 'env observation =
  oSegment :: cache_segment
  oClosed :: bool
  oSource :: 'env
  oCached :: "nat \<Rightarrow> cache_segment"
  oClosedAfter :: bool
  oWake :: wake

text \<open>
  The callback of \<open>feed.read\<close>, with the variables that it captures: \<open>cp\<close> and \<open>fnErr\<close>.  The
  number of segments delivered so far selects the snapshot it compares \<open>cp\<close> with.
\<close>

type_synonym 's read_state = "'s \<times> offset \<times> err option \<times> nat"

definition read_callback :: "(nat \<Rightarrow> cache_segment) \<Rightarrow> 's callback \<Rightarrow> 's read_state callback" where
  "read_callback cached fn seg st = (case st of (s, cp, fnErr, k) \<Rightarrow>
     (case fn seg s of
        (Some e, s') \<Rightarrow> (Some e, (s', cp, Some e, k))
      | (None, s') \<Rightarrow>
          if End seg \<ge> sBegin (cached k) then (Some (Sentinel errCaughtUp), (s', End seg, fnErr, Suc k))
          else (None, (s', End seg, fnErr, Suc k))))"

definition is_persistent :: "err \<Rightarrow> bool" where
  "is_persistent e \<longleftrightarrow> errors_Is e ErrUnrecognizedStream \<or> errors_Is e ErrOffsetOutOfRange
     \<or> errors_Is e ErrInvalidSegment"

definition read_result :: "bool \<Rightarrow> err option \<Rightarrow> err option \<Rightarrow> err option" where
  "read_result closed fnErr e =
     (if fnErr \<noteq> None then fnErr
      else if err_Is e errCaughtUp then None
      else if closed then Some (Sentinel errFeedClosed)
      else (case e of
        None \<Rightarrow> None
      | Some e \<Rightarrow> Some (if is_persistent e then persistentError e else e)))"

definition feed_read :: "('env \<Rightarrow> uuid \<Rightarrow> types \<Rightarrow> offset \<Rightarrow> 's read_state callback \<Rightarrow> 's read_state
      \<Rightarrow> err option go \<times> 's read_state)
    \<Rightarrow> uuid \<Rightarrow> uuid set \<Rightarrow> 'env observation \<Rightarrow> offset \<Rightarrow> 's callback \<Rightarrow> 's
    \<Rightarrow> (offset \<times> err option) go \<times> 's" where
  "feed_read read sid types o' cp fn s =
     (if oClosed o' then (Ret (cp, Some (Sentinel errFeedClosed)), s)
      else (case read (oSource o') sid (Some types) cp (read_callback (oCached o') fn) (s, cp, None, 0) of
        (Ret e, (s', cp', fnErr, k)) \<Rightarrow> (Ret (cp', read_result (oClosedAfter o') fnErr e), s')
      | (Panic m, (s', cp', fnErr, k)) \<Rightarrow> (Panic m, s')
      | (Running, (s', cp', fnErr, k)) \<Rightarrow> (Running, s')))"

fun feed_consume :: "('env \<Rightarrow> uuid \<Rightarrow> types \<Rightarrow> offset \<Rightarrow> 's read_state callback \<Rightarrow> 's read_state
      \<Rightarrow> err option go \<times> 's read_state)
    \<Rightarrow> uuid \<Rightarrow> uuid set \<Rightarrow> 'env observation list \<Rightarrow> bool \<Rightarrow> offset \<Rightarrow> 's callback \<Rightarrow> 's
    \<Rightarrow> (offset \<times> err option) go \<times> 's" where
  "feed_consume read sid types [] confirmed cp fn s = (Running, s)"
| "feed_consume read sid types (o' # obs) confirmed cp fn s =
     (case Read (oSegment o') cp types of
        Panic m \<Rightarrow> (Panic m, s)
      | Running \<Rightarrow> (Running, s)
      | Ret (envs, Within) \<Rightarrow>
          (case fn \<lparr>StreamID = sid, Begin = cp, End = sEnd (oSegment o'), Envelopes = envs\<rparr> s of
             (Some e, s') \<Rightarrow> (Ret (cp, Some e), s')
           | (None, s') \<Rightarrow> feed_consume read sid types obs True (sEnd (oSegment o')) fn s')
      | Ret (envs, Before) \<Rightarrow>
          (case feed_read read sid types o' cp fn s of
             (Ret (cp', None), s') \<Rightarrow>
               if cp' = cp then (Ret (cp', Some (New ''event stream ends before the cached segment'')), s')
               else feed_consume read sid types obs True cp' fn s'
           | x \<Rightarrow> x)
      | Ret (envs, After) \<Rightarrow>
          if cp > sEnd (oSegment o') \<and> \<not> confirmed then
            (case feed_read read sid types o' cp fn s of
               (Ret (cp', None), s') \<Rightarrow> feed_consume read sid types obs True cp' fn s'
             | x \<Rightarrow> x)
          else (case oWake o' of
             Done e \<Rightarrow> (Ret (cp, Some e), s)
           | Changed \<Rightarrow> feed_consume read sid types obs confirmed cp fn s
           | FeedClosed \<Rightarrow> (Ret (cp, Some (Sentinel errFeedClosed)), s)))"

section \<open>What a consumer receives\<close>

text \<open>
  \<open>run_feed\<close> is what the caller of \<open>consume\<close> sees of a feed that has the segments \<open>segs\<close> to
  deliver from \<open>cp\<close>, and then ends with \<open>r\<close>: the offset that is returned is the end of the
  last segment that was accepted.
\<close>

fun run_feed :: "'s callback \<Rightarrow> segment list \<Rightarrow> err option go \<Rightarrow> offset \<Rightarrow> 's \<Rightarrow> (offset \<times> err option) go \<times> 's" where
  "run_feed fn [] r cp s = (go_bind r (\<lambda>e. Ret (cp, e)), s)"
| "run_feed fn (seg # segs) r cp s = (case fn seg s of
     (Some e, s') \<Rightarrow> (Ret (cp, Some e), s')
   | (None, s') \<Rightarrow> run_feed fn segs r (End seg) s')"

lemma run_feed_append:
  assumes "chain cp segs e"
  shows "run_feed fn (segs @ segs') r cp s = (case run_feed fn segs (Ret None) cp s of
      (Ret (cp', None), s') \<Rightarrow> run_feed fn segs' r cp' s' | x \<Rightarrow> x)"
  using assms by (induction segs arbitrary: cp s) (auto split: prod.splits option.splits)

lemma run_feed_end:
  "chain cp segs e \<Longrightarrow> fst (run_feed fn segs (Ret None) cp s) = Ret (cp', None) \<Longrightarrow> cp' = e"
  by (induction segs arbitrary: cp s) (auto split: prod.splits option.splits)

text \<open>The segments of a read that are delivered before the consumer reaches the cache.\<close>

fun until_caught :: "(nat \<Rightarrow> cache_segment) \<Rightarrow> nat \<Rightarrow> segment list \<Rightarrow> segment list \<times> bool" where
  "until_caught cached k [] = ([], False)"
| "until_caught cached k (seg # segs) =
     (if End seg \<ge> sBegin (cached k) then ([seg], True)
      else (case until_caught cached (Suc k) segs of (xs, c) \<Rightarrow> (seg # xs, c)))"

lemma until_caught_prefix:
  "until_caught cached k segs = (xs, c) \<Longrightarrow> \<exists>ys. segs = xs @ ys \<and> (\<not> c \<longrightarrow> ys = []) \<and> (c \<longrightarrow> xs \<noteq> [])"
  by (induction segs arbitrary: k xs) (auto split: if_splits prod.splits, blast)

lemma read_callback_run:
  assumes "until_caught cached k segs = (xs, c)"
  shows "(case run_segments (read_callback cached fn) segs r (s, cp, None, k) of
        (Ret e, (s', cp', fnErr, k')) \<Rightarrow> (Ret (cp', read_result closed fnErr e), s')
      | (Panic m, (s', cp', fnErr, k')) \<Rightarrow> (Panic m, s')
      | (Running, (s', cp', fnErr, k')) \<Rightarrow> (Running, s'))
    = run_feed fn xs (if c then Ret None else map_ret (read_result closed None) r) cp s"
  using assms
proof (induction segs arbitrary: k xs cp s)
  case Nil
  then show ?case by (cases r) (auto simp: map_ret_def)
next
  case (Cons seg segs)
  obtain e s' where fn: "fn seg s = (e, s')" by (cases "fn seg s")
  show ?case
  proof (cases e)
    case (Some err)
    then show ?thesis
      using Cons.prems fn by (auto simp: read_callback_def read_result_def split: if_splits prod.splits)
  next
    case None
    show ?thesis
    proof (cases "End seg \<ge> sBegin (cached k)")
      case True
      then show ?thesis
        using Cons.prems fn None by (auto simp: read_callback_def read_result_def)
    next
      case False
      obtain ys where ys: "until_caught cached (Suc k) segs = (ys, c)" "xs = seg # ys"
        using Cons.prems False by (auto split: prod.splits)
      have "read_callback cached fn seg (s, cp, None, k) = (None, (s', End seg, None, Suc k))"
        using fn None False by (simp add: read_callback_def)
      then show ?thesis
        using Cons.IH[OF ys(1), of s' "End seg"] fn None ys(2) by simp
    qed
  qed
qed

text \<open>Continuing after a read that succeeded, and stopping with one that did not.\<close>

lemma chain_advances:
  "chain b segs e \<Longrightarrow> \<forall>seg \<in> set segs. P seg \<and> Begin seg < End seg \<Longrightarrow> segs \<noteq> [] \<Longrightarrow> b < e"
proof (induction segs arbitrary: b)
  case (Cons seg segs)
  then have "Begin seg < End seg" "chain (End seg) segs e" "b = Begin seg" by auto
  moreover from this Cons.prems have "End seg \<le> e" by (intro chain_le[of "End seg" segs e]) (auto simp: less_imp_le)
  ultimately show ?case by simp
qed simp

lemma run_feed_stop: "r \<noteq> Ret None \<Longrightarrow> run_feed fn segs r cp s \<noteq> (Ret (cp', None), s')"
  by (induction segs arbitrary: cp s; cases r) (auto split: prod.splits option.splits)

lemma consume_reads:
  assumes "Read (oSegment o') cp types = Ret (envs, rel)"
    and "rel = Before \<and> rsegs \<noteq> [] \<or> rel = After \<and> cp > sEnd (oSegment o') \<and> \<not> confirmed"
    and "feed_read read sid types o' cp fn s = run_feed fn rsegs (Ret None) cp s" and c: "chain cp rsegs re"
    and adv: "\<forall>seg \<in> set rsegs. P seg \<and> Begin seg < End seg"
    and "\<And>s. feed_consume read sid types obs True re fn s = run_feed fn segs r re s"
  shows "feed_consume read sid types (o' # obs) confirmed cp fn s = run_feed fn (rsegs @ segs) r cp s"
proof -
  have "rsegs \<noteq> [] \<Longrightarrow> re \<noteq> cp" using chain_advances[OF c adv] by auto
  moreover have "run_feed fn rsegs (Ret None) cp s = (Ret (cp', None), s') \<Longrightarrow> cp' = re" for cp' s'
    using run_feed_end[OF c, of fn s cp'] by simp
  ultimately show ?thesis
    using assms(1,2,3,6) by (auto simp: run_feed_append[OF c] split: prod.splits go.splits option.splits)
qed

lemma consume_stops:
  assumes "Read (oSegment o') cp types = Ret (envs, rel)"
    and "rel = Before \<or> rel = After \<and> cp > sEnd (oSegment o') \<and> \<not> confirmed"
    and "feed_read read sid types o' cp fn s = run_feed fn rsegs rr cp s" and "rr \<noteq> Ret None"
  shows "feed_consume read sid types (o' # obs) confirmed cp fn s = run_feed fn rsegs rr cp s"
  using assms(1-3) run_feed_stop[OF assms(4), of fn rsegs cp s]
  by (auto split: prod.splits go.splits option.splits)

text \<open>A feed over any source.\<close>

locale feed_source = event_source read log stream_end ok
  for read :: "'env \<Rightarrow> uuid \<Rightarrow> types \<Rightarrow> offset \<Rightarrow> 's read_state callback \<Rightarrow> 's read_state
      \<Rightarrow> err option go \<times> 's read_state"
    and log :: "'env \<Rightarrow> uuid \<Rightarrow> envelope list"
    and stream_end :: "'env \<Rightarrow> uuid \<Rightarrow> offset"
    and ok :: "'env \<Rightarrow> bool"
begin

lemma feed_read_plan:
  assumes "ok (oSource o')" and "types \<noteq> {}"
  shows "\<exists>segs r e. (\<forall>fn s. feed_read read sid types o' cp fn s = run_feed fn segs r cp s) \<and> chain cp segs e
    \<and> (\<forall>seg \<in> set segs. truthful (log (oSource o') sid) sid (Some types) seg \<and> Begin seg < End seg)
    \<and> (\<forall>m. r \<noteq> Panic m)"
proof (cases "oClosed o'")
  case True
  then show ?thesis
    by (intro exI[of _ "[]"] exI[of _ "Ret (Some (Sentinel errFeedClosed))"] exI[of _ cp]) (simp add: feed_read_def)
next
  case False
  obtain segs r e where run: "\<forall>fn s. read (oSource o') sid (Some types) cp fn s = run_segments fn segs r s"
    and c: "chain cp segs e"
    and t: "\<forall>seg \<in> set segs. truthful (log (oSource o') sid) sid (Some types) seg \<and> Begin seg < End seg"
    and np: "\<forall>m. r \<noteq> Panic m"
    using read_plan[OF assms(1), of "Some types" sid cp] assms(2) by blast
  obtain xs caught where x: "until_caught (oCached o') 0 segs = (xs, caught)"
    by (cases "until_caught (oCached o') 0 segs")
  obtain ys where ys: "segs = xs @ ys" using until_caught_prefix[OF x] by blast
  then obtain m where "chain cp xs m" using c by (auto simp: chain_append)
  moreover have "\<forall>m. (if caught then Ret None else map_ret (read_result (oClosedAfter o') None) r) \<noteq> Panic m"
    using np by (cases r) (auto simp: map_ret_def)
  moreover have "feed_read read sid types o' cp fn s = run_feed fn xs
      (if caught then Ret None else map_ret (read_result (oClosedAfter o') None) r) cp s" for fn s
    using False read_callback_run[OF x, where fn = fn and r = r] by (simp add: feed_read_def run)
  moreover have "\<forall>seg \<in> set xs. truthful (log (oSource o') sid) sid (Some types) seg \<and> Begin seg < End seg"
    using t ys by simp
  ultimately show ?thesis by blast
qed

lemma consume_plan:
  assumes "wf_log sid L" and "types \<noteq> {}" and "case watched of None \<Rightarrow> True | Some w \<Rightarrow> types \<subseteq> w"
    and "\<forall>o' \<in> set obs. ok (oSource o') \<and> log (oSource o') sid = L \<and> seg_inv sid L watched (oSegment o')"
  shows "\<exists>segs r e. (\<forall>fn s. feed_consume read sid types obs confirmed cp fn s = run_feed fn segs r cp s)
    \<and> chain cp segs e \<and> (\<forall>seg \<in> set segs. truthful L sid (Some types) seg \<and> Begin seg < End seg)
    \<and> (\<forall>m. r \<noteq> Panic m)"
    (is "\<exists>segs r e. ?plan obs confirmed cp segs r e")
  using assms(4)
proof (induction obs arbitrary: confirmed cp)
  case Nil
  then show ?case by (intro exI[of _ "[]"] exI[of _ Running] exI[of _ cp]) simp
next
  case (Cons o' obs)
  note R = Read_window[OF assms(1) _ assms(3), of "oSegment o'" cp]
  have IH: "\<exists>segs r e. ?plan obs confirmed cp segs r e" for confirmed cp
    using Cons.prems by (intro Cons.IH) simp
  obtain rsegs rr re where rd: "\<forall>fn s. feed_read read sid types o' cp fn s = run_feed fn rsegs rr cp s"
    and rc: "chain cp rsegs re" and rt: "\<forall>seg \<in> set rsegs. truthful L sid (Some types) seg \<and> Begin seg < End seg"
    and rn: "\<forall>m. rr \<noteq> Panic m"
    using feed_read_plan[of o' types sid cp] Cons.prems assms(2) by auto
  note inv = Cons.prems[THEN bspec, of o', simplified]
  let ?seg = "oSegment o'"
  consider (before) "cp < sBegin ?seg" | (within) "sBegin ?seg \<le> cp" "cp < sEnd ?seg"
    | (after) "\<not> cp < sBegin ?seg" "sEnd ?seg \<le> cp" by fastforce
  then show ?case
  proof cases
    case before
    have read: "Read ?seg cp types = Ret ([], Before)" using before by (simp add: Read_def)
    show ?thesis
    proof (cases "rr = Ret None \<and> rsegs \<noteq> []")
      case True
      obtain segs r e where p: "?plan obs True re segs r e" using IH by blast
      have "feed_consume read sid types (o' # obs) confirmed cp fn s = run_feed fn (rsegs @ segs) r cp s" for fn s
        using True rd p by (intro consume_reads[OF read _ _ rc rt]) auto
      then have "?plan (o' # obs) confirmed cp (rsegs @ segs) r e"
        using p rt rc by (auto simp: chain_append simp del: feed_consume.simps)
      then show ?thesis by blast
    next
      case False
      define r where "r = (if rr = Ret None then Ret (Some (New ''event stream ends before the cached segment'')) else rr)"
      have "feed_consume read sid types (o' # obs) confirmed cp fn s = run_feed fn rsegs r cp s" for fn s
      proof (cases "rr = Ret None")
        case True
        then show ?thesis using False rd read by (simp add: r_def)
      next
        case rr: False
        then have "r = rr" by (simp add: r_def)
        with rr rd show ?thesis by (intro consume_stops[OF read]) auto
      qed
      then have "?plan (o' # obs) confirmed cp rsegs r re"
        using rt rc rn by (auto simp: r_def simp del: feed_consume.simps)
      then show ?thesis by blast
    qed
  next
    case within
    let ?s = "\<lparr>StreamID = sid, Begin = cp, End = sEnd ?seg, Envelopes = window L (Some types) cp (sEnd ?seg)\<rparr>"
    obtain segs r e where "?plan obs True (sEnd ?seg) segs r e" using IH by blast
    moreover have "truthful L sid (Some types) ?s" using within by (simp add: truthful_def)
    ultimately have "?plan (o' # obs) confirmed cp (?s # segs) r e"
      using within R inv by (auto split: prod.splits option.splits)
    then show ?thesis by blast
  next
    case after
    have read: "Read ?seg cp types = Ret ([], After)" using after by (simp add: Read_def)
    consider (reads) "cp > sEnd ?seg \<and> \<not> confirmed" "rr = Ret None" | (stops) "cp > sEnd ?seg \<and> \<not> confirmed" "rr \<noteq> Ret None"
      | (waits) "\<not> (cp > sEnd ?seg \<and> \<not> confirmed)" by blast
    then show ?thesis
    proof cases
      case reads
      obtain segs r e where p: "?plan obs True re segs r e" using IH by blast
      have "feed_consume read sid types (o' # obs) confirmed cp fn s = run_feed fn (rsegs @ segs) r cp s" for fn s
        using reads rd p by (intro consume_reads[OF read _ _ rc rt]) auto
      then have "?plan (o' # obs) confirmed cp (rsegs @ segs) r e"
        using p rt rc by (auto simp: chain_append simp del: feed_consume.simps)
      then show ?thesis by blast
    next
      case stops
      have "feed_consume read sid types (o' # obs) confirmed cp fn s = run_feed fn rsegs rr cp s" for fn s
        using stops rd by (intro consume_stops[OF read]) auto
      then have "?plan (o' # obs) confirmed cp rsegs rr re"
        using rt rc rn by (auto simp del: feed_consume.simps)
      then show ?thesis by blast
    next
      case waits
      obtain segs r e where IHw: "?plan obs confirmed cp segs r e" using IH by blast
      show ?thesis
      proof (cases "oWake o'")
        case Changed
        then have "?plan (o' # obs) confirmed cp segs r e" using IHw waits read by auto
        then show ?thesis by blast
      next
        case (Done x)
        with waits read show ?thesis
          by (intro exI[of _ "[]"] exI[of _ "Ret (Some x)"] exI[of _ cp]) auto
      next
        case FeedClosed
        with waits read show ?thesis
          by (intro exI[of _ "[]"] exI[of _ "Ret (Some (Sentinel errFeedClosed))"] exI[of _ cp]) auto
      qed
    qed
  qed
qed

end

interpretation local_feed: feed_source
    "local_read :: local_env \<Rightarrow> uuid \<Rightarrow> types \<Rightarrow> offset \<Rightarrow> 's read_state callback \<Rightarrow> 's read_state
      \<Rightarrow> err option go \<times> 's read_state"
    "\<lambda>env. local_log (lUnmarshal env) (lDB env)" local_end local_ok
  by unfold_locales

interpretation remote_feed: feed_source
    "\<lambda>(link, env). remote_read link (local_read env)
       :: uuid \<Rightarrow> types \<Rightarrow> offset \<Rightarrow> 's read_state callback \<Rightarrow> 's read_state \<Rightarrow> err option go \<times> 's read_state"
    "\<lambda>(link, env). local_log (lUnmarshal env) (lDB env)" "\<lambda>(link, env). local_end env"
    "\<lambda>(link, env). local_ok env \<and> link_ok link (local_log (lUnmarshal env) (lDB env))"
  by unfold_locales

section \<open>The feed's cache\<close>

text \<open>
  A segment that a watch delivers keeps the cache truthful, whether it continues the cached
  range or is the opening segment of a new watch.
\<close>

definition feed_inv :: "envelope list \<Rightarrow> feed \<Rightarrow> bool" where
  "feed_inv log f \<longleftrightarrow> cache_inv (fID f) log (fTypes f) (fCache f)"

lemma feed_Append_inv:
  assumes "wf_log (fID f) log" and "feed_inv log f" and "truthful log (fID f) (fTypes f) seg"
  shows "\<exists>f'. feed_Append seg f = Ret f' \<and> feed_inv log f' \<and> fID f' = fID f \<and> fTypes f' = fTypes f
    \<and> (if fClosed f then f' = f else sEnd (snapshot (fCache f')) = End seg)"
proof (cases "fClosed f")
  case False
  define c where "c = (if Begin seg \<noteq> sEnd (snapshot (fCache f)) then Reset (fCache f) (Begin seg) else fCache f)"
  have cap: "0 < capacity (fCache f)" using assms(2) by (simp add: feed_inv_def cache_inv_def)
  have "cache_inv (fID f) log (fTypes f) c"
    using assms(2) Reset_inv[OF cap] by (simp add: c_def feed_inv_def)
  moreover have "Begin seg = sEnd (snapshot c)" by (simp add: c_def Reset_def)
  ultimately obtain c' where "Append c (Begin seg) (End seg) (Envelopes seg) = Ret c'"
    "cache_inv (fID f) log (fTypes f) c'" "sEnd (snapshot c') = End seg"
    using Append_ok[OF assms(1), of "fTypes f" c "Begin seg" "End seg" "Envelopes seg"] assms(3)
    by (auto simp: truthful_def)
  then show ?thesis
    using False by (auto simp: feed_Append_def Let_def c_def[symmetric] feed_inv_def)
qed (use assms in \<open>simp add: feed_Append_def\<close>)

text \<open>Once a feed is closed no read begins, so the reads in progress can only drain.\<close>

lemma closed_feed_drains:
  "fst (startRead (feed_Close f)) = feed_Close f" "\<not> snd (startRead (feed_Close f))"
  "fReads (read_Done (feed_Close f)) \<le> fReads f" "feed_Append seg (feed_Close f) = Ret (feed_Close f)"
  by (simp_all add: startRead_def feed_Close_def read_Done_def feed_Append_def)

section \<open>Properties of feeds\<close>

text \<open>
  C11. Exactly-once, in-order delivery to a consumer.  Whatever a consumer of a feed over the
  local source meets, including changes of the cache, switching between the cache and reads from the
  database, failures of those reads and the closing of the feed, there is one sequence of
  segments that join up from the requested offset and are truthful to the stream, such that
  \<open>consume\<close> passes them to the callback one after another, stops at the first that the callback
  rejects, and returns the end of the last segment that was accepted.  It never panics.
\<close>

theorem consume_exactly_once:
  assumes "wf_log sid log" and "types \<noteq> {}" and "case watched of None \<Rightarrow> True | Some w \<Rightarrow> types \<subseteq> w"
    and "\<forall>o' \<in> set obs. local_ok (oSource o') \<and> local_log (lUnmarshal (oSource o')) (lDB (oSource o')) sid = log
      \<and> seg_inv sid log watched (oSegment o')"
  shows "\<exists>segs r e. (\<forall>(fn :: 's callback) s. feed_consume local_read sid types obs False begin fn s = run_feed fn segs r begin s)
    \<and> chain begin segs e \<and> (\<forall>seg \<in> set segs. truthful log sid (Some types) seg \<and> Begin seg < End seg)
    \<and> concat (map Envelopes segs) = window log (Some types) begin e \<and> (\<forall>m. r \<noteq> Panic m)"
proof -
  obtain segs r e where p: "\<forall>(fn :: 's callback) s. feed_consume local_read sid types obs False begin fn s = run_feed fn segs r begin s"
    "chain begin segs e" "\<forall>seg \<in> set segs. truthful log sid (Some types) seg \<and> Begin seg < End seg"
    "\<forall>m. r \<noteq> Panic m"
    using local_feed.consume_plan[OF assms, of False "begin"] by blast
  moreover have "concat (map Envelopes segs) = window log (Some types) begin e"
    using assms(1) p(2) by (rule chain_window) (use p(3) in blast)
  ultimately show ?thesis by blast
qed

text \<open>
  A consumer that begins behind the cache: the first event comes from the database, the rest
  from the cache.
\<close>

definition sample_obs :: "local_env observation" where
  "sample_obs = \<lparr>oSegment = \<lparr>sBegin = 1, sEnd = 3, sEvents = drop 1 (local_log sample_unmarshal sample_db (UUID 0 1))\<rparr>,
     oClosed = False, oSource = \<lparr>lUnmarshal = sample_unmarshal, SegmentSize = 1,
       lObs = [(sample_db, no_query_faults), (sample_db, no_query_faults)], lDB = sample_db\<rparr>,
     oCached = (\<lambda>k. \<lparr>sBegin = 1, sEnd = 3, sEvents = drop 1 (local_log sample_unmarshal sample_db (UUID 0 1))\<rparr>),
     oClosedAfter = False, oWake = FeedClosed\<rparr>"

theorem consume_exactly_once_witness:
  "\<exists>segs r e. feed_consume local_read (UUID 0 1) {UUID 0 2, UUID 0 3} [sample_obs, sample_obs, sample_obs] False 0 collect []
      = run_feed collect segs r 0 [] \<and> chain 0 segs e
    \<and> concat (map Envelopes segs)
      = window (local_log sample_unmarshal sample_db (UUID 0 1)) (Some {UUID 0 2, UUID 0 3}) 0 e"
proof -
  let ?log = "local_log sample_unmarshal sample_db (UUID 0 1)" and ?types = "{UUID 0 2, UUID 0 3}"
  let ?obs = "[sample_obs, sample_obs, sample_obs]"
  have "seg_inv (UUID 0 1) ?log None (oSegment sample_obs)" by code_simp
  moreover have "local_ok (oSource sample_obs)" by (simp add: local_ok_def sample_db_wf sample_obs_def)
  moreover have "lUnmarshal (oSource sample_obs) = sample_unmarshal" "lDB (oSource sample_obs) = sample_db"
    by (simp_all add: sample_obs_def)
  ultimately have obs: "\<forall>o' \<in> set ?obs. local_ok (oSource o')
      \<and> local_log (lUnmarshal (oSource o')) (lDB (oSource o')) (UUID 0 1) = ?log
      \<and> seg_inv (UUID 0 1) ?log None (oSegment o')" by simp
  have types: "?types \<noteq> {}" "case None of None \<Rightarrow> True | Some w \<Rightarrow> ?types \<subseteq> w" by simp_all
  obtain segs r e where "\<forall>(fn :: envelope list callback) s. feed_consume local_read (UUID 0 1) ?types ?obs False 0 fn s
      = run_feed fn segs r 0 s" "chain 0 segs e" "concat (map Envelopes segs) = window ?log (Some ?types) 0 e"
    using consume_exactly_once[OF local_log_wf[OF sample_db_wf] types obs, of 0] by blast
  then show ?thesis by blast
qed

end
