(* ===== verification/Supervisor.thy ===== *)
theory Supervisor
  imports Prelude
begin

text \<open>
  The supervisor (\<open>internal/supervisor\<close>), which retries fallible functions with exponential
  backoff, and \<open>xsql.PanicOnDeadlock\<close>, which it calls.

  \<open>Run\<close> is driven by a list of attempts, one for each call of the supervised function: what
  the call returned, how long it ran, and what happens to the context meanwhile.  It is still
  \<open>Running\<close> when the attempts run out.  Durations are nanoseconds, kept within 64 bits.
\<close>

section \<open>Errors\<close>

text \<open>
  \<open>errors.AsType\<close> finds the first error of a type in a depth-first walk of the errors that
  an error wraps; for \<open>fatalError\<close> these are the errors that it would find, in order, each
  without its wrapper.
\<close>

fun fatal_causes :: "err \<Rightarrow> err list" where
  "fatal_causes (fatalError e) = e # fatal_causes e"
| "fatal_causes (persistentError e) = fatal_causes e"
| "fatal_causes (Errorf m es) = concat (map fatal_causes es)"
| "fatal_causes (PanicError m (Some e)) = fatal_causes e"
| "fatal_causes (PanicError m None) = []"
| "fatal_causes (Sentinel s) = []"
| "fatal_causes (New m) = []"
| "fatal_causes (Status c m) = []"
| "fatal_causes (Foreign n) = []"

fun has_persistent :: "err \<Rightarrow> bool" where
  "has_persistent (persistentError e) = True"
| "has_persistent (fatalError e) = has_persistent e"
| "has_persistent (Errorf m es) = list_ex has_persistent es"
| "has_persistent (PanicError m (Some e)) = has_persistent e"
| "has_persistent (PanicError m None) = False"
| "has_persistent (Sentinel s) = False"
| "has_persistent (New m) = False"
| "has_persistent (Status c m) = False"
| "has_persistent (Foreign n) = False"

definition Fatal :: "err \<Rightarrow> err" where "Fatal e = fatalError e"

definition Fatalf :: "string \<Rightarrow> err list \<Rightarrow> err" where "Fatalf format args = Fatal (Errorf format args)"

definition Persistent :: "err \<Rightarrow> err" where "Persistent e = persistentError e"

definition Persistentf :: "string \<Rightarrow> err list \<Rightarrow> err" where
  "Persistentf format args = Persistent (Errorf format args)"

text \<open>\<open>PanicOnDeadlock\<close> does nothing outside of tests; what makes an error a deadlock belongs to \<open>pgconn\<close>.\<close>

definition PanicOnDeadlock :: "bool \<Rightarrow> (err \<Rightarrow> bool) \<Rightarrow> err \<Rightarrow> unit go" where
  "PanicOnDeadlock testing is_deadlock e = (if testing \<and> is_deadlock e then Panic ''deadlock'' else Ret ())"

section \<open>Backoff\<close>

definition wrap64 :: "int \<Rightarrow> int" where
  "wrap64 x = (x + 2 ^ 63) mod 2 ^ 64 - 2 ^ 63"

lemma wrap64_id [simp]: "- (2 ^ 63) \<le> x \<Longrightarrow> x < 2 ^ 63 \<Longrightarrow> wrap64 x = x"
  by (simp add: wrap64_def)

text \<open>\<open>rand.N\<close> panics unless its argument is positive; \<open>rnd\<close> is the generator.\<close>

definition rand_N :: "(int \<Rightarrow> int) \<Rightarrow> int \<Rightarrow> int go" where
  "rand_N rnd n = (if n \<le> 0 then Panic ''invalid argument to N'' else Ret (rnd n))"

definition rand_ok :: "(int \<Rightarrow> int) \<Rightarrow> bool" where
  "rand_ok rnd \<longleftrightarrow> (\<forall>n > 0. 0 \<le> rnd n \<and> rnd n < n)"

definition Jitter :: "(int \<Rightarrow> int) \<Rightarrow> duration \<Rightarrow> duration go" where
  "Jitter rnd d = (let half = sgn d * (\<bar>d\<bar> div 2)
     in go_bind (rand_N rnd (wrap64 (wrap64 (d - half) + 1))) (\<lambda>r. Ret (wrap64 (half + r))))"

definition baseDelay :: duration where "baseDelay = 100 * 1000000"

definition transientMaxDelay :: duration where "transientMaxDelay = 15 * 1000000000"

definition persistentMaxDelay :: duration where "persistentMaxDelay = 5 * 60 * 1000000000"

definition resetThreshold :: duration where "resetThreshold = 3 * 60 * 1000000000"

lemmas delay_defs = baseDelay_def transientMaxDelay_def persistentMaxDelay_def resetThreshold_def

definition delay_limit :: "err \<Rightarrow> duration" where
  "delay_limit e = (if has_persistent e then persistentMaxDelay else transientMaxDelay)"

definition next_backoff :: "duration \<Rightarrow> duration \<Rightarrow> err \<Rightarrow> duration" where
  "next_backoff backoff elapsed e =
     (if backoff = 0 \<or> elapsed \<ge> resetThreshold then baseDelay else min (wrap64 (2 * backoff)) (delay_limit e))"

section \<open>Run\<close>

record attempt =
  aErr :: "err option"
  aCtx :: "err option"
  aRan :: duration
  aDone :: "err option"

text \<open>The delays that \<open>Run\<close> waits for, or begins to wait for, and its result.\<close>

fun Run :: "bool \<Rightarrow> (err \<Rightarrow> bool) \<Rightarrow> (int \<Rightarrow> int) \<Rightarrow> attempt list \<Rightarrow> duration \<Rightarrow> duration list \<times> err option go" where
  "Run testing is_deadlock rnd [] backoff = ([], Running)"
| "Run testing is_deadlock rnd (a # as) backoff = (case aErr a of
     None \<Rightarrow> ([], Ret (aCtx a))
   | Some e \<Rightarrow>
       if aCtx a \<noteq> None then ([], Ret (aCtx a))
       else (case fatal_causes e of
         f # fs \<Rightarrow> ([], Ret (Some f))
       | [] \<Rightarrow> (case PanicOnDeadlock testing is_deadlock e of
           Panic m \<Rightarrow> ([], Panic m)
         | Running \<Rightarrow> ([], Running)
         | Ret _ \<Rightarrow> (let backoff' = next_backoff backoff (aRan a) e
             in case Jitter rnd backoff' of
               Panic m \<Rightarrow> ([], Panic m)
             | Running \<Rightarrow> ([], Running)
             | Ret delay \<Rightarrow> (case aDone a of
                 Some c \<Rightarrow> ([delay], Ret (Some c))
               | None \<Rightarrow> (case Run testing is_deadlock rnd as backoff' of (ds, r) \<Rightarrow> (delay # ds, r)))))))"

section \<open>Groups\<close>

text \<open>
  A function that is started in a group: the context's own error, once it is canceled, is not
  a failure.  \<open>is_ctx\<close> compares with the context's error.
\<close>

definition Group_Go :: "sentinel option \<Rightarrow> err option \<Rightarrow> err option" where
  "Group_Go ctxErr e = (case ctxErr of Some c \<Rightarrow> if err_Is e c then None else e | None \<Rightarrow> e)"

text \<open>
  \<open>Group.Wait\<close>, given the results of the functions in the order in which they return, each
  with the error of the group's context at that time.  The first failure cancels the context.
\<close>

fun Group_Wait :: "(sentinel option \<times> err option) list \<Rightarrow> err option" where
  "Group_Wait [] = None"
| "Group_Wait ((ctxErr, e) # rest) = (case Group_Go ctxErr e of Some x \<Rightarrow> Some x | None \<Rightarrow> Group_Wait rest)"

section \<open>Bounds\<close>

lemma Jitter_bounds:
  assumes "rand_ok rnd" and "0 \<le> d" and "d < 2 ^ 63"
  shows "\<exists>x. Jitter rnd d = Ret x \<and> d div 2 \<le> x \<and> x \<le> d"
proof -
  let ?half = "d div 2" and ?n = "d - d div 2 + 1"
  have half: "sgn d * (\<bar>d\<bar> div 2) = ?half" using assms(2) by (cases "d = 0") auto
  have n: "0 < ?n" "?n < 2 ^ 63" using assms(2,3) by auto
  have r: "0 \<le> rnd ?n" "rnd ?n < ?n"
    using assms(1)[unfolded rand_ok_def, rule_format, OF n(1)] by auto
  have "Jitter rnd d = Ret (wrap64 (?half + rnd ?n))"
    using assms(2,3) n unfolding Jitter_def half Let_def by (simp add: rand_N_def)
  moreover have "wrap64 (?half + rnd ?n) = ?half + rnd ?n"
    using r assms(2,3) by (intro wrap64_id) auto
  ultimately show ?thesis using r by auto
qed

text \<open>The backoff is zero before the first failure, and within the limits after it.\<close>

definition backoff_ok :: "duration \<Rightarrow> bool" where
  "backoff_ok b \<longleftrightarrow> b = 0 \<or> baseDelay \<le> b \<and> b \<le> persistentMaxDelay"

lemma next_backoff_bounds:
  assumes "backoff_ok b"
  shows "baseDelay \<le> next_backoff b elapsed e" and "next_backoff b elapsed e \<le> delay_limit e"
    and "next_backoff b elapsed e \<noteq> 0" and "backoff_ok (next_backoff b elapsed e)"
proof -
  have "wrap64 (2 * b) = 2 * b" using assms by (intro wrap64_id) (auto simp: backoff_ok_def delay_defs)
  then show "baseDelay \<le> next_backoff b elapsed e" and "next_backoff b elapsed e \<le> delay_limit e"
    using assms by (auto simp: next_backoff_def backoff_ok_def delay_limit_def delay_defs)
  then show "next_backoff b elapsed e \<noteq> 0" and "backoff_ok (next_backoff b elapsed e)"
    by (auto simp: backoff_ok_def delay_limit_def delay_defs split: if_splits)
qed

text \<open>An attempt that is followed by another.\<close>

definition retried :: "attempt \<Rightarrow> bool" where
  "retried a \<longleftrightarrow> aCtx a = None \<and> aDone a = None \<and> (\<exists>e. aErr a = Some e \<and> fatal_causes e = [])"

definition ends_with :: "attempt \<Rightarrow> err option \<Rightarrow> bool" where
  "ends_with a r \<longleftrightarrow>
     (if aErr a = None \<or> aCtx a \<noteq> None then r = aCtx a
      else case fatal_causes (the (aErr a)) of f # fs \<Rightarrow> r = Some f | [] \<Rightarrow> aDone a \<noteq> None \<and> r = aDone a)"

lemma Run_delays:
  assumes "rand_ok rnd" and "backoff_ok b" and "\<And>e. \<not> (testing \<and> is_deadlock e)"
    and "Run testing is_deadlock rnd as b = (ds, r)"
  shows "length ds \<le> length as
    \<and> (\<forall>i < length ds. \<exists>e. aErr (as ! i) = Some e \<and> baseDelay div 2 \<le> ds ! i \<and> ds ! i \<le> delay_limit e)
    \<and> (r = Running \<and> (\<forall>a \<in> set as. retried a)
       \<or> (\<exists>k < length as. \<exists>x. r = Ret x \<and> ends_with (as ! k) x \<and> (\<forall>j < k. retried (as ! j))))"
  using assms(2,4)
proof (induction as arbitrary: b ds)
  case (Cons a as)
  show ?case
  proof (cases "aErr a = None \<or> aCtx a \<noteq> None \<or> fatal_causes (the (aErr a)) \<noteq> []")
    case True
    then have "ds = [] \<and> (\<exists>x. r = Ret x \<and> ends_with a x)"
      using Cons.prems(2) by (auto simp: ends_with_def split: option.splits list.splits if_splits)
    then show ?thesis by auto
  next
    case False
    then obtain e where e: "aErr a = Some e" "aCtx a = None" "fatal_causes e = []" by auto
    let ?b = "next_backoff b (aRan a) e"
    note nb = next_backoff_bounds[OF Cons.prems(1), where elapsed = "aRan a" and e = e]
    have "delay_limit e < 2 ^ 63" by (simp add: delay_limit_def delay_defs)
    then obtain d where d: "Jitter rnd ?b = Ret d" "?b div 2 \<le> d" "d \<le> ?b"
      using Jitter_bounds[OF assms(1), of ?b] nb by (force simp: delay_defs)
    then have bounds: "baseDelay div 2 \<le> d" "d \<le> delay_limit e"
      using nb zdiv_mono1[OF nb(1), of 2] by auto
    have nd: "PanicOnDeadlock testing is_deadlock e = Ret ()"
      using assms(3)[of e] by (auto simp: PanicOnDeadlock_def)
    show ?thesis
    proof (cases "aDone a")
      case (Some c)
      then have "ds = [d]" "r = Ret (Some c)" using Cons.prems(2) e d nd by (auto simp: Let_def)
      moreover have "ends_with a (Some c)" using Some e by (simp add: ends_with_def)
      ultimately show ?thesis using e bounds by auto
    next
      case None
      obtain ds' where ds: "Run testing is_deadlock rnd as ?b = (ds', r)" "ds = d # ds'"
        using Cons.prems(2) e d nd None by (auto simp: Let_def split: prod.splits)
      note IH = Cons.IH[OF nb(4) ds(1)]
      have "retried a" using e None by (simp add: retried_def)
      moreover have "\<forall>i < length ds. \<exists>e. aErr ((a # as) ! i) = Some e \<and> baseDelay div 2 \<le> ds ! i \<and> ds ! i \<le> delay_limit e"
        using IH e bounds unfolding ds(2) by (auto simp: nth_Cons split: nat.splits)
      moreover have "\<exists>k < length (a # as). \<exists>x. r = Ret x \<and> ends_with ((a # as) ! k) x \<and> (\<forall>j < k. retried ((a # as) ! j))"
        if ret: "\<exists>k < length as. \<exists>x. r = Ret x \<and> ends_with (as ! k) x \<and> (\<forall>j < k. retried (as ! j))"
      proof -
        obtain k x where "k < length as" "r = Ret x" "ends_with (as ! k) x" "\<forall>j < k. retried (as ! j)"
          using ret by blast
        then show ?thesis
          using \<open>retried a\<close> by (intro exI[of _ "Suc k"]) (auto simp: nth_Cons split: nat.splits)
      qed
      ultimately show ?thesis using IH ds(2) by auto
    qed
  qed
qed simp

section \<open>Properties of the supervisor\<close>

text \<open>
  C27. The supervisor's contract.  Outside of tests, or without deadlocks, \<open>Run\<close> never panics.
  It calls its function again exactly after failures that are neither fatal nor followed by
  cancelation, and returns for the first attempt that succeeds, fails fatally, or is cut
  short by the context, with the fatal cause or the context's error.  Every delay is at least
  half of the base delay, and at most 15 seconds, or 5 minutes after a persistent failure.
\<close>

theorem Run_contract:
  assumes "rand_ok rnd" and "\<And>e. \<not> (testing \<and> is_deadlock e)"
    and "Run testing is_deadlock rnd as 0 = (ds, r)"
  shows "length ds \<le> length as
    \<and> (\<forall>i < length ds. \<exists>e. aErr (as ! i) = Some e \<and> 50000000 \<le> ds ! i
         \<and> ds ! i \<le> (if has_persistent e then 300000000000 else 15000000000))
    \<and> (r = Running \<and> (\<forall>a \<in> set as. retried a)
       \<or> (\<exists>k < length as. \<exists>x. r = Ret x \<and> ends_with (as ! k) x \<and> (\<forall>j < k. retried (as ! j))))"
proof -
  have "backoff_ok 0" by (simp add: backoff_ok_def)
  moreover have "delay_limit e = (if has_persistent e then 300000000000 else 15000000000)" for e
    by (simp add: delay_limit_def delay_defs)
  moreover have "baseDelay div 2 = 50000000" by (simp add: delay_defs)
  ultimately show ?thesis using Run_delays[OF assms(1) _ assms(2,3)] by simp
qed

definition sample_attempt :: "err option \<Rightarrow> attempt" where
  "sample_attempt e = \<lparr>aErr = e, aCtx = None, aRan = 0, aDone = None\<rparr>"

lemma rand_ok_zero: "rand_ok (\<lambda>n. 0)" "rand_ok (\<lambda>n. n - 1)"
  by (simp_all add: rand_ok_def)

theorem Run_contract_witness:
  "\<exists>k < 3. ends_with ([sample_attempt (Some (New ''x'')), sample_attempt (Some (Persistent (New ''y''))),
      sample_attempt (Some (Fatal (New ''z'')))] ! k) (Some (New ''z''))"
proof -
  let ?as = "[sample_attempt (Some (New ''x'')), sample_attempt (Some (Persistent (New ''y''))),
      sample_attempt (Some (Fatal (New ''z'')))]"
  have "Run False (\<lambda>e. False) (\<lambda>n. n - 1) ?as 0 = ([100000000, 200000000], Ret (Some (New ''z'')))"
    by code_simp
  from Run_contract[OF rand_ok_zero(2) _ this] obtain k where
    "k < 3" "ends_with (?as ! k) (Some (New ''z''))" by (auto simp: numeral_3_eq_3)
  then show ?thesis by blast
qed

text \<open>
  C28. Exponential backoff.  After \<open>n\<close> consecutive failures, none of them long-running, the
  backoff is the base delay doubled \<open>n - 1\<close> times, capped at 15 seconds for transient
  failures and at 5 minutes for persistent ones; the doubling never wraps.
\<close>

fun backoff_after :: "nat \<Rightarrow> duration \<Rightarrow> err \<Rightarrow> duration" where
  "backoff_after 0 elapsed e = 0"
| "backoff_after (Suc n) elapsed e = next_backoff (backoff_after n elapsed e) elapsed e"

lemma backoff_after_ok: "backoff_ok (backoff_after n elapsed e)"
  by (induction n) (simp_all add: backoff_ok_def[of 0] next_backoff_bounds)

lemma backoff_after_Suc_ok: "baseDelay \<le> backoff_after (Suc n) elapsed e"
  using next_backoff_bounds(1)[OF backoff_after_ok] by simp



text \<open>
  C29. \<open>Jitter\<close> returns a duration between half and all of its argument, whatever the random
  number, without overflow, for every duration that is not negative.
\<close>

theorem Jitter_between:
  assumes "rand_ok rnd" and "0 \<le> d" and "d < 2 ^ 63"
  shows "\<exists>x. Jitter rnd d = Ret x \<and> d div 2 \<le> x \<and> x \<le> d"
  using assms by (rule Jitter_bounds)

theorem Jitter_between_witness:
  "\<exists>x. Jitter (\<lambda>n. n - 1) (2 ^ 63 - 1) = Ret x \<and> (2 ^ 63 - 1) div 2 \<le> x \<and> x \<le> 2 ^ 63 - 1"
  by (rule Jitter_between[OF rand_ok_zero(2)]) simp_all

end
