(* ===== verification/Signal.thy ===== *)
theory Signal
  imports Prelude "HOL-Library.Sublist"
begin

text \<open>
  The signal bus (\<open>internal/signal/bus.go\<close>): lossy notifications on hierarchical topics.

  Each critical section of the bus, and each receive from a subscriber's channel, is one
  step.  PostgreSQL's \<open>LISTEN\<close> and \<open>NOTIFY\<close> carry the topics: \<open>run\<close> calls \<open>wake\<close> once it listens,
  and then \<open>dispatch\<close> for each notification.  A subscriber's state is re-read from the
  database after each receive; \<open>dirty\<close> records the subscribers for which a signal has arrived
  since their last receive.
\<close>

section \<open>Topics\<close>

definition CutPrefix :: "string \<Rightarrow> string \<Rightarrow> string option" where
  "CutPrefix s pre = (if prefix pre s then Some (drop (length pre) s) else None)"

definition subtopicOf :: "string \<Rightarrow> string \<Rightarrow> string option" where
  "subtopicOf parent topic = (if topic = parent then Some [] else CutPrefix topic (parent @ ''.''))"

section \<open>The bus\<close>

record subscriber =
  Topic :: string
  Channel :: "string list"
  Capacity :: nat

record bus =
  subscribers :: "nat \<rightharpoonup> subscriber"
  dirty :: "nat set"

definition Bus_Watch :: "nat \<Rightarrow> string \<Rightarrow> int \<Rightarrow> bus \<Rightarrow> bus go" where
  "Bus_Watch w topic capacity b =
     (if capacity \<le> 0 then Panic ''capacity must be positive''
      else Ret (b\<lparr>subscribers := (subscribers b)(w \<mapsto>
        \<lparr>Topic = topic, Channel = [[]], Capacity = nat capacity\<rparr>), dirty := insert w (dirty b)\<rparr>))"

definition unsubscribe :: "nat \<Rightarrow> bus \<Rightarrow> bus" where
  "unsubscribe w b = b\<lparr>subscribers := (subscribers b)(w := None), dirty := dirty b - {w}\<rparr>"

text \<open>A send that does not block: the signal is dropped if the channel is full.\<close>

definition trySend :: "string \<Rightarrow> subscriber \<Rightarrow> subscriber" where
  "trySend v s = (if length (Channel s) < Capacity s then s\<lparr>Channel := Channel s @ [v]\<rparr> else s)"

definition bus_wake :: "bus \<Rightarrow> bus" where
  "bus_wake b = b\<lparr>subscribers := (\<lambda>w. map_option (trySend []) (subscribers b w)), dirty := dom (subscribers b)\<rparr>"

definition dispatch_to :: "string \<Rightarrow> subscriber \<Rightarrow> subscriber" where
  "dispatch_to topic s = (case subtopicOf (Topic s) topic of Some sub \<Rightarrow> trySend sub s | None \<Rightarrow> s)"

definition dispatch :: "string \<Rightarrow> bus \<Rightarrow> bus" where
  "dispatch topic b = b\<lparr>subscribers := (\<lambda>w. map_option (dispatch_to topic) (subscribers b w)),
     dirty := dirty b \<union> {w. \<exists>s. subscribers b w = Some s \<and> subtopicOf (Topic s) topic \<noteq> None}\<rparr>"

text \<open>A subscriber receives the next signal, if there is one.\<close>

definition receive :: "nat \<Rightarrow> bus \<Rightarrow> bus" where
  "receive w b = (case subscribers b w of
     None \<Rightarrow> b
   | Some s \<Rightarrow> (case Channel s of
       [] \<Rightarrow> b
     | v # vs \<Rightarrow> b\<lparr>subscribers := (subscribers b)(w \<mapsto> s\<lparr>Channel := vs\<rparr>), dirty := dirty b - {w}\<rparr>))"

text \<open>
  \<open>Send\<close> passes the topic to \<open>pg_notify\<close>, here \<open>notify\<close>.  \<open>run\<close> takes a connection (\<open>Conn\<close>, \<open>stdlib_Conn\<close>
  and \<open>Listen\<close> are how that and the \<open>LISTEN\<close> command turn out), and then handles the
  notifications until waiting for one fails, with \<open>ctxErr\<close> the error of the context by then.
\<close>

definition Bus_Send :: "(string \<Rightarrow> err option) \<Rightarrow> string \<Rightarrow> err option" where
  "Bus_Send notify topic = (case notify topic of Some e \<Rightarrow> Some (Errorf ''unable to send signal'' [e]) | None \<Rightarrow> None)"

record connection =
  Conn :: "err option"
  stdlib_Conn :: bool
  Listen :: "err option"
  notifications :: "string list"
  waitErr :: err
  ctxErr :: "err option"

definition bus_run :: "connection \<Rightarrow> bus \<Rightarrow> err \<times> bus" where
  "bus_run c b = (case Conn c of
     Some e \<Rightarrow> (e, b)
   | None \<Rightarrow> if \<not> stdlib_Conn c then (New ''unexpected connection type'', b)
       else (case Listen c of
         Some e \<Rightarrow> (Errorf ''unable to listen for signals'' [e], b)
       | None \<Rightarrow> (case ctxErr c of Some e \<Rightarrow> e | None \<Rightarrow> Errorf ''unable to wait for signal'' [waitErr c],
                  fold dispatch (notifications c) (bus_wake b))))"

inductive bus_step :: "bus \<Rightarrow> bus \<Rightarrow> bool" where
  watch: "subscribers b w = None \<Longrightarrow> Bus_Watch w topic capacity b = Ret b' \<Longrightarrow> bus_step b b'"
| unsubscribe: "bus_step b (unsubscribe w b)"
| wake: "bus_step b (bus_wake b)"
| dispatch: "bus_step b (dispatch topic b)"
| receive: "bus_step b (receive w b)"

inductive bus_reachable :: "bus \<Rightarrow> bool" where
  init: "bus_reachable \<lparr>subscribers = Map.empty, dirty = {}\<rparr>"
| step: "bus_reachable b \<Longrightarrow> bus_step b b' \<Longrightarrow> bus_reachable b'"

section \<open>The topic hierarchy\<close>

text \<open>A topic as its levels, which are separated by dots.\<close>

fun levels :: "string \<Rightarrow> string list" where
  "levels [] = [[]]"
| "levels (c # cs) = (if c = CHR ''.'' then [] # levels cs
     else (case levels cs of l # ls \<Rightarrow> (c # l) # ls | [] \<Rightarrow> [[c]]))"

lemma levels_not_Nil [simp]: "levels s \<noteq> []"
  by (cases s) (auto split: list.splits)

lemma levels_Cons_char:
  "c \<noteq> CHR ''.'' \<Longrightarrow> levels (c # cs) = (c # hd (levels cs)) # tl (levels cs)"
  by (cases "levels cs") auto

lemma subtopicOf_levels: "subtopicOf parent topic \<noteq> None \<longleftrightarrow> prefix (levels parent) (levels topic)"
proof -
  have "topic = parent \<or> prefix (parent @ ''.'') topic \<longleftrightarrow> prefix (levels parent) (levels topic)"
  proof (induction parent arbitrary: topic)
    case Nil
    show ?case
      by (cases topic) (auto split: list.splits)
  next
    case (Cons c p)
    show ?case
    proof (cases topic)
      case Nil
      then show ?thesis by (cases "levels p") auto
    next
      case (Cons d t)
      note IH = \<open>\<And>topic. (topic = p \<or> prefix (p @ ''.'') topic) = prefix (levels p) (levels topic)\<close>[of t]
      have cons: "prefix ((c # hd (levels p)) # tl (levels p)) ((c # hd (levels t)) # tl (levels t))
          \<longleftrightarrow> prefix (levels p) (levels t)"
        by (cases "levels p"; cases "levels t") auto
      show ?thesis
        using IH cons Cons
        by (cases "c = CHR ''.''"; cases "d = CHR ''.''"; cases "levels p"; cases "levels t") auto
    qed
  qed
  then show ?thesis by (auto simp: subtopicOf_def CutPrefix_def)
qed

lemma subtopicOf_Some:
  "subtopicOf parent topic = Some sub \<longleftrightarrow> (topic = parent \<and> sub = []) \<or> (topic \<noteq> parent \<and> topic = parent @ ''.'' @ sub)"
  by (auto simp: subtopicOf_def CutPrefix_def prefix_def)

section \<open>The invariant\<close>

definition bus_inv :: "bus \<Rightarrow> bool" where
  "bus_inv b \<longleftrightarrow> dirty b \<subseteq> dom (subscribers b) \<and> (\<forall>w s. subscribers b w = Some s \<longrightarrow>
     0 < Capacity s \<and> length (Channel s) \<le> Capacity s \<and> (w \<in> dirty b \<longrightarrow> Channel s \<noteq> []))"

lemma trySend_ok [simp]:
  "0 < Capacity s \<Longrightarrow> Channel (trySend v s) \<noteq> []" "Capacity (trySend v s) = Capacity s"
  "length (Channel s) \<le> Capacity s \<Longrightarrow> length (Channel (trySend v s)) \<le> Capacity s"
  by (auto simp: trySend_def)

lemma dispatch_to_ok:
  "Capacity (dispatch_to topic s) = Capacity s"
  "length (Channel s) \<le> Capacity s \<Longrightarrow> length (Channel (dispatch_to topic s)) \<le> Capacity s"
  "0 < Capacity s \<Longrightarrow> subtopicOf (Topic s) topic \<noteq> None \<Longrightarrow> Channel (dispatch_to topic s) \<noteq> []"
  "0 < Capacity s \<Longrightarrow> Channel s \<noteq> [] \<Longrightarrow> Channel (dispatch_to topic s) \<noteq> []"
  by (auto simp: dispatch_to_def split: option.splits)

lemma bus_step_inv: "bus_step b b' \<Longrightarrow> bus_inv b \<Longrightarrow> bus_inv b'"
proof (induction rule: bus_step.induct)
  case (watch b w topic capacity b')
  then show ?case by (auto simp: Bus_Watch_def bus_inv_def split: if_splits)
next
  case (unsubscribe b w)
  then show ?case by (auto simp: unsubscribe_def bus_inv_def split: if_splits)
next
  case (wake b)
  then show ?case by (auto simp: bus_wake_def bus_inv_def)
next
  case (dispatch b topic)
  show ?case
    unfolding bus_inv_def
  proof (intro conjI allI impI subsetI)
    fix w
    assume "w \<in> dirty (dispatch topic b)"
    then show "w \<in> dom (subscribers (dispatch topic b))"
      using dispatch by (auto simp: dispatch_def bus_inv_def)
  next
    fix w s'
    assume "subscribers (dispatch topic b) w = Some s'"
    then obtain s where s: "subscribers b w = Some s" "s' = dispatch_to topic s" by (auto simp: dispatch_def)
    then have inv: "0 < Capacity s" "length (Channel s) \<le> Capacity s" "w \<in> dirty b \<longrightarrow> Channel s \<noteq> []"
      using dispatch by (auto simp: bus_inv_def)
    then show "0 < Capacity s'" "length (Channel s') \<le> Capacity s'"
      by (simp_all add: s(2) dispatch_to_ok)
    assume "w \<in> dirty (dispatch topic b)"
    then show "Channel s' \<noteq> []" using s inv dispatch_to_ok(3,4)[OF inv(1)] by (auto simp: dispatch_def)
  qed
next
  case (receive b w)
  then show ?case
    by (auto simp: receive_def bus_inv_def split: option.splits list.splits if_splits)
      (metis Suc_leD length_Cons)
qed

lemma bus_reachable_inv: "bus_reachable b \<Longrightarrow> bus_inv b"
proof (induction rule: bus_reachable.induct)
  case init
  then show ?case by (simp add: bus_inv_def)
qed (rule bus_step_inv)

lemma bus_run_reachable:
  assumes "bus_reachable b"
  shows "bus_reachable (snd (bus_run c b))"
proof -
  have "bus_reachable b' \<Longrightarrow> bus_reachable (fold dispatch topics b')" for topics b'
    by (induction topics arbitrary: b') (auto intro: bus_reachable.step bus_step.dispatch)
  then have "bus_reachable (fold dispatch (notifications c) (bus_wake b))"
    using assms by (meson bus_reachable.step bus_step.wake)
  then show ?thesis using assms by (simp add: bus_run_def split: option.splits)
qed

section \<open>Properties of the bus\<close>

text \<open>
  C30. The topic hierarchy.  A subscriber of a topic is sent a signal exactly if the levels of
  its topic are a prefix of the levels of the signal's topic, so \<open>a.b\<close> receives \<open>a.b.c\<close> and not
  \<open>a.bc\<close>; what it is sent is the rest of the topic, without the separating dot.
\<close>

theorem subtopicOf_hierarchy:
  "(subtopicOf parent topic \<noteq> None \<longleftrightarrow> prefix (levels parent) (levels topic))
    \<and> (subtopicOf parent topic = Some sub \<longleftrightarrow>
         topic = parent \<and> sub = [] \<or> topic \<noteq> parent \<and> topic = parent @ ''.'' @ sub)"
  using subtopicOf_levels[of parent topic] subtopicOf_Some[of parent topic sub] by blast

text \<open>
  C31. No wake-up is lost, although signals are.  In every interleaving of watching, stopping,
  dispatching, waking and receiving, a subscriber for which a signal has arrived since it
  last received still has something to receive, so it will read its state again; and no channel exceeds its
  capacity.  Dispatching leaves a signal in the channel of every subscriber whose topic is at or above
  the signal's topic, and changes no other subscriber.
\<close>

theorem no_wakeup_lost:
  assumes "bus_reachable b" and "subscribers b w = Some s"
  shows "length (Channel s) \<le> Capacity s \<and> (w \<in> dirty b \<longrightarrow> Channel s \<noteq> [])
    \<and> (\<exists>s'. subscribers (dispatch topic b) w = Some s'
         \<and> (if prefix (levels (Topic s)) (levels topic) then Channel s' \<noteq> [] \<and> w \<in> dirty (dispatch topic b)
            else s' = s \<and> (w \<in> dirty (dispatch topic b) \<longleftrightarrow> w \<in> dirty b)))"
proof -
  have s: "0 < Capacity s" "length (Channel s) \<le> Capacity s" "w \<in> dirty b \<longrightarrow> Channel s \<noteq> []"
    using bus_reachable_inv[OF assms(1)] assms(2) by (auto simp: bus_inv_def)
  moreover have "prefix (levels (Topic s)) (levels topic) \<Longrightarrow> Channel (dispatch_to topic s) \<noteq> []"
    using s(1) by (auto simp: dispatch_to_def subtopicOf_levels[symmetric])
  moreover have "\<not> prefix (levels (Topic s)) (levels topic) \<Longrightarrow> dispatch_to topic s = s"
    by (auto simp: dispatch_to_def subtopicOf_levels[symmetric])
  ultimately show ?thesis
    using assms(2) by (auto simp: dispatch_def subtopicOf_levels[symmetric])
qed

theorem no_wakeup_lost_witness:
  "\<exists>b s. bus_reachable b \<and> subscribers b 0 = Some s \<and> Topic s = ''a.b''
    \<and> (\<exists>s'. subscribers (dispatch ''a.b.c'' b) 0 = Some s' \<and> Channel s' \<noteq> [])"
proof -
  let ?b0 = "\<lparr>subscribers = Map.empty, dirty = {}\<rparr>"
  obtain b1 s where w: "Bus_Watch 0 ''a.b'' 1 ?b0 = Ret b1" "subscribers b1 0 = Some s" "Topic s = ''a.b''"
    by (simp add: Bus_Watch_def)
  have "bus_reachable b1"
    by (rule bus_reachable.step[OF bus_reachable.init bus_step.watch[OF _ w(1)]]) simp
  moreover have "prefix (levels ''a.b'') (levels ''a.b.c'')" by simp
  ultimately show ?thesis
    using no_wakeup_lost[of b1 0 s "''a.b.c''"] w(2,3) by auto
qed

end
