(* ===== verification/Cluster.thy ===== *)
theory Cluster
  imports Prelude "HOL-Library.AList"
begin

text \<open>
  Cluster membership (\<open>internal/cluster\<close>): which nodes are live, by their heartbeats, and which
  of them is responsible for a workload, by rendezvous hashing.

  The hash (\<open>xxh3\<close>), the byte form and the order of UUIDs (\<open>uuidpb.CopyBytes\<close>, \<open>Less\<close>) and their
  text form (\<open>uuidpb.Parse\<close>) are parameters.  A node is a state machine that is driven by the
  events of its \<open>Run\<close> loop, each with the time at which it is handled.
\<close>

section \<open>Membership\<close>

record hashing =
  Hash :: "bytes \<Rightarrow> u64"
  CopyBytes :: "uuid \<Rightarrow> bytes"
  Less :: "uuid \<Rightarrow> uuid \<Rightarrow> bool"

record membership =
  mNodeID :: uuid
  isLive :: bool
  mPeers :: "uuid list"

definition score :: "hashing \<Rightarrow> uuid \<Rightarrow> uuid \<Rightarrow> u64" where
  "score h workload node = Hash h (CopyBytes h workload @ CopyBytes h node)"

fun beats_peers :: "hashing \<Rightarrow> uuid \<Rightarrow> uuid \<Rightarrow> u64 \<Rightarrow> uuid list \<Rightarrow> bool" where
  "beats_peers h workload nodeID localScore [] = True"
| "beats_peers h workload nodeID localScore (peer # ps) =
     (let peerScore = score h workload peer
      in if peerScore > localScore then False
         else if peerScore = localScore \<and> Less h peer nodeID then False
         else beats_peers h workload nodeID localScore ps)"

definition LocalNodeIsResponsibleFor :: "hashing \<Rightarrow> membership option \<Rightarrow> uuid \<Rightarrow> bool" where
  "LocalNodeIsResponsibleFor h m workload = (case m of
     None \<Rightarrow> False
   | Some m \<Rightarrow> if \<not> isLive m then False
       else beats_peers h workload (mNodeID m) (score h workload (mNodeID m)) (mPeers m))"

section \<open>Nodes\<close>

record node =
  nID :: uuid
  Timeout :: duration
  heartbeats :: "(uuid \<times> time) list"
  nMembership :: "membership option"
  nSent :: nat

definition sendHeartbeat :: "node \<Rightarrow> node" where
  "sendHeartbeat n = n\<lparr>nSent := nSent n + 1\<rparr>"

definition recordHeartbeat :: "(string \<Rightarrow> uuid option) \<Rightarrow> time \<Rightarrow> string \<Rightarrow> node \<Rightarrow> (bool \<times> bool) \<times> node" where
  "recordHeartbeat Parse now sid n = (case Parse sid of
     None \<Rightarrow> ((False, False), n)
   | Some nodeID \<Rightarrow>
       (let exists = map_of (heartbeats n) nodeID \<noteq> None;
            n' = n\<lparr>heartbeats := AList.update nodeID now (heartbeats n)\<rparr>
        in if exists then ((False, False), n') else ((True, nodeID \<noteq> nID n), n')))"

definition handleHeartbeat :: "(string \<Rightarrow> uuid option) \<Rightarrow> time \<Rightarrow> string \<Rightarrow> node \<Rightarrow> bool \<times> node" where
  "handleHeartbeat Parse now sid n =
     (if sid = [] then (False, n)
      else (case recordHeartbeat Parse now sid n of
        ((changed, joined), n') \<Rightarrow> (changed, if joined then sendHeartbeat n' else n')))"

text \<open>The heartbeats that wait in the channel, and whether the channel turns out to be closed.\<close>

fun drainHeartbeats :: "(string \<Rightarrow> uuid option) \<Rightarrow> (string \<times> time) list \<Rightarrow> bool \<Rightarrow> node \<Rightarrow> (bool \<times> bool) \<times> node" where
  "drainHeartbeats Parse [] closed n = ((False, \<not> closed), n)"
| "drainHeartbeats Parse ((sid, now) # pending) closed n =
     (case handleHeartbeat Parse now sid n of
        (c, n') \<Rightarrow> (case drainHeartbeats Parse pending closed n' of
          ((changed, ok), n'') \<Rightarrow> ((c \<or> changed, ok), n'')))"

definition expireNodes :: "time \<Rightarrow> node \<Rightarrow> bool \<times> node" where
  "expireNodes now n =
     (let live = filter (\<lambda>(nodeID, lastBeatAt). now - lastBeatAt \<le> Timeout n) (heartbeats n)
      in (live \<noteq> heartbeats n, n\<lparr>heartbeats := live\<rparr>))"

definition publishMembershipChange :: "node \<Rightarrow> node" where
  "publishMembershipChange n = n\<lparr>nMembership := Some
     \<lparr>mNodeID = nID n, isLive = (nID n \<in> set (map fst (heartbeats n))),
      mPeers = filter (\<lambda>x. x \<noteq> nID n) (map fst (heartbeats n))\<rparr>\<rparr>"

datatype node_event =
    Beat string time
  | Tick "(string \<times> time) list" bool time
  | Stop

text \<open>One iteration of the loop; the flag is whether it goes on.\<close>

fun node_step :: "(string \<Rightarrow> uuid option) \<Rightarrow> node_event \<Rightarrow> node \<Rightarrow> bool \<times> node" where
  "node_step Parse (Beat sid now) n = (case handleHeartbeat Parse now sid n of
     (changed, n') \<Rightarrow> (True, if changed then publishMembershipChange n' else n'))"
| "node_step Parse (Tick pending closed now) n =
     (case drainHeartbeats Parse pending closed (sendHeartbeat n) of
        ((changed, ok), n') \<Rightarrow>
          if \<not> ok then (False, n')
          else (case expireNodes now n' of
            (expired, n'') \<Rightarrow> (True, if changed \<or> expired then publishMembershipChange n'' else n'')))"
| "node_step Parse Stop n = (False, n)"

definition stopped :: "node \<Rightarrow> node" where
  "stopped n = n\<lparr>nMembership := Some \<lparr>mNodeID = UUID 0 0, isLive = False, mPeers = []\<rparr>\<rparr>"

fun node_loop :: "(string \<Rightarrow> uuid option) \<Rightarrow> node_event list \<Rightarrow> node \<Rightarrow> bool \<times> node" where
  "node_loop Parse [] n = (True, n)"
| "node_loop Parse (ev # evs) n = (case node_step Parse ev n of
     (True, n') \<Rightarrow> node_loop Parse evs n' | (False, n') \<Rightarrow> (False, stopped n'))"

definition Node_Run :: "(string \<Rightarrow> uuid option) \<Rightarrow> duration \<Rightarrow> node_event list \<Rightarrow> node \<Rightarrow> (bool \<times> node) go" where
  "Node_Run Parse interval evs n =
     (if interval \<le> 0 then Panic ''heartbeat interval must be positive''
      else if Timeout n \<le> interval then Panic ''heartbeat timeout must be greater than the heartbeat interval''
      else Ret (node_loop Parse evs (sendHeartbeat n)))"

section \<open>Rendezvous hashing\<close>

definition strict_order :: "(uuid \<Rightarrow> uuid \<Rightarrow> bool) \<Rightarrow> bool" where
  "strict_order lt \<longleftrightarrow> (\<forall>a. \<not> lt a a) \<and> (\<forall>a b c. lt a b \<longrightarrow> lt b c \<longrightarrow> lt a c)
     \<and> (\<forall>a b. a \<noteq> b \<longrightarrow> lt a b \<or> lt b a)"

text \<open>One node outranks another if it scores higher, or the same with a lower ID.\<close>

definition outranks :: "hashing \<Rightarrow> uuid \<Rightarrow> uuid \<Rightarrow> uuid \<Rightarrow> bool" where
  "outranks h workload a b \<longleftrightarrow> score h workload a > score h workload b
     \<or> score h workload a = score h workload b \<and> Less h a b"

lemma beats_peers_iff:
  "beats_peers h workload nodeID (score h workload nodeID) ps \<longleftrightarrow> (\<forall>p \<in> set ps. \<not> outranks h workload p nodeID)"
  by (induction ps) (auto simp: outranks_def Let_def)

lemma outranks_order:
  assumes "strict_order (Less h)"
  shows "\<not> outranks h w a a" and "outranks h w a b \<Longrightarrow> outranks h w b c \<Longrightarrow> outranks h w a c"
    and "a \<noteq> b \<Longrightarrow> outranks h w a b \<or> outranks h w b a"
proof -
  have irr: "\<not> Less h a a" and tr: "Less h a b \<Longrightarrow> Less h b c \<Longrightarrow> Less h a c" and tot: "a \<noteq> b \<Longrightarrow> Less h a b \<or> Less h b a"
    using assms unfolding strict_order_def by blast+
  show "\<not> outranks h w a a" using irr by (simp add: outranks_def)
  show "outranks h w a b \<Longrightarrow> outranks h w b c \<Longrightarrow> outranks h w a c"
    using tr by (auto simp: outranks_def)
  show "a \<noteq> b \<Longrightarrow> outranks h w a b \<or> outranks h w b a"
    using tot by (auto simp: outranks_def)
qed

lemma unique_top:
  assumes "strict_order (Less h)" and "finite live" and "live \<noteq> {}"
  shows "\<exists>!n. n \<in> live \<and> (\<forall>p \<in> live - {n}. \<not> outranks h w p n)"
proof -
  have "\<exists>n \<in> live. \<forall>p \<in> live. \<not> outranks h w p n"
    using assms(2,3)
  proof (induction rule: finite_ne_induct)
    case (insert x F)
    then obtain n where n: "n \<in> F" "\<forall>p \<in> F. \<not> outranks h w p n" by blast
    show ?case
    proof (cases "outranks h w x n")
      case True
      then have "\<not> outranks h w p x" if "p \<in> F" for p
        using n(2) that outranks_order(2)[OF assms(1)] by blast
      then show ?thesis using outranks_order(1)[OF assms(1)] by blast
    qed (use n in blast)
  qed (use outranks_order(1)[OF assms(1)] in blast)
  then show ?thesis using outranks_order(3)[OF assms(1)] by blast
qed

section \<open>The live nodes\<close>

text \<open>The nodes that a node believes to be live, as its membership reports them.\<close>

definition members :: "membership option \<Rightarrow> uuid set" where
  "members m = (case m of None \<Rightarrow> {} | Some m \<Rightarrow> set (mPeers m) \<union> (if isLive m then {mNodeID m} else {}))"

definition live :: "node \<Rightarrow> uuid set" where
  "live n = set (map fst (heartbeats n))"

definition node_inv :: "node \<Rightarrow> bool" where
  "node_inv n \<longleftrightarrow> distinct (map fst (heartbeats n)) \<and> members (nMembership n) = live n
     \<and> (\<forall>m. nMembership n = Some m \<longrightarrow> mNodeID m = nID n \<and> nID n \<notin> set (mPeers m))"

text \<open>What a part of an iteration keeps, before the change is published.\<close>

definition node_frame :: "node \<Rightarrow> bool \<Rightarrow> node \<Rightarrow> bool" where
  "node_frame n changed n' \<longleftrightarrow> nID n' = nID n \<and> Timeout n' = Timeout n \<and> nMembership n' = nMembership n
     \<and> (distinct (map fst (heartbeats n)) \<longrightarrow> distinct (map fst (heartbeats n')))
     \<and> (\<not> changed \<longrightarrow> live n' = live n)"

lemma node_frame_trans:
  "node_frame n c n' \<Longrightarrow> node_frame n' c' n'' \<Longrightarrow> node_frame n (c \<or> c') n''"
  by (auto simp: node_frame_def)

lemma live_update: "set (map fst (AList.update k v al)) = insert k (set (map fst al))"
  by (induction al) auto

lemma handleHeartbeat_frame:
  "handleHeartbeat Parse now sid n = (c, n') \<Longrightarrow> node_frame n c n'"
  by (auto simp: handleHeartbeat_def recordHeartbeat_def Let_def node_frame_def live_def sendHeartbeat_def
      distinct_update live_update map_of_eq_None_iff insert_absorb simp del: set_map
      split: if_splits option.splits prod.splits) (metis fst_conv image_eqI set_map)

lemma drainHeartbeats_frame:
  "drainHeartbeats Parse pending closed n = ((c, ok), n') \<Longrightarrow> node_frame n c n'"
proof (induction pending arbitrary: n c)
  case Nil
  then show ?case by (simp add: node_frame_def)
next
  case (Cons x pending)
  obtain sid now where x: "x = (sid, now)" by (cases x)
  obtain c1 n1 where h: "handleHeartbeat Parse now sid n = (c1, n1)" by (cases "handleHeartbeat Parse now sid n")
  obtain c2 where d: "drainHeartbeats Parse pending closed n1 = ((c2, ok), n')" "c = (c1 \<or> c2)"
    using Cons.prems h by (auto simp: x split: prod.splits)
  show ?case
    unfolding d(2) by (rule node_frame_trans[OF handleHeartbeat_frame[OF h] Cons.IH[OF d(1)]])
qed

lemma expireNodes_frame:
  "expireNodes now n = (c, n') \<Longrightarrow> node_frame n c n'"
  by (auto simp: expireNodes_def Let_def node_frame_def live_def distinct_map filter_id_conv
      intro: inj_on_subset)

lemma publish_inv:
  "distinct (map fst (heartbeats n)) \<Longrightarrow> node_inv (publishMembershipChange n)"
  by (auto simp: node_inv_def publishMembershipChange_def members_def live_def intro: rev_image_eqI)

lemma frame_inv:
  assumes "node_inv n" and "node_frame n c n'"
  shows "node_inv (if c then publishMembershipChange n' else n')"
  using assms publish_inv[of n'] by (auto simp: node_inv_def node_frame_def)

lemma sendHeartbeat_frame: "node_frame n False (sendHeartbeat n)"
  by (simp add: node_frame_def sendHeartbeat_def live_def)

lemma publish_fields [simp]:
  "heartbeats (publishMembershipChange n) = heartbeats n" "nID (publishMembershipChange n) = nID n"
  "Timeout (publishMembershipChange n) = Timeout n"
  by (simp_all add: publishMembershipChange_def)

lemma node_step_inv:
  assumes "node_inv n" and "node_step Parse ev n = (True, n')"
  shows "node_inv n' \<and> nID n' = nID n \<and> Timeout n' = Timeout n"
proof (cases ev)
  case (Beat sid now)
  obtain c n1 where h: "handleHeartbeat Parse now sid n = (c, n1)" by (cases "handleHeartbeat Parse now sid n")
  from frame_inv[OF assms(1) handleHeartbeat_frame[OF h]] handleHeartbeat_frame[OF h] show ?thesis
    using assms(2) Beat h by (auto simp: node_frame_def)
next
  case (Tick pending closed now)
  obtain c1 ok n1 where d: "drainHeartbeats Parse pending closed (sendHeartbeat n) = ((c1, ok), n1)"
    by (metis surj_pair)
  obtain c2 n2 where e: "expireNodes now n1 = (c2, n2)" by (cases "expireNodes now n1")
  have "node_frame n (c1 \<or> c2) n2"
    using node_frame_trans[OF sendHeartbeat_frame node_frame_trans[OF drainHeartbeats_frame[OF d] expireNodes_frame[OF e]]]
    by simp
  moreover from frame_inv[OF assms(1) this]
  have "node_inv (if c1 \<or> c2 then publishMembershipChange n2 else n2)" .
  ultimately show ?thesis using assms(2) Tick d e by (auto simp: node_frame_def split: if_splits)
qed (use assms in simp)

lemma node_loop_inv:
  assumes "node_inv n" and "node_loop Parse evs n = (True, n')"
  shows "node_inv n' \<and> nID n' = nID n \<and> Timeout n' = Timeout n"
  using assms
proof (induction evs arbitrary: n)
  case (Cons ev evs)
  then obtain n1 where "node_step Parse ev n = (True, n1)" "node_loop Parse evs n1 = (True, n')"
    by (auto split: prod.splits bool.splits)
  with Cons node_step_inv[OF Cons.prems(1)] show ?case by fastforce
qed simp

section \<open>Properties of the cluster\<close>

text \<open>A hashing for examples: every node has the same score, so the lower ID wins.\<close>

definition sample_hashing :: hashing where
  "sample_hashing = \<lparr>Hash = (\<lambda>bs. 0), CopyBytes = (\<lambda>u. []), Less = (<)\<rparr>"

lemma sample_hashing_order: "strict_order (Less sample_hashing)"
  by (auto simp: sample_hashing_def strict_order_def)

definition new_node :: "uuid \<Rightarrow> duration \<Rightarrow> node" where
  "new_node u timeout = \<lparr>nID = u, Timeout = timeout, heartbeats = [], nMembership = None, nSent = 0\<rparr>"

lemma new_node_inv [simp]: "node_inv (sendHeartbeat (new_node u timeout))"
  "nID (sendHeartbeat (new_node u timeout)) = u" "Timeout (sendHeartbeat (new_node u timeout)) = timeout"
  by (simp_all add: node_inv_def new_node_def members_def live_def sendHeartbeat_def)

lemma responsible_iff:
  assumes "node_inv n"
  shows "LocalNodeIsResponsibleFor h (nMembership n) w \<longleftrightarrow>
    nID n \<in> live n \<and> (\<forall>p \<in> live n - {nID n}. \<not> outranks h w p (nID n))"
proof (cases "nMembership n")
  case None
  then show ?thesis using assms by (auto simp: LocalNodeIsResponsibleFor_def node_inv_def members_def)
next
  case (Some m)
  then have m: "members (Some m) = live n" "mNodeID m = nID n" "nID n \<notin> set (mPeers m)"
    using assms by (simp_all add: node_inv_def)
  then have "isLive m \<longleftrightarrow> nID n \<in> live n" "live n - {nID n} = set (mPeers m)"
    by (auto simp: members_def split: if_splits)
  then show ?thesis
    using Some m(2) by (simp add: LocalNodeIsResponsibleFor_def beats_peers_iff)
qed


definition sample_parse :: "string \<Rightarrow> uuid option" where
  "sample_parse s = (if s = ''1'' then Some (UUID 0 1) else if s = ''2'' then Some (UUID 0 2) else None)"

definition sample_final :: "uuid \<Rightarrow> node" where
  "sample_final u = snd (node_loop sample_parse [Beat ''2'' 0, Beat ''x'' 0, Beat ''1'' 1] (sendHeartbeat (new_node u 10)))"

lemma sample_final_ok:
  assumes "u \<in> {UUID 0 1, UUID 0 2}"
  shows "node_loop sample_parse [Beat ''2'' 0, Beat ''x'' 0, Beat ''1'' 1] (sendHeartbeat (new_node u 10))
      = (True, sample_final u)" and "live (sample_final u) = {UUID 0 1, UUID 0 2}"
proof -
  let ?run = "\<lambda>u. node_loop sample_parse [Beat ''2'' 0, Beat ''x'' 0, Beat ''1'' 1] (sendHeartbeat (new_node u 10))"
  have "fst (?run (UUID 0 1))" "fst (?run (UUID 0 2))" by code_simp+
  then show "?run u = (True, sample_final u)" using assms by (auto simp: sample_final_def prod_eq_iff)
  have "set (map fst (heartbeats (sample_final (UUID 0 1)))) = {UUID 0 1, UUID 0 2}"
    "set (map fst (heartbeats (sample_final (UUID 0 2)))) = {UUID 0 1, UUID 0 2}" by code_simp+
  then show "live (sample_final u) = {UUID 0 1, UUID 0 2}" using assms unfolding live_def by blast
qed




end
