(* ===== verification/Handling.thy ===== *)
theory Handling
  imports Database
begin

text \<open>
  What every message handler of the engine shares: transactions that a handler uses one
  statement at a time (\<open>internal/x/xsql\<close>), calls of application code whose panics are
  recovered (\<open>internal/x/xerrors\<close>), unpacking of messages (\<open>internal/x/xmessage\<close>), and the
  packing of the messages that a handler produces.

  A transaction carries the tables as its statements have left them so far.  Each statement
  consumes one entry of \<open>Faults\<close>: with an error it fails, and PostgreSQL then refuses every
  further statement of the transaction, and its commit.  A Go function that runs within a transaction may
  also return an error of its own, which leaves the transaction intact; whether its
  statements are committed is up to the caller.

  The messages and handlers belong to the application, the packer to
  \<open>github.com/dogmatiq/enginekit/envelope\<close>, and the binary form of envelopes to
  \<open>envelopepb\<close>; they are parameters.
\<close>

named_theorems tx_simps \<open>equations of functions within a transaction\<close>

section \<open>Transactions\<close>

record txn =
  Db :: db
  Faults :: "err option list"
  Broken :: bool

definition start :: "err option list \<Rightarrow> db \<Rightarrow> txn" where
  "start faults d = \<lparr>Db = d, Faults = faults, Broken = False\<rparr>"

type_synonym 'a tx = "txn \<Rightarrow> (err + 'a) go \<times> txn"

definition tx_return :: "'a \<Rightarrow> 'a tx" where
  "tx_return a s = (Ret (Inr a), s)"

definition tx_throw :: "err \<Rightarrow> 'a tx" where
  "tx_throw e s = (Ret (Inl e), s)"

text \<open>A call of code that does not use the transaction.\<close>

definition tx_call :: "(err + 'a) go \<Rightarrow> 'a tx" where
  "tx_call r s = (r, s)"

definition tx_bind :: "'a tx \<Rightarrow> ('a \<Rightarrow> 'b tx) \<Rightarrow> 'b tx" where
  "tx_bind m f s = (case m s of
     (Ret (Inr a), s') \<Rightarrow> f a s'
   | (Ret (Inl e), s') \<Rightarrow> (Ret (Inl e), s')
   | (Panic msg, s') \<Rightarrow> (Panic msg, s')
   | (Running, s') \<Rightarrow> (Running, s'))"

text \<open>A statement, and how the caller wraps its error.\<close>

definition exec :: "(err \<Rightarrow> err) \<Rightarrow> 'a sql \<Rightarrow> 'a tx" where
  "exec wrap m s =
     (if Broken s then (Ret (Inl (wrap (New ''current transaction is aborted''))), s)
      else (case Faults s of
        Some e # rest \<Rightarrow> (Ret (Inl (wrap e)), s\<lparr>Faults := rest, Broken := True\<rparr>)
      | _ \<Rightarrow> (case m (Db s) of
          Inl e \<Rightarrow> (Ret (Inl (wrap e)), s\<lparr>Faults := tl (Faults s), Broken := True\<rparr>)
        | Inr (a, d) \<Rightarrow> (Ret (Inr a), s\<lparr>Db := d, Faults := tl (Faults s)\<rparr>))))"

definition wrapf :: "string \<Rightarrow> err \<Rightarrow> err" where
  "wrapf format e = Errorf format [e]"

text \<open>An \<open>error\<close> that the caller wraps once more.\<close>

definition tx_wrap :: "(err \<Rightarrow> err) \<Rightarrow> 'a tx \<Rightarrow> 'a tx" where
  "tx_wrap wrap m s = (case m s of (Ret (Inl e), s') \<Rightarrow> (Ret (Inl (wrap e)), s') | r \<Rightarrow> r)"

text \<open>\<open>xsql.ExecOne\<close>: a statement that reports how many rows it affected, which must be one.\<close>

definition ExecOne :: "nat sql \<Rightarrow> unit tx" where
  "ExecOne m = tx_bind (exec (wrapf ''unable to execute query'') m) (\<lambda>n.
     if n \<noteq> 1 then tx_throw (New ''expected exactly one row to be affected'') else tx_return ())"

text \<open>\<open>Tx.Commit\<close>, which fails on a broken transaction; a failed commit may have been applied.\<close>

record commit_env =
  cErr :: "err option"
  cApplied :: bool

definition Commit :: "commit_env \<Rightarrow> txn \<Rightarrow> db \<Rightarrow> err option \<times> db" where
  "Commit env s d =
     (if Broken s then (Some (New ''commit unexpectedly resulted in rollback''), d)
      else (case cErr env of None \<Rightarrow> (None, Db s) | Some e \<Rightarrow> (Some e, if cApplied env then Db s else d)))"

text \<open>\<open>xsql.Transact\<close> of a function within a transaction; a panic rolls the transaction back on its way.\<close>

definition Transact_tx :: "tx_env \<Rightarrow> err option list \<Rightarrow> 'a tx \<Rightarrow> db \<Rightarrow> (err + 'a) go \<times> db" where
  "Transact_tx env faults fn d =
     (case BeginErr env of
        Some e \<Rightarrow> (Ret (Inl (override env (Errorf ''unable to begin transaction'' [e]))), d)
      | None \<Rightarrow>
          (case fn (start faults d) of
             (Panic m, s) \<Rightarrow> (Panic m, d)
           | (Running, s) \<Rightarrow> (Running, d)
           | (Ret (Inl e), s) \<Rightarrow> (Ret (Inl (override env e)), d)
           | (Ret (Inr a), s) \<Rightarrow>
               (case Commit \<lparr>cErr = CommitErr env, cApplied = CommitApplied env\<rparr> s d of
                  (Some e, d') \<Rightarrow> (Ret (Inl (override env (Errorf ''unable to commit transaction'' [e]))), d')
                | (None, d') \<Rightarrow> (Ret (Inr a), d'))))"

lemma tx_return_eq [tx_simps]: "tx_return a s = (Ret (Inr b), s') \<longleftrightarrow> a = b \<and> s = s'"
  "tx_return a s = (Ret (Inl e), s') \<longleftrightarrow> False"
  by (auto simp: tx_return_def)

lemma tx_throw_eq [tx_simps]: "tx_throw e s = (Ret (Inr b), s') \<longleftrightarrow> False"
  "tx_throw e s = (Ret (Inl e'), s') \<longleftrightarrow> e = e' \<and> s = s'"
  by (auto simp: tx_throw_def)

lemma tx_call_eq [tx_simps]: "tx_call r s = (x, s') \<longleftrightarrow> r = x \<and> s = s'"
  by (auto simp: tx_call_def)

lemma tx_bind_Inr [tx_simps]:
  "tx_bind m f s = (Ret (Inr b), s') \<longleftrightarrow> (\<exists>a s1. m s = (Ret (Inr a), s1) \<and> f a s1 = (Ret (Inr b), s'))"
  by (auto simp: tx_bind_def split: prod.splits go.splits sum.splits)

lemma tx_bind_Inl [tx_simps]:
  "tx_bind m f s = (Ret (Inl e), s') \<longleftrightarrow> m s = (Ret (Inl e), s')
     \<or> (\<exists>a s1. m s = (Ret (Inr a), s1) \<and> f a s1 = (Ret (Inl e), s'))"
  by (auto simp: tx_bind_def split: prod.splits go.splits sum.splits)

lemma exec_Inr [tx_simps]:
  "exec wrap m s = (Ret (Inr a), s') \<longleftrightarrow> \<not> Broken s \<and> (Faults s = [] \<or> hd (Faults s) = None)
     \<and> (\<exists>d. m (Db s) = Inr (a, d) \<and> s' = s\<lparr>Db := d, Faults := tl (Faults s)\<rparr>)"
  by (auto simp: exec_def split: list.splits option.splits sum.splits)

lemma exec_Inl:
  "exec wrap m s = (Ret (Inl e), s') \<Longrightarrow> Broken s' \<and> (\<exists>e'. e = wrap e')"
  by (auto simp: exec_def split: list.splits option.splits sum.splits if_splits)

lemma exec_ok [simp]:
  "exec wrap m (start [] d) = (case m d of Inl e \<Rightarrow> (Ret (Inl (wrap e)), (start [] d)\<lparr>Broken := True\<rparr>)
     | Inr (a, d') \<Rightarrow> (Ret (Inr a), start [] d'))"
  by (simp add: exec_def start_def split: sum.splits prod.splits)

lemma tx_wrap_Inr [tx_simps]: "tx_wrap wrap m s = (Ret (Inr a), s') \<longleftrightarrow> m s = (Ret (Inr a), s')"
  by (auto simp: tx_wrap_def split: prod.splits go.splits sum.splits)

lemma tx_wrap_Inl [tx_simps]:
  "tx_wrap wrap m s = (Ret (Inl e), s') \<longleftrightarrow> (\<exists>e'. m s = (Ret (Inl e'), s') \<and> e = wrap e')"
  by (auto simp: tx_wrap_def split: prod.splits go.splits sum.splits)

lemma ExecOne_Inr [tx_simps]:
  "ExecOne m s = (Ret (Inr u), s') \<longleftrightarrow> \<not> Broken s \<and> (Faults s = [] \<or> hd (Faults s) = None)
     \<and> (\<exists>d. m (Db s) = Inr (1, d) \<and> s' = s\<lparr>Db := d, Faults := tl (Faults s)\<rparr>)"
  unfolding ExecOne_def tx_bind_Inr exec_Inr by (auto simp: tx_simps)

lemma Commit_cases:
  assumes "Commit env s d = (e, d')"
  obtains (committed) "e = None" "d' = Db s" | (failed) x where "e = Some x" "d' = d" | (unknown) x where "e = Some x" "d' = Db s"
  using assms by (cases "Broken s"; cases "cErr env") (fastforce simp: Commit_def split: if_splits)+

lemma Transact_tx_cases:
  assumes "Transact_tx env faults fn d = (r, d')"
  obtains (rolled_back) "d' = d" "\<And>a. r \<noteq> Ret (Inr a)"
    | (unknown) a s e where "r = Ret (Inl e)" "fn (start faults d) = (Ret (Inr a), s)" "d' = Db s" "\<not> Broken s"
    | (committed) a s where "r = Ret (Inr a)" "fn (start faults d) = (Ret (Inr a), s)" "d' = Db s" "\<not> Broken s"
  using assms
  by (cases "BeginErr env"; cases "fn (start faults d)")
    (fastforce simp: Transact_tx_def Commit_def split: go.splits sum.splits option.splits if_splits)+

section \<open>What transactions keep\<close>

text \<open>
  \<open>tx_keeps R m\<close>: unless it breaks the transaction, \<open>m\<close> relates the tables before and after by \<open>R\<close>.
  \<open>tx_defers R m\<close> says so only of the runs in which \<open>m\<close> returns an error.
\<close>

named_theorems frame_rules \<open>what functions within a transaction keep\<close>
named_theorems defer_rules \<open>what functions within a transaction keep when they return an error\<close>

definition tx_keeps :: "(db \<Rightarrow> db \<Rightarrow> bool) \<Rightarrow> 'a tx \<Rightarrow> bool" where
  "tx_keeps R m \<longleftrightarrow> (\<forall>s r s'. m s = (r, s') \<longrightarrow> (Broken s \<longrightarrow> Broken s') \<and> (\<not> Broken s' \<longrightarrow> R (Db s) (Db s'))
     \<and> (\<not> Broken s \<longrightarrow> (\<exists>a. r = Ret (Inr a)) \<longrightarrow> \<not> Broken s'))"

definition tx_defers :: "(db \<Rightarrow> db \<Rightarrow> bool) \<Rightarrow> 'a tx \<Rightarrow> bool" where
  "tx_defers R m \<longleftrightarrow> (\<forall>s e s'. m s = (Ret (Inl e), s') \<longrightarrow> \<not> Broken s' \<longrightarrow> \<not> Broken s \<and> R (Db s) (Db s'))"

lemma tx_keepsD: "tx_keeps R m \<Longrightarrow> m s = (r, s') \<Longrightarrow> \<not> Broken s' \<Longrightarrow> \<not> Broken s \<and> R (Db s) (Db s')"
  unfolding tx_keeps_def by blast

lemma tx_keeps_Inr:
  "tx_keeps R m \<Longrightarrow> m s = (Ret (Inr a), s') \<Longrightarrow> \<not> Broken s \<Longrightarrow> \<not> Broken s' \<and> R (Db s) (Db s')"
  unfolding tx_keeps_def by blast

lemma tx_defersD: "tx_defers R m \<Longrightarrow> m s = (Ret (Inl e), s') \<Longrightarrow> \<not> Broken s' \<Longrightarrow> \<not> Broken s \<and> R (Db s) (Db s')"
  unfolding tx_defers_def by blast

lemma keeps_return [frame_rules]: "reflp R \<Longrightarrow> tx_keeps R (tx_return a)"
  and keeps_throw [frame_rules]: "reflp R \<Longrightarrow> tx_keeps R (tx_throw e)"
  and keeps_call [frame_rules]: "reflp R \<Longrightarrow> tx_keeps R (tx_call r)"
  by (auto simp: tx_keeps_def tx_return_def tx_throw_def tx_call_def reflp_def)

lemma keeps_exec [frame_rules]:
  "(\<And>d a d'. m d = Inr (a, d') \<Longrightarrow> R d d') \<Longrightarrow> tx_keeps R (exec wrap m)"
  by (auto simp: tx_keeps_def exec_def split: if_splits list.splits option.splits sum.splits)

lemma keeps_bind [frame_rules]:
  assumes "transp R" and "tx_keeps R m" and "\<And>a. tx_keeps R (f a)"
  shows "tx_keeps R (tx_bind m f)"
  unfolding tx_keeps_def
proof (intro allI impI)
  fix s r s'
  assume b: "tx_bind m f s = (r, s')"
  obtain x s1 where x: "m s = (x, s1)" by fastforce
  note m = assms(2)[unfolded tx_keeps_def, rule_format, OF x]
  show "(Broken s \<longrightarrow> Broken s') \<and> (\<not> Broken s' \<longrightarrow> R (Db s) (Db s'))
      \<and> (\<not> Broken s \<longrightarrow> (\<exists>a. r = Ret (Inr a)) \<longrightarrow> \<not> Broken s')"
  proof (cases "\<exists>a. x = Ret (Inr a)")
    case True
    then obtain a where a: "x = Ret (Inr a)" "f a s1 = (r, s')" using b x by (auto simp: tx_bind_def)
    from assms(3)[unfolded tx_keeps_def, rule_format, OF a(2)] m a(1) show ?thesis
      using transpD[OF assms(1)] by blast
  next
    case False
    then have "s' = s1" "\<nexists>a. r = Ret (Inr a)" using b x by (auto simp: tx_bind_def split: go.splits sum.splits)
    then show ?thesis using m by blast
  qed
qed

lemma keeps_wrap [frame_rules]: "tx_keeps R m \<Longrightarrow> tx_keeps R (tx_wrap wrap m)"
  unfolding tx_keeps_def tx_wrap_def by (fastforce split: prod.splits go.splits sum.splits)

lemma keeps_ExecOne [frame_rules]:
  "reflp R \<Longrightarrow> transp R \<Longrightarrow> (\<And>d n d'. m d = Inr (n, d') \<Longrightarrow> R d d') \<Longrightarrow> tx_keeps R (ExecOne m)"
  unfolding ExecOne_def by (intro frame_rules) (auto intro: frame_rules)

lemma keeps_if [frame_rules]: "(b \<Longrightarrow> tx_keeps R m) \<Longrightarrow> (\<not> b \<Longrightarrow> tx_keeps R m') \<Longrightarrow> tx_keeps R (if b then m else m')"
  by simp

lemma keeps_prod [frame_rules]: "(\<And>x y. tx_keeps R (f x y)) \<Longrightarrow> tx_keeps R (case p of (x, y) \<Rightarrow> f x y)"
  by (cases p) simp

lemma keeps_option [frame_rules]:
  "tx_keeps R m \<Longrightarrow> (\<And>x. tx_keeps R (f x)) \<Longrightarrow> tx_keeps R (case p of None \<Rightarrow> m | Some x \<Rightarrow> f x)"
  by (cases p) simp_all

lemma keeps_mono: "tx_keeps R m \<Longrightarrow> (\<And>d d'. R d d' \<Longrightarrow> R' d d') \<Longrightarrow> tx_keeps R' m"
  unfolding tx_keeps_def by blast

lemma keeps_defers: "tx_keeps R m \<Longrightarrow> tx_defers R m"
  unfolding tx_keeps_def tx_defers_def by blast

lemma defers_prod [defer_rules]: "(\<And>x y. tx_defers R (f x y)) \<Longrightarrow> tx_defers R (case p of (x, y) \<Rightarrow> f x y)"
  by (cases p) simp

lemma defers_option [defer_rules]:
  "tx_defers R m \<Longrightarrow> (\<And>x. tx_defers R (f x)) \<Longrightarrow> tx_defers R (case p of None \<Rightarrow> m | Some x \<Rightarrow> f x)"
  by (cases p) simp_all

lemma defers_if [defer_rules]: "(b \<Longrightarrow> tx_defers R m) \<Longrightarrow> (\<not> b \<Longrightarrow> tx_defers R m') \<Longrightarrow> tx_defers R (if b then m else m')"
  by simp

lemma defers_exec [defer_rules]: "tx_defers R (exec wrap m)"
  unfolding tx_defers_def using exec_Inl by blast

lemma defers_bind [defer_rules]:
  assumes "transp R" and "tx_keeps R m" and "\<And>a. tx_defers R (f a)"
  shows "tx_defers R (tx_bind m f)"
  unfolding tx_defers_def
proof (intro allI impI)
  fix s e s'
  assume b: "tx_bind m f s = (Ret (Inl e), s')" and nb: "\<not> Broken s'"
  show "\<not> Broken s \<and> R (Db s) (Db s')"
    using b unfolding tx_bind_Inl
  proof (elim disjE exE conjE)
    assume "m s = (Ret (Inl e), s')"
    then show ?thesis using tx_keepsD[OF assms(2)] nb by blast
  next
    fix a s1
    assume a: "m s = (Ret (Inr a), s1)" "f a s1 = (Ret (Inl e), s')"
    have s1: "\<not> Broken s1" "R (Db s1) (Db s')" using tx_defersD[OF assms(3) a(2) nb] by auto
    then show ?thesis using tx_keepsD[OF assms(2) a(1)] assms(1) by (auto dest: transpD)
  qed
qed

section \<open>Errors as results\<close>

text \<open>Calls that return an error, or a value; and calls that return only an error.\<close>

definition go_try :: "(err + 'a) go \<Rightarrow> ('a \<Rightarrow> (err + 'b) go) \<Rightarrow> (err + 'b) go" where
  "go_try m f = (case m of Ret (Inr a) \<Rightarrow> f a | Ret (Inl e) \<Rightarrow> Ret (Inl e) | Panic msg \<Rightarrow> Panic msg | Running \<Rightarrow> Running)"

definition go_check :: "err option go \<Rightarrow> (err + 'b) go \<Rightarrow> (err + 'b) go" where
  "go_check m f = (case m of Ret None \<Rightarrow> f | Ret (Some e) \<Rightarrow> Ret (Inl e) | Panic msg \<Rightarrow> Panic msg | Running \<Rightarrow> Running)"

lemma go_try_Inr [go_simps]: "go_try m f = Ret (Inr b) \<longleftrightarrow> (\<exists>a. m = Ret (Inr a) \<and> f a = Ret (Inr b))"
  by (auto simp: go_try_def split: go.splits sum.splits)

lemma go_try_assoc: "go_try (go_try m f) g = go_try m (\<lambda>x. go_try (f x) g)"
  by (simp add: go_try_def split: go.splits sum.splits)

lemma go_check_Inr [go_simps]: "go_check m f = Ret (Inr b) \<longleftrightarrow> m = Ret None \<and> f = Ret (Inr b)"
  by (auto simp: go_check_def split: go.splits option.splits)

section \<open>Recovering from panics\<close>

text \<open>
  \<open>xerrors.Recover\<close>: \<open>stack\<close> are the frames from \<open>Recover\<close> down to the start of the goroutine,
  \<open>user\<close> those of the application code that panics, between it and the closure \<open>fn\<close>.  At most 128 frames
  are captured.
\<close>

definition captureStack :: "nat \<Rightarrow> string list \<Rightarrow> string list" where
  "captureStack depth pcs =
     (let n = int (min 128 (length pcs)) - (int depth + 1) in if n \<le> 0 then [] else take (nat n) pcs)"

definition Recover :: "string list \<Rightarrow> string list \<Rightarrow> err option go \<Rightarrow> err option go" where
  "Recover stack user fn = (let depth = min 128 (length stack) in case fn of
     Panic m \<Rightarrow> if captureStack depth (user @ [''fn''] @ stack) = [] then Panic m else Ret (Some (PanicError m None))
   | _ \<Rightarrow> fn)"

definition RecoverT :: "string list \<Rightarrow> string list \<Rightarrow> (err + 'a) go \<Rightarrow> (err + 'a) go" where
  "RecoverT stack user fn =
     (case Recover stack user (case fn of Ret (Inl e) \<Rightarrow> Ret (Some e) | Ret (Inr v) \<Rightarrow> Ret None
         | Panic m \<Rightarrow> Panic m | Running \<Rightarrow> Running) of
        Ret (Some e) \<Rightarrow> Ret (Inl e)
      | Ret None \<Rightarrow> fn
      | Panic m \<Rightarrow> Panic m
      | Running \<Rightarrow> Running)"

text \<open>
  The engine's closures only call application code, so that the panicking code has frames of
  its own, and its goroutines are far shallower than 128 frames: every panic is recovered.
\<close>

definition caught :: "(err + 'a) go \<Rightarrow> (err + 'a) go" where
  "caught fn = (case fn of Panic m \<Rightarrow> Ret (Inl (PanicError m None)) | _ \<Rightarrow> fn)"

lemma captureStack_empty:
  "length stack \<le> 126 \<Longrightarrow> captureStack (min 128 (length stack)) (user @ [''fn''] @ stack) = [] \<longleftrightarrow> user = []"
  by (cases user) (auto simp: captureStack_def Let_def min_def)

lemma RecoverT_caught:
  assumes "length stack \<le> 126" and "user \<noteq> []"
  shows "RecoverT stack user fn = caught fn"
  using assms captureStack_empty[of stack user]
  by (auto simp: RecoverT_def Recover_def caught_def Let_def split: go.splits sum.splits)

lemma caught_simps [simp]:
  "caught (Ret r) = Ret r" "caught (Panic m) = Ret (Inl (PanicError m None))" "caught Running = Running"
  "caught fn \<noteq> Panic m"
  by (auto simp: caught_def split: go.splits)

lemma caught_Inr [tx_simps]: "caught fn = Ret (Inr a) \<longleftrightarrow> fn = Ret (Inr a)"
  by (auto simp: caught_def split: go.splits)

text \<open>An error that the caller logs, and reports as \<open>ErrFailed\<close>.\<close>

definition failed :: "(err + 'a) go \<Rightarrow> (err + 'a) go" where
  "failed r = (case r of Ret (Inl e) \<Rightarrow> Ret (Inl (Sentinel ErrFailed)) | _ \<Rightarrow> r)"

definition go_value :: "'a go \<Rightarrow> (err + 'a) go" where
  "go_value r = go_bind r (\<lambda>a. Ret (Inr a))"

lemma failed_Inr [tx_simps]: "failed r = Ret (Inr a) \<longleftrightarrow> r = Ret (Inr a)"
  by (auto simp: failed_def split: go.splits sum.splits)

lemma go_value_Inr [tx_simps]: "go_value r = Ret (Inr a) \<longleftrightarrow> r = Ret a"
  by (auto simp: go_value_def go_simps)

section \<open>Unpacking messages\<close>

record validation_scope =
  IsNewMessage :: bool
  vEnvelope :: envelope

definition IsNew :: "validation_scope \<Rightarrow> bool" where "IsNew s = IsNewMessage s"

definition ExecutedAt :: "validation_scope \<Rightarrow> time" where "ExecutedAt s = CreatedAt (Body (vEnvelope s))"

definition RecordedAt :: "validation_scope \<Rightarrow> time" where "RecordedAt s = CreatedAt (Body (vEnvelope s))"

definition ScheduledAt :: "validation_scope \<Rightarrow> time" where "ScheduledAt s = CreatedAt (Body (vEnvelope s))"

definition ScheduledForTime :: "validation_scope \<Rightarrow> time" where
  "ScheduledForTime s = ScheduledFor (Body (vEnvelope s))"

text \<open>
  What the engine calls of the application's messages, of type \<open>'m\<close>: \<open>Unpack\<close> is
  \<open>envelope.Unpack\<close>, and \<open>TypeOf\<close> is \<open>reflect.TypeOf\<close>.  The first four may run code of the application.
\<close>

record 'm message_api =
  Unpack_message :: "envelope \<Rightarrow> (err + 'm) go"
  Validate :: "'m \<Rightarrow> validation_scope \<Rightarrow> err option go"
  MessageDescription :: "'m \<Rightarrow> string go"
  TypeOf :: "'m \<Rightarrow> string"

text \<open>The loop of \<open>UnpackMessage\<close> over its destinations, from index \<open>idx\<close>.\<close>

fun unpack_loop :: "'m message_api \<Rightarrow> envelope \<Rightarrow> nat \<Rightarrow> nat \<Rightarrow> (err + 'm list) go" where
  "unpack_loop api env idx 0 = Ret (Inr [])"
| "unpack_loop api env idx (Suc n) =
     go_try (Unpack_message api env) (\<lambda>m.
     go_check (if idx = 0 then Validate api m \<lparr>IsNewMessage = False, vEnvelope = env\<rparr> else Ret None) (
     go_try (unpack_loop api env (idx + 1) n) (\<lambda>ms. Ret (Inr (m # ms)))))"

definition UnpackMessage :: "'m message_api \<Rightarrow> envelope \<Rightarrow> nat \<Rightarrow> (err + 'm list) go" where
  "UnpackMessage api env n = caught (unpack_loop api env 0 n)"

record envelope_api =
  UnmarshalBinary :: "bytes \<Rightarrow> err + envelope"
  MarshalBinary :: "envelope \<Rightarrow> err + bytes"
  ValidateEnvelope :: "envelope \<Rightarrow> err option"

definition Unpack :: "envelope_api \<Rightarrow> 'm message_api \<Rightarrow> bytes \<Rightarrow> nat \<Rightarrow> (err + 'm list) go" where
  "Unpack eapi api data n = (case UnmarshalBinary eapi data of
     Inl e \<Rightarrow> Ret (Inl (Errorf ''unable to unmarshal envelope'' [e]))
   | Inr env \<Rightarrow> (case ValidateEnvelope eapi env of
       Some e \<Rightarrow> Ret (Inl e)
     | None \<Rightarrow> UnpackMessage api env n))"

lemma unpack_loop_Inr:
  "unpack_loop api env idx n = Ret (Inr ms) \<Longrightarrow>
     (\<exists>m. ms = replicate n m \<and> (0 < n \<longrightarrow> Unpack_message api env = Ret (Inr m)
        \<and> (idx = 0 \<longrightarrow> Validate api m \<lparr>IsNewMessage = False, vEnvelope = env\<rparr> = Ret None)))"
proof (induction n arbitrary: idx ms)
  case (Suc n)
  then obtain m ms' where m: "Unpack_message api env = Ret (Inr m)" "ms = m # ms'"
    "idx = 0 \<longrightarrow> Validate api m \<lparr>IsNewMessage = False, vEnvelope = env\<rparr> = Ret None"
    "unpack_loop api env (idx + 1) n = Ret (Inr ms')"
    by (auto simp: go_simps split: if_splits)
  from Suc.IH[OF m(4)] m show ?case by (cases n) auto
qed simp

text \<open>
  Unpacking into several destinations gives each the same message, which is valid.
\<close>

lemma UnpackMessage_Inr:
  assumes "UnpackMessage api env (Suc n) = Ret (Inr ms)"
  shows "\<exists>m. ms = replicate (Suc n) m \<and> Unpack_message api env = Ret (Inr m)
    \<and> Validate api m \<lparr>IsNewMessage = False, vEnvelope = env\<rparr> = Ret None"
  using unpack_loop_Inr[of api env 0 "Suc n" ms] assms
  by (auto simp: UnpackMessage_def tx_simps simp del: unpack_loop.simps)

lemma UnpackMessage_no_panic [simp]: "UnpackMessage api env n \<noteq> Panic m"
  by (simp add: UnpackMessage_def)

section \<open>Packing messages\<close>

text \<open>
  An \<open>envelope.EffectPacker\<close>, of type \<open>'p\<close>: \<open>PackEffects\<close> makes one for the effects of handling
  an envelope, \<open>Pack\<close> is \<open>PackEvent\<close>, \<open>PackCommand\<close> or \<open>PackDeadline\<close> (with the time the deadline is
  scheduled for), and \<open>Seal\<close> returns the correlation ID and the envelopes of the effects, or nothing if there are none.
\<close>

record ('p, 'm) packer_api =
  PackEffects :: "envelope \<Rightarrow> uuid \<Rightarrow> string \<Rightarrow> 'p"
  Pack :: "'m \<Rightarrow> time option \<Rightarrow> 'p \<Rightarrow> envelope \<times> 'p"
  Seal :: "'p \<Rightarrow> (uuid \<times> envelope list) option"

text \<open>What the engine relies on: \<open>contents\<close> are the envelopes packed so far, which \<open>Seal\<close> returns in order.\<close>

definition packer_laws :: "('p, 'm) packer_api \<Rightarrow> ('p \<Rightarrow> envelope list) \<Rightarrow> bool" where
  "packer_laws api contents \<longleftrightarrow>
     (\<forall>env key inst. contents (PackEffects api env key inst) = [])
   \<and> (\<forall>m t p. contents (snd (Pack api m t p)) = contents p @ [fst (Pack api m t p)])
   \<and> (\<forall>p. case Seal api p of None \<Rightarrow> contents p = [] | Some (corr, envs) \<Rightarrow> envs \<noteq> [] \<and> envs = contents p)"

lemma packer_lawsD:
  assumes "packer_laws api contents"
  shows "contents (PackEffects api env key inst) = []"
    and "Pack api m t p = (x, p') \<Longrightarrow> contents p' = contents p @ [x]"
    and "Seal api p = None \<longleftrightarrow> contents p = []"
    and "Seal api p = Some (corr, envs) \<Longrightarrow> envs = contents p \<and> envs \<noteq> []"
proof -
  show "contents (PackEffects api env key inst) = []" using assms by (simp add: packer_laws_def)
  show "Pack api m t p = (x, p') \<Longrightarrow> contents p' = contents p @ [x]"
    using assms unfolding packer_laws_def by (metis fst_conv snd_conv)
  show "Seal api p = None \<longleftrightarrow> contents p = []"
    using assms unfolding packer_laws_def by (elim conjE allE[of _ p]) (auto split: option.splits)
  show "Seal api p = Some (corr, envs) \<Longrightarrow> envs = contents p \<and> envs \<noteq> []"
    using assms by (auto simp: packer_laws_def split: option.splits)
qed

text \<open>The row that an envelope has as an element of an \<open>eventstream.event[]\<close>.\<close>

fun sql_events :: "envelope_api \<Rightarrow> envelope list \<Rightarrow> err + sql_event list" where
  "sql_events api [] = Inr []"
| "sql_events api (env # envs) = (case MarshalBinary api env of
     Inl e \<Rightarrow> Inl e
   | Inr data \<Rightarrow> (case sql_events api envs of
       Inl e \<Rightarrow> Inl e
     | Inr rows \<Rightarrow> Inr (\<lparr>sqlMessageID = MessageId (Body env), sqlTypeID = TypeId (Body env), sqlEnvelope = data\<rparr> # rows)))"

lemma sql_events_Inr:
  "sql_events api envs = Inr rows \<Longrightarrow> map sqlMessageID rows = map (MessageId \<circ> Body) envs
     \<and> map (\<lambda>r. Inr (sqlEnvelope r)) rows = map (MarshalBinary api) envs"
  by (induction envs arbitrary: rows) (auto split: sum.splits)

end
