(* ===== verification/MessagePump.thy ===== *)
theory MessagePump
  imports Handling Supervisor
begin

text \<open>
  The message pump (\<open>internal/messagepump\<close>), which acquires deliveries from a queue and
  handles them concurrently, each within its own transaction.

  A driver is what the pump calls to acquire, postpone and handle deliveries; the locale
  \<open>message_driver\<close> is the contract that the pump relies on, stated over the queue that the driver
  works on.  Each delivery is acquired with \<open>FOR UPDATE SKIP LOCKED\<close>, so its row is locked until its
  transaction ends; \<open>pump_step\<close> is the interleaving of the dispatcher, the workers and everybody
  else who uses the tables but not the locked rows.
\<close>

section \<open>Drivers\<close>

record delivery =
  MessageID :: uuid
  MessageTypeID :: uuid
  EnvelopeBytes :: bytes
  Failures :: u64

record driver =
  AcquireDelivery :: "delivery option tx"
  PostponeDelivery :: "delivery \<Rightarrow> duration \<Rightarrow> unit tx"
  HandleDelivery :: "delivery \<Rightarrow> envelope \<Rightarrow> unit tx"

text \<open>
  What a driver sees of its surroundings: the time, the rows that other transactions have
  locked, and the order in which PostgreSQL returns rows that are due at the same time.
\<close>

record lock_env =
  lNow :: time
  lIDs :: "uuid set"
  lInstances :: "(uuid \<times> string) set"
  lTie :: "uuid \<Rightarrow> nat"

section \<open>The command queue\<close>

definition command_delivery :: "command_row \<Rightarrow> delivery" where
  "command_delivery c = \<lparr>MessageID = cMessageID c, MessageTypeID = cTypeID c,
     EnvelopeBytes = cEnvelope c, Failures = cFailures c\<rparr>"

definition AcquireCommandDelivery :: "lock_env \<Rightarrow> uuid set \<Rightarrow> delivery option tx" where
  "AcquireCommandDelivery l messageTypeIDs = exec (wrapf ''unable to scan pending command'') (\<lambda>d.
     case sort_key (\<lambda>c. (cDeliverAt c, lTie l (cMessageID c)))
         (filter (\<lambda>c. cTypeID c \<in> messageTypeIDs \<and> cDeliverAt c \<le> lNow l \<and> cMessageID c \<notin> lIDs l) (commands d)) of
       [] \<Rightarrow> Inr (None, d)
     | c # _ \<Rightarrow> Inr (Some (command_delivery c), d))"

definition postpone_command :: "uuid \<Rightarrow> u64 \<Rightarrow> time \<Rightarrow> nat sql" where
  "postpone_command mid failures at d =
     (if unat failures \<ge> 2 ^ 31 then Inl (New ''integer out of range'')
      else Inr (length (filter (\<lambda>c. cMessageID c = mid) (commands d)),
        d\<lparr>commands := map (\<lambda>c. if cMessageID c = mid then c\<lparr>cFailures := failures, cDeliverAt := at\<rparr> else c) (commands d)\<rparr>))"

lemma postpone_command_code [code]:
  "postpone_command mid failures at d =
     (if uint failures \<ge> 2 ^ 31 then Inl (New ''integer out of range'')
      else Inr (length (filter (\<lambda>c. cMessageID c = mid) (commands d)),
        d\<lparr>commands := map (\<lambda>c. if cMessageID c = mid then c\<lparr>cFailures := failures, cDeliverAt := at\<rparr> else c) (commands d)\<rparr>))"
  using unat_add_ge[of 31 failures 0] by (simp add: postpone_command_def)

definition PostponeCommandDelivery :: "lock_env \<Rightarrow> delivery \<Rightarrow> duration \<Rightarrow> unit tx" where
  "PostponeCommandDelivery l del delay = tx_wrap (wrapf ''unable to postpone queued command'')
     (ExecOne (postpone_command (MessageID del) (Failures del) (lNow l + delay)))"

section \<open>The pump\<close>

record pump =
  BackoffBase :: duration
  BackoffCap :: duration

definition computeBackoff :: "(int \<Rightarrow> int) \<Rightarrow> pump \<Rightarrow> u64 \<Rightarrow> duration go" where
  "computeBackoff random p n =
     (if BackoffBase p \<le> 0 \<or> BackoffCap p \<le> BackoffBase p then Ret (BackoffBase p)
      else (let shifted = wrap64 (BackoffBase p * 2 ^ unat n);
                limit = (if shifted \<le> 0 \<or> shifted > BackoffCap p then BackoffCap p else shifted)
            in go_bind (rand_N random (wrap64 (limit - BackoffBase p))) (\<lambda>r. Ret (wrap64 (BackoffBase p + r)))))"

text \<open>The surroundings of one delivery, from \<open>BeginTx\<close> to \<open>Commit\<close>.\<close>

record pump_env =
  pBegin :: "err option"
  pLocks :: lock_env
  pFaults :: "err option list"
  pRand :: "int \<Rightarrow> int"
  pCommit :: commit_env

definition doAcquireDelivery :: "(lock_env \<Rightarrow> driver) \<Rightarrow> pump_env \<Rightarrow> db \<Rightarrow> (err + (delivery \<times> txn) option) go \<times> db" where
  "doAcquireDelivery mk env d = (case pBegin env of
     Some e \<Rightarrow> (Ret (Inl (Errorf ''unable to begin transaction'' [e])), d)
   | None \<Rightarrow> (case AcquireDelivery (mk (pLocks env)) (start (pFaults env) d) of
       (Ret (Inl e), s) \<Rightarrow> (Ret (Inl (Errorf ''unable to acquire delivery'' [e])), d)
     | (Ret (Inr None), s) \<Rightarrow> (case Commit (pCommit env) s d of
         (Some e, d') \<Rightarrow> (Ret (Inl (Errorf ''unable to commit transaction'' [e])), d')
       | (None, d') \<Rightarrow> (Ret (Inr None), d'))
     | (Ret (Inr (Some del)), s) \<Rightarrow> (Ret (Inr (Some (del, s))), d)
     | (Panic m, s) \<Rightarrow> (Panic m, d)
     | (Running, s) \<Rightarrow> (Running, d)))"

definition unmarshal_valid :: "envelope_api \<Rightarrow> bytes \<Rightarrow> err + envelope" where
  "unmarshal_valid eapi data = (case UnmarshalBinary eapi data of
     Inl e \<Rightarrow> Inl e
   | Inr env \<Rightarrow> (case ValidateEnvelope eapi env of Some e \<Rightarrow> Inl e | None \<Rightarrow> Inr env))"

text \<open>The transaction's end after \<open>PostponeDelivery\<close>, or after the delivery was handled.\<close>

definition commit_task :: "commit_env \<Rightarrow> txn \<Rightarrow> db \<Rightarrow> err option go \<times> db" where
  "commit_task c s d = (case Commit c s d of
     (None, d') \<Rightarrow> (Ret None, d')
   | (Some e, d') \<Rightarrow> (Ret (Some (Errorf ''unable to commit transaction'' [e])), d'))"

definition postpone_task :: "driver \<Rightarrow> commit_env \<Rightarrow> delivery \<Rightarrow> duration go \<Rightarrow> txn \<Rightarrow> db \<Rightarrow> err option go \<times> db" where
  "postpone_task drv c del delay s d = (case delay of
     Panic m \<Rightarrow> (Panic m, d)
   | Running \<Rightarrow> (Running, d)
   | Ret delay \<Rightarrow> (case PostponeDelivery drv del delay s of
       (Ret (Inl e), s') \<Rightarrow> (Ret (Some (Errorf ''unable to postpone delivery'' [e])), d)
     | (Ret (Inr _), s') \<Rightarrow> commit_task c s' d
     | (Panic m, s') \<Rightarrow> (Panic m, d)
     | (Running, s') \<Rightarrow> (Running, d)))"

text \<open>One element of \<open>envs\<close> for each delivery that is acquired.\<close>

fun doAcquireTask :: "(lock_env \<Rightarrow> driver) \<Rightarrow> envelope_api \<Rightarrow> pump \<Rightarrow> pump_env list \<Rightarrow> db
    \<Rightarrow> (err + (delivery \<times> envelope) option) go \<times> db" where
  "doAcquireTask mk eapi p [] d = (Running, d)"
| "doAcquireTask mk eapi p (env # envs) d = (case doAcquireDelivery mk env d of
     (Ret (Inl e), d') \<Rightarrow> (Ret (Inl e), d')
   | (Ret (Inr None), d') \<Rightarrow> (Ret (Inr None), d')
   | (Ret (Inr (Some (del, s))), d') \<Rightarrow> (case unmarshal_valid eapi (EnvelopeBytes del) of
       Inr m \<Rightarrow> (Ret (Inr (Some (del, m))), d')
     | Inl e \<Rightarrow> (let del' = del\<lparr>Failures := Failures del + 1\<rparr>
         in case postpone_task (mk (pLocks env)) (pCommit env) del' (computeBackoff (pRand env) p (Failures del')) s d' of
              (Ret None, d'') \<Rightarrow> doAcquireTask mk eapi p envs d''
            | (Ret (Some e), d'') \<Rightarrow> (Ret (Inl e), d'')
            | (Panic m, d'') \<Rightarrow> (Panic m, d'')
            | (Running, d'') \<Rightarrow> (Running, d'')))
   | (Panic m, d') \<Rightarrow> (Panic m, d')
   | (Running, d') \<Rightarrow> (Running, d'))"

definition doHandle :: "(lock_env \<Rightarrow> driver) \<Rightarrow> pump \<Rightarrow> pump_env \<Rightarrow> delivery \<Rightarrow> envelope \<Rightarrow> db \<Rightarrow> err option go \<times> db" where
  "doHandle mk p env del m d = (case HandleDelivery (mk (pLocks env)) del m (start (pFaults env) d) of
     (Ret (Inr _), s) \<Rightarrow> commit_task (pCommit env) s d
   | (Ret (Inl e), s) \<Rightarrow>
       if errors_Is e ErrFailed then
         (let del' = del\<lparr>Failures := Failures del + 1\<rparr>
          in postpone_task (mk (pLocks env)) (pCommit env) del' (computeBackoff (pRand env) p (Failures del')) s d)
       else if errors_Is e ErrBusy then
         postpone_task (mk (pLocks env)) (pCommit env) del (Ret (BackoffBase p)) s d
       else (Ret (Some e), d)
   | (Panic m, s) \<Rightarrow> (Panic m, d)
   | (Running, s) \<Rightarrow> (Running, d))"

text \<open>What has been committed when a delivery has been handled: nothing, all that the driver did, or a postponement.\<close>

lemma commit_task_cases:
  assumes "commit_task c s d = (r, d')"
  shows "d' = d \<or> d' = Db s"
  using assms by (auto simp: commit_task_def elim!: Commit_cases split: prod.splits option.splits)

lemma doHandle_cases:
  assumes "doHandle mk p env del m d = (r, d')"
  obtains (unchanged) "d' = d"
    | (handled) u s where "HandleDelivery (mk (pLocks env)) del m (start (pFaults env) d) = (Ret (Inr u), s)" "d' = Db s"
    | (postponed) e s del' delay u s' where
        "HandleDelivery (mk (pLocks env)) del m (start (pFaults env) d) = (Ret (Inl e), s)"
        "errors_Is e ErrFailed \<and> del' = del\<lparr>Failures := Failures del + 1\<rparr> \<and> computeBackoff (pRand env) p (Failures del + 1) = Ret delay
         \<or> errors_Is e ErrBusy \<and> del' = del \<and> delay = BackoffBase p"
        "PostponeDelivery (mk (pLocks env)) del' delay s = (Ret (Inr u), s')" "d' = Db s'"
proof -
  obtain x s where h: "HandleDelivery (mk (pLocks env)) del m (start (pFaults env) d) = (x, s)" by fastforce
  show thesis
  proof (cases "d' = d \<or> (\<exists>u. x = Ret (Inr u))")
    case True
    then show thesis
      using unchanged handled h assms by (auto simp: doHandle_def dest!: commit_task_cases)
  next
    case False
    then obtain e del' delay where e: "x = Ret (Inl e)"
      "errors_Is e ErrFailed \<and> del' = del\<lparr>Failures := Failures del + 1\<rparr> \<and> delay = computeBackoff (pRand env) p (Failures del + 1)
       \<or> errors_Is e ErrBusy \<and> del' = del \<and> delay = Ret (BackoffBase p)"
      "postpone_task (mk (pLocks env)) (pCommit env) del' delay s d = (r, d')"
      using assms h by (auto simp: doHandle_def Let_def split: go.splits sum.splits if_splits)
    then obtain t u s' where "delay = Ret t" "PostponeDelivery (mk (pLocks env)) del' t s = (Ret (Inr u), s')" "d' = Db s'"
      using False by (auto simp: postpone_task_def dest!: commit_task_cases split: go.splits prod.splits sum.splits)
    then show thesis using postponed[of e s del' t u s'] h e(1,2) by auto
  qed
qed

section \<open>Dispatcher and workers\<close>

text \<open>
  The tables, and the deliveries that the dispatcher has acquired and whose transactions have
  not ended.  A worker handles one of them, and releases it; a delivery is also released when the
  dispatcher or its worker is canceled (\<open>Rollback\<close>).  Other transactions may change anything
  but the locked rows.
\<close>

record pump_state =
  Tables :: db
  Held :: "(delivery \<times> envelope) list"

definition held_ids :: "(delivery \<times> envelope) list \<Rightarrow> uuid set" where
  "held_ids held = MessageID ` fst ` set held"

inductive pump_step :: "(lock_env \<Rightarrow> driver) \<Rightarrow> envelope_api \<Rightarrow> pump \<Rightarrow> (db \<Rightarrow> uuid \<rightharpoonup> 'row) \<Rightarrow> (db \<Rightarrow> bool)
    \<Rightarrow> pump_state \<Rightarrow> pump_state \<Rightarrow> bool"
  for mk eapi p queue dinv where
  acquired: "\<forall>env \<in> set envs. held_ids (Held st) \<subseteq> lIDs (pLocks env) \<Longrightarrow>
    doAcquireTask mk eapi p envs (Tables st) = (Ret (Inr (Some task)), d') \<Longrightarrow>
    pump_step mk eapi p queue dinv st (st\<lparr>Tables := d', Held := task # Held st\<rparr>)"
| not_acquired: "\<forall>env \<in> set envs. held_ids (Held st) \<subseteq> lIDs (pLocks env) \<Longrightarrow>
    doAcquireTask mk eapi p envs (Tables st) = (r, d') \<Longrightarrow> \<forall>task. r \<noteq> Ret (Inr (Some task)) \<Longrightarrow>
    pump_step mk eapi p queue dinv st (st\<lparr>Tables := d'\<rparr>)"
| handled: "(del, m) \<in> set (Held st) \<Longrightarrow> doHandle mk p env del m (Tables st) = (r, d') \<Longrightarrow>
    pump_step mk eapi p queue dinv st (st\<lparr>Tables := d', Held := remove1 (del, m) (Held st)\<rparr>)"
| released: "pump_step mk eapi p queue dinv st (st\<lparr>Held := remove1 task (Held st)\<rparr>)"
| others: "dinv d' \<Longrightarrow> \<forall>mid \<in> held_ids (Held st). queue d' mid = queue (Tables st) mid \<Longrightarrow>
    pump_step mk eapi p queue dinv st (st\<lparr>Tables := d'\<rparr>)"

inductive pump_reachable :: "(lock_env \<Rightarrow> driver) \<Rightarrow> envelope_api \<Rightarrow> pump \<Rightarrow> (db \<Rightarrow> uuid \<rightharpoonup> 'row) \<Rightarrow> (db \<Rightarrow> bool)
    \<Rightarrow> pump_state \<Rightarrow> bool"
  for mk eapi p queue dinv where
  init: "dinv d \<Longrightarrow> pump_reachable mk eapi p queue dinv \<lparr>Tables = d, Held = []\<rparr>"
| step: "pump_reachable mk eapi p queue dinv st \<Longrightarrow> pump_step mk eapi p queue dinv st st' \<Longrightarrow>
    pump_reachable mk eapi p queue dinv st'"

section \<open>The contract of a driver\<close>

text \<open>
  \<open>queue\<close> is the driver's queue, by message, and \<open>conflict\<close> says which rows of it
  can not be locked at the same time.
\<close>

locale message_driver =
  fixes mk :: "lock_env \<Rightarrow> driver"
    and eapi :: envelope_api
    and queue :: "db \<Rightarrow> uuid \<rightharpoonup> 'row"
    and dinv :: "db \<Rightarrow> bool"
    and failuresOf :: "'row \<Rightarrow> u64" and dueOf :: "'row \<Rightarrow> time" and bytesOf :: "'row \<Rightarrow> bytes"
    and conflict :: "'row \<Rightarrow> 'row \<Rightarrow> bool"
  assumes acquired: "\<lbrakk>AcquireDelivery (mk l) s = (Ret (Inr (Some del)), s'); dinv (Db s); \<not> Broken s\<rbrakk> \<Longrightarrow>
      Db s' = Db s \<and> \<not> Broken s' \<and> MessageID del \<notin> lIDs l
      \<and> (\<exists>row. queue (Db s) (MessageID del) = Some row \<and> failuresOf row = Failures del \<and> bytesOf row = EnvelopeBytes del
           \<and> dueOf row \<le> lNow l
           \<and> (\<forall>mid row'. mid \<in> lIDs l \<longrightarrow> queue (Db s) mid = Some row' \<longrightarrow> \<not> conflict row row'))"
    and nothing_acquired: "AcquireDelivery (mk l) s = (Ret (Inr None), s') \<Longrightarrow> Db s' = Db s"
    and postponed: "\<lbrakk>PostponeDelivery (mk l) del delay s = (Ret (Inr u), s'); dinv (Db s); queue (Db s) (MessageID del) = Some row\<rbrakk> \<Longrightarrow>
      dinv (Db s') \<and> (\<exists>row'. queue (Db s') = (queue (Db s))(MessageID del \<mapsto> row')
        \<and> failuresOf row' = Failures del \<and> dueOf row' = lNow l + delay \<and> bytesOf row' = bytesOf row)"
    and completed: "\<lbrakk>HandleDelivery (mk l) del m s = (Ret (Inr u), s'); dinv (Db s); queue (Db s) (MessageID del) = Some row; \<not> Broken s;
        unmarshal_valid eapi (bytesOf row) = Inr m\<rbrakk> \<Longrightarrow>
      dinv (Db s') \<and> queue (Db s') (MessageID del) = None
      \<and> (\<forall>mid row'. mid \<noteq> MessageID del \<longrightarrow> queue (Db s) mid = Some row' \<longrightarrow> \<not> conflict row row' \<longrightarrow> queue (Db s') mid = Some row')"
    and deferred: "\<lbrakk>HandleDelivery (mk l) del m s = (Ret (Inl e), s'); errors_Is e ErrFailed \<or> errors_Is e ErrBusy;
        \<not> Broken s'; dinv (Db s); queue (Db s) (MessageID del) \<noteq> None\<rbrakk> \<Longrightarrow>
      dinv (Db s') \<and> (\<forall>mid. queue (Db s) mid \<noteq> None \<longrightarrow> queue (Db s') mid = queue (Db s) mid)"
    and conflict_sym: "conflict row row' \<Longrightarrow> conflict row' row"
    and broken: "PostponeDelivery (mk l) del delay s = (Ret (Inr u), s') \<Longrightarrow> \<not> Broken s"
begin

text \<open>
  What becomes of a delivery: it is left as it was, it is completed and leaves the queue, or
  it is postponed.
\<close>

definition outcome :: "pump \<Rightarrow> time \<Rightarrow> delivery \<Rightarrow> 'row \<Rightarrow> db \<Rightarrow> db \<Rightarrow> bool" where
  "outcome p now del row d d' \<longleftrightarrow> d' = d
     \<or> dinv d' \<and> queue d' (MessageID del) = None
       \<and> (\<forall>mid row'. mid \<noteq> MessageID del \<longrightarrow> queue d mid = Some row' \<longrightarrow> \<not> conflict row row' \<longrightarrow> queue d' mid = Some row')
     \<or> dinv d' \<and> (\<exists>row'. queue d' (MessageID del) = Some row' \<and> bytesOf row' = bytesOf row
         \<and> (failuresOf row' = Failures del \<and> dueOf row' = now + BackoffBase p
            \<or> failuresOf row' = Failures del + 1 \<and> (\<exists>random delay. computeBackoff random p (Failures del + 1) = Ret delay \<and> dueOf row' = now + delay)))
       \<and> (\<forall>mid. mid \<noteq> MessageID del \<longrightarrow> queue d mid \<noteq> None \<longrightarrow> queue d' mid = queue d mid)"

lemma postpone_task_cases:
  assumes "postpone_task (mk l) c del delay s d = (r, d')" and "d' \<noteq> d"
    and "dinv (Db s)" and "queue (Db s) (MessageID del) = Some row"
  shows "\<not> Broken s \<and> dinv d' \<and> (\<exists>t row'. delay = Ret t \<and> queue d' = (queue (Db s))(MessageID del \<mapsto> row')
     \<and> failuresOf row' = Failures del \<and> dueOf row' = lNow l + t \<and> bytesOf row' = bytesOf row)"
proof -
  obtain t u s' where t: "delay = Ret t" "PostponeDelivery (mk l) del t s = (Ret (Inr u), s')" "commit_task c s' d = (r, d')"
    using assms(1,2) by (auto simp: postpone_task_def split: go.splits prod.splits sum.splits)
  have "d' = Db s'" using commit_task_cases[OF t(3)] assms(2) by simp
  then show ?thesis using postponed[OF t(2) assms(3,4)] broken[OF t(2)] t(1) by auto
qed

lemma doHandle_outcome:
  assumes "doHandle mk p env del m d = (r, d')" and "dinv d" and "queue d (MessageID del) = Some row"
    and "unmarshal_valid eapi (bytesOf row) = Inr m"
  shows "outcome p (lNow (pLocks env)) del row d d'"
  using assms(1)
proof (cases rule: doHandle_cases)
  case unchanged
  then show ?thesis by (simp add: outcome_def)
next
  case (handled u s)
  then show ?thesis
    using completed[OF handled(1)] assms(2-4) by (auto simp: outcome_def start_def)
next
  case (postponed e s del' delay u s')
  have id: "MessageID del' = MessageID del" and e: "errors_Is e ErrFailed \<or> errors_Is e ErrBusy"
    using postponed(2) by auto
  have d: "dinv (Db s)" "\<forall>mid. queue d mid \<noteq> None \<longrightarrow> queue (Db s) mid = queue d mid"
    using deferred[OF postponed(1) e broken[OF postponed(3)]] assms(2,3) by (auto simp: start_def)
  then have "queue (Db s) (MessageID del') = Some row" using assms(3) id by simp
  from MessagePump.message_driver.postponed[OF message_driver_axioms postponed(3) d(1) this] show ?thesis
    using d(2) id postponed(2,4) by (auto simp: outcome_def)
qed

text \<open>
  Every delivery that is held is in the queue as it was when it was acquired, and no two
  of them are of the same message or in conflict.
\<close>

definition task_ok :: "db \<Rightarrow> delivery \<times> envelope \<Rightarrow> bool" where
  "task_ok d task \<longleftrightarrow> (\<exists>row. queue d (MessageID (fst task)) = Some row \<and> failuresOf row = Failures (fst task)
     \<and> bytesOf row = EnvelopeBytes (fst task) \<and> unmarshal_valid eapi (bytesOf row) = Inr (snd task))"

definition no_conflict :: "db \<Rightarrow> uuid set \<Rightarrow> bool" where
  "no_conflict d ids \<longleftrightarrow> (\<forall>a \<in> ids. \<forall>b \<in> ids. \<forall>ra rb. a \<noteq> b \<longrightarrow> queue d a = Some ra \<longrightarrow> queue d b = Some rb \<longrightarrow> \<not> conflict ra rb)"

definition pump_inv :: "pump_state \<Rightarrow> bool" where
  "pump_inv st \<longleftrightarrow> dinv (Tables st) \<and> distinct (map (MessageID \<circ> fst) (Held st))
     \<and> (\<forall>task \<in> set (Held st). task_ok (Tables st) task) \<and> no_conflict (Tables st) (held_ids (Held st))"

lemma doAcquireDelivery_cases:
  assumes "doAcquireDelivery mk env d = (r, d')" and "dinv d"
  shows "d' = d" and "r = Ret (Inr (Some (del, s))) \<Longrightarrow> Db s = d \<and> MessageID del \<notin> lIDs (pLocks env)
      \<and> (\<exists>row. queue d (MessageID del) = Some row \<and> failuresOf row = Failures del \<and> bytesOf row = EnvelopeBytes del
           \<and> (\<forall>mid row'. mid \<in> lIDs (pLocks env) \<longrightarrow> queue d mid = Some row' \<longrightarrow> \<not> conflict row row'))"
proof -
  show "d' = d"
    using assms(1)
    by (auto simp: doAcquireDelivery_def start_def dest!: nothing_acquired elim!: Commit_cases
        split: option.splits prod.splits go.splits sum.splits)
  assume "r = Ret (Inr (Some (del, s)))"
  then have "AcquireDelivery (mk (pLocks env)) (start (pFaults env) d) = (Ret (Inr (Some del)), s)"
    using assms(1) by (auto simp: doAcquireDelivery_def split: option.splits prod.splits go.splits sum.splits)
  from acquired[OF this] show "Db s = d \<and> MessageID del \<notin> lIDs (pLocks env)
      \<and> (\<exists>row. queue d (MessageID del) = Some row \<and> failuresOf row = Failures del \<and> bytesOf row = EnvelopeBytes del
           \<and> (\<forall>mid row'. mid \<in> lIDs (pLocks env) \<longrightarrow> queue d mid = Some row' \<longrightarrow> \<not> conflict row row'))"
    using assms(2) by (auto simp: start_def)
qed

lemma doAcquireTask_props:
  assumes "doAcquireTask mk eapi p envs d = (r, d')" and "dinv d" and "\<forall>env \<in> set envs. H \<subseteq> lIDs (pLocks env)"
  shows "dinv d' \<and> (\<forall>mid \<in> H. queue d' mid = queue d mid)
    \<and> (\<forall>del m. r = Ret (Inr (Some (del, m))) \<longrightarrow> MessageID del \<notin> H
         \<and> (\<exists>row. queue d' (MessageID del) = Some row \<and> failuresOf row = Failures del \<and> bytesOf row = EnvelopeBytes del
              \<and> unmarshal_valid eapi (bytesOf row) = Inr m
              \<and> (\<forall>mid \<in> H. \<forall>row'. queue d' mid = Some row' \<longrightarrow> \<not> conflict row row')))"
  using assms
proof (induction envs arbitrary: d)
  case (Cons env envs)
  obtain x d1 where x: "doAcquireDelivery mk env d = (x, d1)" by fastforce
  have d1: "d1 = d" by (rule doAcquireDelivery_cases(1)[OF x Cons.prems(2)])
  have H: "H \<subseteq> lIDs (pLocks env)" using Cons.prems(3) by simp
  show ?case
  proof (cases "\<exists>del s. x = Ret (Inr (Some (del, s)))")
    case False
    then have "d' = d" "\<forall>del m. r \<noteq> Ret (Inr (Some (del, m)))"
      using Cons.prems(1) x d1 by (auto split: go.splits sum.splits option.splits)
    then show ?thesis using Cons.prems(2) by simp
  next
    case True
    then obtain del s where del: "x = Ret (Inr (Some (del, s)))" by blast
    from doAcquireDelivery_cases(2)[OF x Cons.prems(2) this] obtain row where
      row: "Db s = d" "MessageID del \<notin> lIDs (pLocks env)" "queue d (MessageID del) = Some row"
        "failuresOf row = Failures del" "bytesOf row = EnvelopeBytes del"
        "\<forall>mid row'. mid \<in> lIDs (pLocks env) \<longrightarrow> queue d mid = Some row' \<longrightarrow> \<not> conflict row row'"
      by blast
    show ?thesis
    proof (cases "unmarshal_valid eapi (EnvelopeBytes del)")
      case (Inr m)
      then have "d' = d" "r = Ret (Inr (Some (del, m)))" using Cons.prems(1) x d1 del by auto
      then show ?thesis using row H Cons.prems(2) Inr by auto
    next
      case (Inl e)
      let ?del = "del\<lparr>Failures := Failures del + 1\<rparr>"
      obtain y d2 where y: "postpone_task (mk (pLocks env)) (pCommit env) ?del (computeBackoff (pRand env) p (Failures ?del)) s d = (y, d2)"
        by fastforce
      have d2: "dinv d2" "\<forall>mid \<in> H. queue d2 mid = queue d mid"
      proof -
        have "dinv d2 \<and> (\<forall>mid \<in> H. queue d2 mid = queue d mid)"
        proof (cases "d2 = d")
          case True
          then show ?thesis using Cons.prems(2) by simp
        next
          case False
          have "queue (Db s) (MessageID ?del) = Some row" "dinv (Db s)" using row(1,3) Cons.prems(2) by simp_all
          from postpone_task_cases[OF y False this(2,1)] show ?thesis using row(1,2) H by auto
        qed
        then show "dinv d2" "\<forall>mid \<in> H. queue d2 mid = queue d mid" by auto
      qed
      show ?thesis
      proof (cases "y = Ret None")
        case True
        then have "doAcquireTask mk eapi p envs d2 = (r, d')" using Cons.prems(1) x d1 del Inl y by (simp add: Let_def)
        from Cons.IH[OF this d2(1)] have IH: "dinv d'" "\<forall>mid \<in> H. queue d' mid = queue d2 mid"
          "\<forall>del m. r = Ret (Inr (Some (del, m))) \<longrightarrow> MessageID del \<notin> H
            \<and> (\<exists>row. queue d' (MessageID del) = Some row \<and> failuresOf row = Failures del \<and> bytesOf row = EnvelopeBytes del
              \<and> unmarshal_valid eapi (bytesOf row) = Inr m
              \<and> (\<forall>mid \<in> H. \<forall>row'. queue d' mid = Some row' \<longrightarrow> \<not> conflict row row'))"
          using Cons.prems(3) by auto
        then show ?thesis using d2(2) by (metis (no_types, lifting))
      next
        case False
        then have "d' = d2" "\<forall>del m. r \<noteq> Ret (Inr (Some (del, m)))"
          using Cons.prems(1) x d1 del Inl y by (auto simp: Let_def split: go.splits option.splits)
        then show ?thesis using d2 by simp
      qed
    qed
  qed
qed simp

lemma held_idsI: "task \<in> set held \<Longrightarrow> MessageID (fst task) \<in> held_ids held"
  by (auto simp: held_ids_def)

lemma pump_inv_frame:
  assumes "pump_inv st" and "dinv d'" and eq: "\<forall>mid \<in> held_ids (Held st). queue d' mid = queue (Tables st) mid"
  shows "pump_inv (st\<lparr>Tables := d'\<rparr>)"
proof -
  have "task_ok d' task" if "task \<in> set (Held st)" for task
    using assms(1) that eq held_idsI[OF that] by (simp add: pump_inv_def task_ok_def)
  moreover have "no_conflict d' (held_ids (Held st))"
    using assms(1) eq by (simp add: pump_inv_def no_conflict_def)
  ultimately show ?thesis using assms(1,2) by (simp add: pump_inv_def)
qed

lemma pump_inv_remove:
  assumes "pump_inv st"
  shows "pump_inv (st\<lparr>Held := remove1 task (Held st)\<rparr>)"
proof -
  have sub: "set (remove1 task (Held st)) \<subseteq> set (Held st)" by (rule set_remove1_subset)
  then have "held_ids (remove1 task (Held st)) \<subseteq> held_ids (Held st)" by (auto simp: held_ids_def)
  then have "no_conflict (Tables st) (held_ids (remove1 task (Held st)))"
    using assms unfolding pump_inv_def no_conflict_def by blast
  moreover have "distinct (map (MessageID \<circ> fst) (remove1 task (Held st)))"
    using assms by (auto simp: pump_inv_def distinct_map intro: inj_on_diff)
  ultimately show ?thesis using assms sub by (auto simp: pump_inv_def)
qed

lemma remove1_held:
  assumes "distinct (map (MessageID \<circ> fst) held)" and "(del, m) \<in> set held"
  shows "held_ids (remove1 (del, m) held) = held_ids held - {MessageID del}"
proof -
  have "set (remove1 (del, m) held) = set held - {(del, m)}"
    using assms(1) by (simp add: distinct_map)
  moreover have "inj_on (MessageID \<circ> fst) (set held)" using assms(1) by (simp add: distinct_map)
  ultimately have "(MessageID \<circ> fst) ` set (remove1 (del, m) held) = (MessageID \<circ> fst) ` set held - (MessageID \<circ> fst) ` {(del, m)}"
    using inj_on_image_set_diff[of "MessageID \<circ> fst" "set held" "set held" "{(del, m)}"] assms(2) by simp
  then show ?thesis by (simp add: held_ids_def image_comp)
qed

lemma pump_step_inv:
  assumes "pump_step mk eapi p queue dinv st st'" and "pump_inv st"
  shows "pump_inv st'"
  using assms
proof (induction rule: pump_step.induct)
  case (acquired envs st task d')
  obtain del m where task: "task = (del, m)" by fastforce
  have d: "dinv (Tables st)" using acquired by (simp add: pump_inv_def)
  from doAcquireTask_props[OF acquired(2) d acquired(1)] task obtain row where
    d': "dinv d'" "\<forall>mid \<in> held_ids (Held st). queue d' mid = queue (Tables st) mid" and
    row: "MessageID del \<notin> held_ids (Held st)" "queue d' (MessageID del) = Some row" "failuresOf row = Failures del"
      "bytesOf row = EnvelopeBytes del" "unmarshal_valid eapi (bytesOf row) = Inr m"
      "\<forall>mid \<in> held_ids (Held st). \<forall>row'. queue d' mid = Some row' \<longrightarrow> \<not> conflict row row'"
    by auto
  have inv: "pump_inv (st\<lparr>Tables := d'\<rparr>)" by (rule pump_inv_frame[OF acquired(3) d'])
  have "no_conflict d' (held_ids (task # Held st))"
    using inv row(2,6) conflict_sym unfolding pump_inv_def no_conflict_def held_ids_def task
    by (simp, metis option.inject)
  moreover have "task_ok d' task" using row task by (auto simp: task_ok_def)
  ultimately show ?case
    using inv row(1) by (auto simp: pump_inv_def held_ids_def task)
next
  case (not_acquired envs st r d')
  have "dinv (Tables st)" using not_acquired by (simp add: pump_inv_def)
  from doAcquireTask_props[OF not_acquired(2) this not_acquired(1)] show ?case
    by (intro pump_inv_frame not_acquired) auto
next
  case (handled del m st env r d')
  let ?st = "st\<lparr>Held := remove1 (del, m) (Held st)\<rparr>"
  obtain row where row: "queue (Tables st) (MessageID del) = Some row" "dinv (Tables st)" "unmarshal_valid eapi (bytesOf row) = Inr m"
    using handled(1,3) by (auto simp: pump_inv_def task_ok_def)
  have ids: "held_ids (Held ?st) = held_ids (Held st) - {MessageID del}"
    using remove1_held handled(1,3) by (simp add: pump_inv_def)
  have "mid \<noteq> MessageID del \<and> (\<exists>row'. queue (Tables st) mid = Some row' \<and> \<not> conflict row row')"
    if "mid \<in> held_ids (Held ?st)" for mid
  proof -
    have mid: "mid \<in> held_ids (Held st)" "mid \<noteq> MessageID del" using that ids by auto
    then obtain row' where "queue (Tables st) mid = Some row'"
      using handled(3) by (auto simp: pump_inv_def task_ok_def held_ids_def)
    moreover have "MessageID del \<in> held_ids (Held st)" using held_idsI[OF handled(1)] by simp
    ultimately show ?thesis
      using handled(3) mid row(1) unfolding pump_inv_def no_conflict_def by metis
  qed
  moreover have "outcome p (lNow (pLocks env)) del row (Tables st) d'"
    by (rule doHandle_outcome[OF handled(2) row(2,1,3)])
  ultimately have "dinv d' \<and> (\<forall>mid \<in> held_ids (Held ?st). queue d' mid = queue (Tables st) mid)"
    using row(2) unfolding outcome_def by (elim disjE) (metis option.distinct(1))+
  then show ?case
    using pump_inv_frame[OF pump_inv_remove[OF handled(3)], of d' "(del, m)"]
    by (simp add: pump_inv_def)
next
  case (released st task)
  then show ?case by (rule pump_inv_remove)
next
  case (others d' st)
  then show ?case by (intro pump_inv_frame) auto
qed

lemma pump_reachable_inv: "pump_reachable mk eapi p queue dinv st \<Longrightarrow> pump_inv st"
proof (induction rule: pump_reachable.induct)
  case (init d)
  then show ?case by (simp add: pump_inv_def no_conflict_def held_ids_def)
next
  case (step st st')
  then show ?case using pump_step_inv by blast
qed

end

section \<open>Drivers of the command queue\<close>

definition command_queue :: "db \<Rightarrow> uuid \<rightharpoonup> command_row" where
  "command_queue d mid = find (\<lambda>c. cMessageID c = mid) (commands d)"

definition command_pump :: "uuid set \<Rightarrow> (lock_env \<Rightarrow> delivery \<Rightarrow> envelope \<Rightarrow> unit tx) \<Rightarrow> lock_env \<Rightarrow> driver" where
  "command_pump types handle l = \<lparr>AcquireDelivery = AcquireCommandDelivery l types,
     PostponeDelivery = PostponeCommandDelivery l, HandleDelivery = handle l\<rparr>"

definition wf_queue :: "db \<Rightarrow> bool" where
  "wf_queue d \<longleftrightarrow> distinct (map cMessageID (commands d))"

lemma find_distinct:
  "distinct (map f xs) \<Longrightarrow> x \<in> set xs \<Longrightarrow> find (\<lambda>y. f y = f x) xs = Some x"
  by (induction xs) force+

lemma find_map_same:
  "(\<And>x. f (g x) = f x) \<Longrightarrow> find (\<lambda>y. f y = k) (map g xs) = map_option g (find (\<lambda>y. f y = k) xs)"
  by (induction xs) auto

lemma command_queue_Some:
  "wf_queue d \<Longrightarrow> command_queue d mid = Some c \<longleftrightarrow> c \<in> set (commands d) \<and> cMessageID c = mid"
  using find_distinct[of cMessageID "commands d"] by (auto simp: command_queue_def wf_queue_def find_Some_iff)

lemma command_queue_id: "command_queue d mid = Some c \<Longrightarrow> cMessageID c = mid"
  by (auto simp: command_queue_def find_Some_iff)

lemma command_queue_None: "command_queue d mid = None \<longleftrightarrow> mid \<notin> cMessageID ` set (commands d)"
  by (auto simp: command_queue_def find_None_iff)

lemma AcquireCommand_Some:
  assumes "AcquireCommandDelivery l types s = (Ret (Inr (Some del)), s')"
  shows "Db s' = Db s \<and> Broken s' = Broken s \<and> (\<exists>c \<in> set (commands (Db s)). del = command_delivery c
    \<and> cTypeID c \<in> types \<and> cDeliverAt c \<le> lNow l \<and> cMessageID c \<notin> lIDs l
    \<and> (\<forall>c' \<in> set (commands (Db s)). cTypeID c' \<in> types \<longrightarrow> cMessageID c' \<notin> lIDs l \<longrightarrow> cDeliverAt c \<le> cDeliverAt c'))"
proof -
  let ?key = "\<lambda>c. (cDeliverAt c, lTie l (cMessageID c))"
  let ?rows = "filter (\<lambda>c. cTypeID c \<in> types \<and> cDeliverAt c \<le> lNow l \<and> cMessageID c \<notin> lIDs l) (commands (Db s))"
  obtain c cs where c: "sort_key ?key ?rows = c # cs" "del = command_delivery c" "Db s' = Db s" "Broken s' = Broken s"
    using assms unfolding AcquireCommandDelivery_def exec_Inr by (cases "sort_key ?key ?rows") auto
  have mem: "set (c # cs) = set ?rows" by (rule set_sort[of ?key ?rows, unfolded c(1)])
  have "sorted (map ?key (c # cs))" using sorted_sort_key[of ?key ?rows] unfolding c(1) .
  then have "\<forall>c' \<in> set cs. cDeliverAt c \<le> cDeliverAt c'" by (fastforce simp: less_eq_prod_def)
  then have least: "cDeliverAt c \<le> cDeliverAt c'" if "c' \<in> set ?rows" for c' using that unfolding mem[symmetric] by auto
  have row: "c \<in> set ?rows" unfolding mem[symmetric] by simp
  have "cDeliverAt c \<le> cDeliverAt c'" if "c' \<in> set (commands (Db s))" "cTypeID c' \<in> types" "cMessageID c' \<notin> lIDs l" for c'
  proof (cases "cDeliverAt c' \<le> lNow l")
    case True
    then show ?thesis using that by (intro least) simp
  next
    case False
    then show ?thesis using row by simp
  qed
  then show ?thesis using c(2-4) row by auto
qed

lemma AcquireCommand_None:
  assumes "AcquireCommandDelivery l types s = (Ret (Inr None), s')"
  shows "Db s' = Db s \<and> (\<forall>c \<in> set (commands (Db s)). cTypeID c \<in> types \<longrightarrow> cDeliverAt c \<le> lNow l \<longrightarrow> cMessageID c \<in> lIDs l)"
proof -
  have "sort_key (\<lambda>c. (cDeliverAt c, lTie l (cMessageID c)))
     (filter (\<lambda>c. cTypeID c \<in> types \<and> cDeliverAt c \<le> lNow l \<and> cMessageID c \<notin> lIDs l) (commands (Db s))) = []" "Db s' = Db s"
    using assms by (auto simp: AcquireCommandDelivery_def tx_simps split: list.splits)
  then show ?thesis by (metis (mono_tags, lifting) filter_empty_conv set_empty set_sort)
qed

lemma postpone_command_queue:
  assumes "postpone_command mid failures at d = Inr (n, d')"
  shows "wf_queue d' = wf_queue d" and "n = 1 \<Longrightarrow> command_queue d mid = Some c \<Longrightarrow>
    command_queue d' = (command_queue d)(mid \<mapsto> c\<lparr>cFailures := failures, cDeliverAt := at\<rparr>)"
proof -
  let ?g = "\<lambda>c :: command_row. if cMessageID c = mid then c\<lparr>cFailures := failures, cDeliverAt := at\<rparr> else c"
  have d': "d' = d\<lparr>commands := map ?g (commands d)\<rparr>"
    using assms by (simp add: postpone_command_def split: if_splits)
  have "cMessageID \<circ> ?g = cMessageID" by (rule ext) simp
  then show "wf_queue d' = wf_queue d" using d' by (simp add: wf_queue_def)
  assume "command_queue d mid = Some c"
  moreover have "command_queue d' k = map_option ?g (command_queue d k)" for k
    using d' by (simp add: command_queue_def find_map_same)
  ultimately have "command_queue d' k = ((command_queue d)(mid \<mapsto> c\<lparr>cFailures := failures, cDeliverAt := at\<rparr>)) k" for k
    by (cases "command_queue d k") (auto dest: command_queue_id)
  then show "command_queue d' = (command_queue d)(mid \<mapsto> c\<lparr>cFailures := failures, cDeliverAt := at\<rparr>)" by blast
qed

lemma command_postponed:
  assumes "PostponeDelivery (command_pump types handle l) del delay s = (Ret (Inr u), s')" and "command_queue (Db s) (MessageID del) = Some c"
  shows "\<not> Broken s" "Db s' = (Db s)\<lparr>commands := commands (Db s')\<rparr>" "wf_queue (Db s') = wf_queue (Db s)"
    "command_queue (Db s') = (command_queue (Db s))(MessageID del \<mapsto> c\<lparr>cFailures := Failures del, cDeliverAt := lNow l + delay\<rparr>)"
proof -
  obtain d where d: "postpone_command (MessageID del) (Failures del) (lNow l + delay) (Db s) = Inr (1, d)" "Db s' = d" "\<not> Broken s"
    using assms(1) by (auto simp: command_pump_def PostponeCommandDelivery_def tx_simps)
  then show "\<not> Broken s" "wf_queue (Db s') = wf_queue (Db s)"
    "command_queue (Db s') = (command_queue (Db s))(MessageID del \<mapsto> c\<lparr>cFailures := Failures del, cDeliverAt := lNow l + delay\<rparr>)"
    using postpone_command_queue[OF d(1)] assms(2) by simp_all
  show "Db s' = (Db s)\<lparr>commands := commands (Db s')\<rparr>"
    using d(1) unfolding d(2) by (auto simp: postpone_command_def split: if_splits)
qed

text \<open>What is left to show of a handler of commands.\<close>

locale command_driver =
  fixes types :: "uuid set"
    and handle :: "lock_env \<Rightarrow> delivery \<Rightarrow> envelope \<Rightarrow> unit tx"
    and eapi :: envelope_api
    and dinv :: "db \<Rightarrow> bool"
  assumes queue_inv: "dinv d \<Longrightarrow> wf_queue d"
    and postpone_inv: "dinv d \<Longrightarrow> postpone_command mid failures at d = Inr (n, d') \<Longrightarrow> dinv d'"
    and handle_ok: "\<lbrakk>handle l del m s = (Ret (Inr u), s'); dinv (Db s); command_queue (Db s) (MessageID del) \<noteq> None; \<not> Broken s\<rbrakk> \<Longrightarrow>
      dinv (Db s') \<and> commands (Db s') = filter (\<lambda>c. cMessageID c \<noteq> MessageID del) (commands (Db s))"
    and handle_deferred: "\<lbrakk>handle l del m s = (Ret (Inl e), s'); errors_Is e ErrFailed \<or> errors_Is e ErrBusy; \<not> Broken s'; dinv (Db s)\<rbrakk> \<Longrightarrow>
      dinv (Db s') \<and> commands (Db s') = commands (Db s)"

sublocale command_driver \<subseteq> message_driver "command_pump types handle" eapi command_queue dinv cFailures cDeliverAt cEnvelope "\<lambda>_ _. False"
proof (unfold_locales, goal_cases)
  case (1 l s del s')
  then have "AcquireCommandDelivery l types s = (Ret (Inr (Some del)), s')" by (simp add: command_pump_def)
  from AcquireCommand_Some[OF this] show ?case
    using command_queue_Some[OF queue_inv[OF 1(2)]] 1(3) by (auto simp: command_delivery_def)
next
  case (2 l s s')
  then show ?case using AcquireCommand_None by (simp add: command_pump_def)
next
  case (3 l del delay s u s' row)
  then obtain d where d: "postpone_command (MessageID del) (Failures del) (lNow l + delay) (Db s) = Inr (1, d)" "Db s' = d"
    by (auto simp: command_pump_def PostponeCommandDelivery_def tx_simps)
  then show ?case
    using postpone_inv[OF 3(2) d(1)] postpone_command_queue(2)[OF d(1) _ 3(3)]
    by (intro conjI exI[of _ "row\<lparr>cFailures := Failures del, cDeliverAt := lNow l + delay\<rparr>"]) simp_all
next
  case (4 l del m s u s' row)
  then have "handle l del m s = (Ret (Inr u), s')" "command_queue (Db s) (MessageID del) \<noteq> None" by (simp_all add: command_pump_def)
  note h = handle_ok[OF this(1) 4(2) this(2) 4(4)]
  moreover have "command_queue (Db s') mid = Some c" if "command_queue (Db s) mid = Some c" "mid \<noteq> MessageID del" for mid c
    using that h command_queue_Some queue_inv 4(2) by auto
  ultimately show ?case by (auto simp: command_queue_None)
next
  case (5 l del m s e s')
  then have "handle l del m s = (Ret (Inl e), s')" by (simp add: command_pump_def)
  from handle_deferred[OF this 5(2-4)] show ?case by (simp add: command_queue_def)
next
  case (7 l del delay s u s')
  then show ?case by (auto simp: command_pump_def PostponeCommandDelivery_def tx_simps)
qed simp

section \<open>Backoff\<close>

lemma wrap64_shift:
  assumes "0 < b" and "b < 2 ^ 31" and "1 \<le> n" and "0 < wrap64 (b * 2 ^ n)"
  shows "b < wrap64 (b * 2 ^ n)"
proof (cases "b * 2 ^ n < 2 ^ 63")
  case True
  have "(2::int) \<le> 2 ^ n" using assms(3) power_increasing[of 1 n "2::int"] by simp
  then have "b * 2 \<le> b * 2 ^ n" using assms(1) by (simp add: mult_left_mono)
  moreover have "wrap64 (b * 2 ^ n) = b * 2 ^ n"
    using True assms(1) by (intro wrap64_id) (auto intro: order_trans[of _ 0])
  ultimately show ?thesis using assms(1) by simp
next
  case False
  have n: "(2::int) ^ 31 < 2 ^ n"
  proof (rule ccontr)
    assume "\<not> (2::int) ^ 31 < 2 ^ n"
    then have "b * 2 ^ n \<le> 2 ^ 31 * 2 ^ 31" using assms(1,2) by (intro mult_mono) auto
    then show False using False by simp
  qed
  then have "31 < n" using power_less_imp_less_exp[of "2::int" 31 n] by linarith
  then have "(2::int) ^ 31 dvd 2 ^ n" by (intro le_imp_power_dvd) simp
  moreover have "(2::int) ^ 31 dvd 2 ^ 64" "(2::int) ^ 31 dvd 2 ^ 63" by (rule le_imp_power_dvd, simp)+
  ultimately have div: "(2::int) ^ 31 dvd 2 ^ n" "(2::int) ^ 31 dvd 2 ^ 64" "(2::int) ^ 31 dvd 2 ^ 63" by blast+
  have "(2::int) ^ 31 dvd wrap64 (b * 2 ^ n)"
    unfolding wrap64_def using div by (intro dvd_diff dvd_mod dvd_add dvd_mult) auto
  then have "2 ^ 31 \<le> wrap64 (b * 2 ^ n)" using assms(4) by (rule zdvd_imp_le)
  then show ?thesis using assms(2) by simp
qed

text \<open>
  C32. The delay before a failed delivery is attempted again.  For the engine's range of base delays
  (below about two seconds; it uses 10 milliseconds) the computation never panics, whatever the
  number of failures and although the shift overflows; the delay is at least the base, below the cap, and
  below the base doubled for each failure.
\<close>

theorem computeBackoff_between:
  assumes "rand_ok random" and "0 < BackoffBase p" and "BackoffBase p < 2 ^ 31"
    and "BackoffBase p < BackoffCap p" and "BackoffCap p < 2 ^ 63" and "n \<noteq> 0"
  shows "\<exists>x. computeBackoff random p n = Ret x \<and> BackoffBase p \<le> x \<and> x < BackoffCap p
    \<and> x < BackoffBase p * 2 ^ unat n"
proof -
  let ?b = "BackoffBase p" and ?s = "wrap64 (BackoffBase p * 2 ^ unat n)"
  define limit where "limit = (if ?s \<le> 0 \<or> ?s > BackoffCap p then BackoffCap p else ?s)"
  have n: "1 \<le> unat n" using assms(6) by (simp add: unat_gt_0 Suc_leI)
  have limit: "?b < limit" "limit \<le> BackoffCap p"
    using wrap64_shift[OF assms(2,3) n] assms(4) by (auto simp: limit_def)
  have "limit \<le> ?b * 2 ^ unat n"
  proof (cases "?b * 2 ^ unat n < 2 ^ 63")
    case True
    then have "?s = ?b * 2 ^ unat n"
      using assms(2) by (intro wrap64_id) (auto intro: order_trans[of _ 0])
    moreover have "0 < ?b * 2 ^ unat n" using assms(2) by simp
    ultimately show ?thesis by (simp add: limit_def)
  next
    case False
    then show ?thesis using limit(2) assms(5) by linarith
  qed
  moreover have "0 \<le> random (limit - ?b) \<and> random (limit - ?b) < limit - ?b"
    using assms(1) limit(1) by (simp add: rand_ok_def)
  moreover have "wrap64 (limit - ?b) = limit - ?b"
    using limit assms(2,5) by (intro wrap64_id) auto
  moreover have "wrap64 (?b + random (limit - ?b)) = ?b + random (limit - ?b)"
    using calculation(2) limit assms(2,5) by (intro wrap64_id) auto
  ultimately show ?thesis
    using assms(2,4) limit by (auto simp: computeBackoff_def Let_def rand_N_def limit_def[symmetric])
qed

theorem computeBackoff_between_witness:
  "\<exists>x. computeBackoff (\<lambda>n. n div 2) \<lparr>BackoffBase = 10000000, BackoffCap = 300000000000\<rparr> 60 = Ret x
    \<and> 10000000 \<le> x \<and> x < 300000000000"
proof -
  have "rand_ok (\<lambda>n. n div 2)" by (simp add: rand_ok_def int_div_less_self)
  from this[THEN computeBackoff_between[of "\<lambda>n. n div 2" "\<lparr>BackoffBase = 10000000, BackoffCap = 300000000000\<rparr>" 60]]
  show ?thesis by auto
qed

text \<open>
  The check for an overflow does not suffice for every base: here the shift wraps around to a
  positive duration below the base.
\<close>

lemma computeBackoff_overflow:
  "computeBackoff random \<lparr>BackoffBase = 2 ^ 32 + 1, BackoffCap = 2 ^ 34\<rparr> 32 = Panic ''invalid argument to N''"
  by (simp add: computeBackoff_def wrap64_def rand_N_def Let_def)

text \<open>
  C33. No command is starved.  If a command of one of the handled types is due and not locked by
  another transaction, then acquiring a delivery returns a command, and it is one that has been due the longest
  of all that are not locked; the tables stay as they are.
\<close>

theorem due_command_acquired:
  assumes "c \<in> set (commands d)" and "cTypeID c \<in> types" and "cDeliverAt c \<le> lNow l" and "cMessageID c \<notin> lIDs l"
  shows "\<exists>c' \<in> set (commands d). AcquireCommandDelivery l types (start [] d) = (Ret (Inr (Some (command_delivery c'))), start [] d)
    \<and> cTypeID c' \<in> types \<and> cMessageID c' \<notin> lIDs l
    \<and> (\<forall>other \<in> set (commands d). cTypeID other \<in> types \<longrightarrow> cMessageID other \<notin> lIDs l \<longrightarrow> cDeliverAt c' \<le> cDeliverAt other)"
proof -
  have "\<exists>r. AcquireCommandDelivery l types (start [] d) = (Ret (Inr r), start [] d)"
    unfolding AcquireCommandDelivery_def exec_ok by (simp split: list.split)
  then obtain r where r: "AcquireCommandDelivery l types (start [] d) = (Ret (Inr r), start [] d)" by blast
  show ?thesis
  proof (cases r)
    case None
    then show ?thesis using AcquireCommand_None[OF r[unfolded None]] assms by (auto simp: start_def)
  next
    case (Some del)
    have "Db (start [] d) = d" by (simp add: start_def)
    with AcquireCommand_Some[OF r[unfolded Some]] r Some show ?thesis by auto
  qed
qed

theorem due_command_acquired_witness:
  "\<exists>c'. fst (AcquireCommandDelivery \<lparr>lNow = 5, lIDs = {}, lInstances = {}, lTie = (\<lambda>_. 0)\<rparr> {UUID 0 1}
      (start [] (empty_db\<lparr>commands := [\<lparr>cMessageID = UUID 0 7, cTypeID = UUID 0 1, cEnvelope = [], cFailures = 0, cDeliverAt = 3\<rparr>]\<rparr>)))
    = Ret (Inr (Some (command_delivery c')))"
proof -
  let ?c = "\<lparr>cMessageID = UUID 0 7, cTypeID = UUID 0 1, cEnvelope = [], cFailures = 0, cDeliverAt = 3\<rparr>"
  have "?c \<in> set (commands (empty_db\<lparr>commands := [?c]\<rparr>))" by simp
  from due_command_acquired[OF this, of "{UUID 0 1}" "\<lparr>lNow = 5, lIDs = {}, lInstances = {}, lTie = (\<lambda>_. 0)\<rparr>"]
  show ?thesis by force
qed

end
