(* ===== verification/Aggregate.thy ===== *)
theory Aggregate
  imports MessagePump
begin

text \<open>
  The aggregate engine (\<open>internal/aggregate\<close>): a driver of the message pump that delivers
  commands to aggregate instances, whose state is rebuilt from the events that they have recorded.

  The application's handler is a parameter.  Its \<open>HandleCommand\<close> is given by what it does, step by step: record an
  event, after which it goes on with what it sees of the root (and of a panic of \<open>RecordEvent\<close>, which it may recover
  from), panic, or return.  It changes the root only by recording events.

  The lemmas show that an instance's root is always the result of applying all of its recorded events, in
  order, whether or not a snapshot is used (\<open>replay\<close>), and that a command leaves the queue in the same
  transaction that appends the events it recorded.
\<close>

section \<open>The handler\<close>

datatype ('r, 'm) command_code =
    Return
  | Panics string
  | Record 'm "string option \<times> 'r \<Rightarrow> ('r, 'm) command_code"

record ('r, 'm) aggregate_handler =
  New_root :: "'r go"
  RouteCommandToInstance :: "'m \<Rightarrow> string go"
  HandleCommand :: "'r \<Rightarrow> 'm \<Rightarrow> ('r, 'm) command_code"
  ApplyEvent :: "'m \<Rightarrow> 'r \<Rightarrow> unit go \<times> 'r"
  MarshalRoot :: "'r \<Rightarrow> (err + bytes) go"
  UnmarshalRoot :: "bytes \<Rightarrow> 'r \<Rightarrow> err option go \<times> 'r"
  AggregateInstanceDescription :: "'r \<Rightarrow> string go"

text \<open>
  \<open>ValidUUID\<close> is \<open>uuidpb.UUID.Validate\<close>, and \<open>Writers\<close> is what \<open>eventstream.acquire_for_write\<close> sees of
  its surroundings.
\<close>

record ('p, 'r, 'm) aggregate =
  Handler :: "('r, 'm) aggregate_handler"
  Key :: uuid
  OutboundMessageTypes :: "string set"
  Messages :: "'m message_api"
  Envelopes_api :: envelope_api
  Packer :: "('p, 'm) packer_api"
  ValidUUID :: "uuid \<Rightarrow> bool"
  Writers :: "lock_env \<Rightarrow> acquire_env"

section \<open>The scope of a command\<close>

record ('p, 'r) command_scope =
  Root :: 'r
  Packed :: 'p

definition RecordEvent :: "('p, 'r, 'm) aggregate \<Rightarrow> 'm \<Rightarrow> ('p, 'r) command_scope \<Rightarrow> unit go \<times> ('p, 'r) command_scope" where
  "RecordEvent a event s =
     (if TypeOf (Messages a) event \<notin> OutboundMessageTypes a
      then (Panic ''this handler is not configured to record events of this type'', s)
      else (case Pack (Packer a) event None (Packed s) of (env, packed) \<Rightarrow>
        (let s1 = s\<lparr>Packed := packed\<rparr>
         in case Validate (Messages a) event \<lparr>IsNewMessage = True, vEnvelope = env\<rparr> of
              Panic m \<Rightarrow> (Panic m, s1)
            | Running \<Rightarrow> (Running, s1)
            | Ret (Some e) \<Rightarrow> (Panic ''event is invalid'', s1)
            | Ret None \<Rightarrow> (case ApplyEvent (Handler a) event (Root s) of (r, root) \<Rightarrow>
                (go_bind r (\<lambda>_. go_bind (MessageDescription (Messages a) event) (\<lambda>_. Ret ())), s1\<lparr>Root := root\<rparr>)))))"

primrec run_command :: "('r, 'm) command_code \<Rightarrow> ('p, 'r, 'm) aggregate \<Rightarrow> ('p, 'r) command_scope
    \<Rightarrow> unit go \<times> ('p, 'r) command_scope" where
  "run_command Return a s = (Ret (), s)"
| "run_command (Panics m) a s = (Panic m, s)"
| "run_command (Record event k) a s = (case RecordEvent a event s of
     (Ret _, s') \<Rightarrow> run_command (k (None, Root s')) a s'
   | (Panic m, s') \<Rightarrow> run_command (k (Some m, Root s')) a s'
   | (Running, s') \<Rightarrow> (Running, s'))"

section \<open>Loading an instance\<close>

definition routeCommandToInstance :: "('p, 'r, 'm) aggregate \<Rightarrow> 'm \<Rightarrow> (err + string) go" where
  "routeCommandToInstance a command = failed (caught (go_bind (RouteCommandToInstance (Handler a) command) (\<lambda>inst.
     if inst = [] then Ret (Inl (New ''handler returned an empty instance ID'')) else Ret (Inr inst))))"

definition newRoot :: "('p, 'r, 'm) aggregate \<Rightarrow> (err + 'r) go" where
  "newRoot a = failed (caught (go_value (New_root (Handler a))))"

definition valid_stream :: "('p, 'r, 'm) aggregate \<Rightarrow> uuid option \<Rightarrow> uuid option" where
  "valid_stream a sid = (case sid of None \<Rightarrow> None | Some i \<Rightarrow> if ValidUUID a i then Some i else None)"

definition after_snapshot :: "agg_row \<Rightarrow> offset" where
  "after_snapshot row = (case aSnapshotOffset row of None \<Rightarrow> 0 | Some o1 \<Rightarrow> o1 + 1)"

definition tryLockInstance :: "('p, 'r, 'm) aggregate \<Rightarrow> lock_env \<Rightarrow> string
    \<Rightarrow> (uuid option \<times> offset \<times> bytes option \<times> bool) tx" where
  "tryLockInstance a l inst =
     tx_bind (exec (wrapf ''unable to lock aggregate instance'') (\<lambda>d. Inr (case agg_instances d (Key a, inst) of
       None \<Rightarrow> (None, 0, None, False, False)
     | Some row \<Rightarrow> if (Key a, inst) \<in> lInstances l then (None, 0, None, True, False)
         else (aStreamID row, after_snapshot row, aSnapshot row, True, True), d)))
     (\<lambda>(sid, next, snap, exists, is_locked).
        if exists \<and> \<not> is_locked then tx_throw (Sentinel ErrBusy)
        else tx_return (valid_stream a sid, next, snap, exists))"

definition new_instance :: agg_row where
  "new_instance = \<lparr>aStreamID = None, aSnapshot = None, aSnapshotOffset = None\<rparr>"

definition tryCreateInstance :: "('p, 'r, 'm) aggregate \<Rightarrow> string \<Rightarrow> (uuid option \<times> offset \<times> bytes option) tx" where
  "tryCreateInstance a inst =
     tx_bind (exec (wrapf ''unable to insert aggregate instance'') (\<lambda>d. case agg_instances d (Key a, inst) of
       None \<Rightarrow> Inr (new_instance, d\<lparr>agg_instances := (agg_instances d)((Key a, inst) \<mapsto> new_instance)\<rparr>)
     | Some row \<Rightarrow> Inr (row, d)))
     (\<lambda>row. tx_return (valid_stream a (aStreamID row), after_snapshot row, aSnapshot row))"

definition applySnapshot :: "('p, 'r, 'm) aggregate \<Rightarrow> bytes \<Rightarrow> 'r \<Rightarrow> (bool \<times> 'r) go" where
  "applySnapshot a snapshot root = (case UnmarshalRoot (Handler a) snapshot root of
     (Ret None, root') \<Rightarrow> Ret (True, root')
   | (Ret (Some e), root') \<Rightarrow> Ret (False, root')
   | (Panic m, root') \<Rightarrow> Ret (False, root')
   | (Running, root') \<Rightarrow> Running)"

text \<open>The historical events of an instance from an offset on, in the order of the stream.\<close>

definition history :: "('p, 'r, 'm) aggregate \<Rightarrow> uuid \<Rightarrow> offset \<Rightarrow> string \<Rightarrow> db \<Rightarrow> event_row list" where
  "history a sid from inst d = sort_key eOffset (filter (\<lambda>r. eStreamID r = sid \<and> from \<le> eOffset r
     \<and> eAggKey r = Some (Key a) \<and> eAggInstance r = Some inst) (events d))"

fun apply_rows :: "('p, 'r, 'm) aggregate \<Rightarrow> event_row list \<Rightarrow> 'r \<Rightarrow> (err + 'r) go" where
  "apply_rows a [] root = Ret (Inr root)"
| "apply_rows a (row # rows) root =
     go_try (failed (Unpack (Envelopes_api a) (Messages a) (eEnvelope row) 1)) (\<lambda>ms.
       case ApplyEvent (Handler a) (hd ms) root of (r, root') \<Rightarrow>
         go_try (failed (caught (go_value r))) (\<lambda>_. apply_rows a rows root'))"

definition applyHistoricalEvents :: "('p, 'r, 'm) aggregate \<Rightarrow> uuid \<Rightarrow> offset \<Rightarrow> string \<Rightarrow> 'r \<Rightarrow> 'r tx" where
  "applyHistoricalEvents a sid from inst root =
     tx_bind (exec (wrapf ''unable to query events'') (\<lambda>d. Inr (history a sid from inst d, d))) (\<lambda>rows.
     tx_bind (tx_call (apply_rows a rows root)) (\<lambda>root'.
     tx_bind (exec (wrapf ''unable to iterate historical events'') (\<lambda>d. Inr ((), d))) (\<lambda>_.
     tx_return root')))"

text \<open>The second half of \<open>loadInstance\<close>: the root, from the snapshot if it can be used, and the events after it.\<close>

definition from_snapshot :: "('p, 'r, 'm) aggregate \<Rightarrow> offset \<Rightarrow> bytes option \<Rightarrow> 'r \<Rightarrow> (err + (offset \<times> 'r)) go" where
  "from_snapshot a next snap root =
     (if next \<noteq> 0 then
        go_try (go_value (applySnapshot a (case snap of Some b \<Rightarrow> b | None \<Rightarrow> []) root)) (\<lambda>(ok, root').
          if ok then Ret (Inr (next, root')) else go_try (newRoot a) (\<lambda>root''. Ret (Inr (0, root''))))
      else Ret (Inr (next, root)))"

definition rebuild :: "('p, 'r, 'm) aggregate \<Rightarrow> string \<Rightarrow> uuid option \<Rightarrow> offset \<Rightarrow> bytes option \<Rightarrow> ('r \<times> uuid option) tx" where
  "rebuild a inst sid next snap =
     tx_bind (tx_call (newRoot a)) (\<lambda>root.
     case sid of
       None \<Rightarrow> tx_return (root, None)
     | Some i \<Rightarrow>
         tx_bind (tx_call (from_snapshot a next snap root)) (\<lambda>(next, root).
         tx_bind (applyHistoricalEvents a i next inst root) (\<lambda>root. tx_return (root, Some i))))"

definition loadInstance :: "('p, 'r, 'm) aggregate \<Rightarrow> lock_env \<Rightarrow> string \<Rightarrow> ('r \<times> uuid option) tx" where
  "loadInstance a l inst =
     tx_bind (tryLockInstance a l inst) (\<lambda>(sid, next, snap, exists).
     tx_bind (if \<not> exists then tryCreateInstance a inst else tx_return (sid, next, snap)) (\<lambda>(sid, next, snap).
     rebuild a inst sid next snap))"

section \<open>Completing a command\<close>

definition marshalSnapshot :: "('p, 'r, 'm) aggregate \<Rightarrow> 'r \<Rightarrow> bytes option go" where
  "marshalSnapshot a root = go_bind (caught (MarshalRoot (Handler a) root)) (\<lambda>r. case r of
     Inl e \<Rightarrow> Ret None | Inr b \<Rightarrow> Ret (Some b))"

definition completeWithoutEvents :: "('p, 'r, 'm) aggregate \<Rightarrow> uuid \<Rightarrow> string \<Rightarrow> unit tx" where
  "completeWithoutEvents a mid inst = exec (wrapf ''unable to complete command handling'')
     (aggregate_complete_without_events mid (Key a) inst)"

definition completeWithEvents :: "('p, 'r, 'm) aggregate \<Rightarrow> lock_env \<Rightarrow> uuid \<Rightarrow> string \<Rightarrow> uuid option \<Rightarrow> uuid \<times> envelope list \<Rightarrow> 'r \<Rightarrow> unit tx" where
  "completeWithEvents a l mid inst sid sealed root =
     tx_bind (tx_call (go_value (marshalSnapshot a root))) (\<lambda>snap.
     exec (wrapf ''unable to complete command handling'') (\<lambda>d. case sql_events (Envelopes_api a) (snd sealed) of
       Inl e \<Rightarrow> Inl e
     | Inr evs \<Rightarrow> aggregate_complete_with_events (Writers a l) mid (Key a) inst sid (fst sealed) snap evs d))"

text \<open>The call of the application's \<open>HandleCommand\<close>, and the scope it leaves.\<close>

definition call_handler :: "('p, 'r, 'm) aggregate \<Rightarrow> 'r \<Rightarrow> 'm \<Rightarrow> 'p \<Rightarrow> (err + ('p, 'r) command_scope) go" where
  "call_handler a root command packer =
     (case run_command (HandleCommand (Handler a) root command) a \<lparr>Root = root, Packed = packer\<rparr> of
        (r, s) \<Rightarrow> go_try (failed (caught (go_value r))) (\<lambda>_. Ret (Inr s)))"

lemma call_handler_Inr [tx_simps]:
  "call_handler a root command packer = Ret (Inr s) \<longleftrightarrow>
     run_command (HandleCommand (Handler a) root command) a \<lparr>Root = root, Packed = packer\<rparr> = (Ret (), s)"
  by (auto simp: call_handler_def go_simps tx_simps split: prod.splits)

definition HandleDelivery_aggregate :: "('p, 'r, 'm) aggregate \<Rightarrow> lock_env \<Rightarrow> delivery \<Rightarrow> envelope \<Rightarrow> unit tx" where
  "HandleDelivery_aggregate a l del env =
     tx_bind (tx_call (failed (UnpackMessage (Messages a) env 2))) (\<lambda>ms.
     tx_bind (tx_call (routeCommandToInstance a (ms ! 0))) (\<lambda>inst.
     tx_bind (loadInstance a l inst) (\<lambda>(root, sid).
     tx_bind (tx_call (go_value (AggregateInstanceDescription (Handler a) root))) (\<lambda>_.
     tx_bind (tx_call (call_handler a root (ms ! 1) (PackEffects (Packer a) env (Key a) inst))) (\<lambda>s.
     case Seal (Packer a) (Packed s) of
       Some sealed \<Rightarrow> completeWithEvents a l (MessageID del) inst sid sealed (Root s)
     | None \<Rightarrow> completeWithoutEvents a (MessageID del) inst)))))"

section \<open>What handling a command leaves alone\<close>

text \<open>Until a command is completed, at most an instance without events has been created.\<close>

definition untouched :: "db \<Rightarrow> db \<Rightarrow> bool" where
  "untouched d d' \<longleftrightarrow> (\<exists>m. d' = d\<lparr>agg_instances := m\<rparr>
     \<and> (\<forall>k. m k = agg_instances d k \<or> agg_instances d k = None \<and> m k = Some new_instance))"

lemma untouched_fields:
  assumes "untouched d d'"
  shows "commands d' = commands d" "streams d' = streams d" "events d' = events d" "wf_db d' = wf_db d"
    "wf_queue d' = wf_queue d" "next_offset d' = next_offset d"
proof -
  obtain m where d': "d' = d\<lparr>agg_instances := m\<rparr>" using assms by (auto simp: untouched_def)
  then show c: "commands d' = commands d" "streams d' = streams d" "events d' = events d" by simp_all
  show "wf_db d' = wf_db d" by (rule wf_db_frame[OF c(2,3)])
  show "wf_queue d' = wf_queue d" using c(1) by (simp add: wf_queue_def)
  show "next_offset d' = next_offset d" using c(2) by (simp add: next_offset_def fun_eq_iff)
qed

lemma untouched_instances:
  "untouched d d' \<Longrightarrow> agg_instances d' k = agg_instances d k \<or> agg_instances d k = None \<and> agg_instances d' k = Some new_instance"
  unfolding untouched_def by (elim exE conjE allE[of _ k]) simp

lemma untouched_same [simp]: "untouched d d"
  unfolding untouched_def by (rule exI[of _ "agg_instances d"]) simp

lemma untouched_insert [simp]:
  "agg_instances d k = None \<Longrightarrow> untouched d (d\<lparr>agg_instances := (agg_instances d)(k \<mapsto> new_instance)\<rparr>)"
  unfolding untouched_def by (rule exI[of _ "(agg_instances d)(k \<mapsto> new_instance)"]) simp

lemma untouched_refl [simp]: "reflp untouched"
  by (simp add: reflp_def)

lemma untouched_trans [simp]: "transp untouched"
proof (rule transpI)
  fix d d1 d2
  assume a: "untouched d d1" and b: "untouched d1 d2"
  obtain m where m: "d1 = d\<lparr>agg_instances := m\<rparr>" "\<forall>k. m k = agg_instances d k \<or> agg_instances d k = None \<and> m k = Some new_instance"
    using a unfolding untouched_def by blast
  obtain m' where m': "d2 = d1\<lparr>agg_instances := m'\<rparr>" "\<forall>k. m' k = m k \<or> m k = None \<and> m' k = Some new_instance"
    using b m(1) unfolding untouched_def by fastforce
  have "m' k = agg_instances d k \<or> agg_instances d k = None \<and> m' k = Some new_instance" for k
    using m(2) m'(2) by (metis option.distinct(1))
  then show "untouched d d2" unfolding untouched_def using m(1) m'(1) by (intro exI[of _ m']) simp
qed



lemma loadInstance_untouched: "tx_keeps untouched (loadInstance a l inst)"
  unfolding loadInstance_def rebuild_def tryLockInstance_def tryCreateInstance_def applyHistoricalEvents_def
  by (intro frame_rules untouched_refl untouched_trans)
    (auto split: option.splits)

lemma HandleDelivery_defers: "tx_defers untouched (HandleDelivery_aggregate a l del env)"
  unfolding HandleDelivery_aggregate_def completeWithEvents_def completeWithoutEvents_def
  by (intro defer_rules loadInstance_untouched untouched_trans keeps_call untouched_refl)


section \<open>The pump's contract\<close>

definition sound_db :: "db \<Rightarrow> bool" where
  "sound_db d \<longleftrightarrow> wf_db d \<and> wf_queue d"

lemma commandqueue_remove_Inr:
  "commandqueue_remove mid d = Inr (u, d') \<longleftrightarrow> mid \<in> cMessageID ` set (commands d)
     \<and> d' = d\<lparr>commands := filter (\<lambda>c. cMessageID c \<noteq> mid) (commands d)\<rparr>"
  by (auto simp: commandqueue_remove_def)

lemma complete_without_events_Inr:
  assumes "aggregate_complete_without_events mid key inst d = Inr (u, d')"
  shows "commands d' = filter (\<lambda>c. cMessageID c \<noteq> mid) (commands d)" "streams d' = streams d" "events d' = events d"
    "agg_instances d' = (case agg_instances d (key, inst) of
       Some row \<Rightarrow> if aStreamID row = None then (agg_instances d)((key, inst) := None) else agg_instances d
     | None \<Rightarrow> agg_instances d)"
  using assms
  by (auto simp: aggregate_complete_without_events_def commandqueue_remove_Inr Let_def split: option.splits if_splits)

lemma update_instance_fields [simp]:
  "commands (update_instance key inst f d) = commands d"
  "agg_instances (update_instance key inst f d) =
     (agg_instances d)((key, inst) := map_option f (agg_instances d (key, inst)))"
  by (auto simp: update_instance_def fun_eq_iff split: option.splits)

lemma append_fields:
  "eventstream_append sid corr key inst evs d = Inr (n, d') \<Longrightarrow> commands d' = commands d \<and> agg_instances d' = agg_instances d"
  by (auto elim!: append_cases)

lemma acquire_fields:
  "acquire_for_write env d = Inr (sid, d') \<Longrightarrow> commands d' = commands d \<and> agg_instances d' = agg_instances d \<and> events d' = events d"
  by (auto elim!: acquire_cases)

text \<open>Completing with events: bind a stream if there is none, append, save the snapshot, remove the command.\<close>

lemma complete_with_events_cases:
  assumes "aggregate_complete_with_events env mid key inst stream corr snap evs d = Inr (u, d')"
  obtains sid d0 d1 n d2 where
    "case stream of Some i \<Rightarrow> sid = i \<and> d0 = d \<and> d1 = d
     | None \<Rightarrow> acquire_for_write env d = Inr (sid, d0) \<and> d1 = update_instance key inst (\<lambda>row. row\<lparr>aStreamID := Some sid\<rparr>) d0"
    "eventstream_append sid corr (Some key) (Some inst) evs d1 = Inr (n, d2)"
    "streams d' = streams d2" "events d' = events d2" "commands d' = filter (\<lambda>c. cMessageID c \<noteq> mid) (commands d)"
    "agg_instances d' = (case snap of None \<Rightarrow> agg_instances d2
       | Some data \<Rightarrow> (agg_instances d2)((key, inst) := map_option (\<lambda>row. row\<lparr>aSnapshotOffset := map_option (\<lambda>n. n - 1) n, aSnapshot := Some data\<rparr>)
           (agg_instances d2 (key, inst))))"
proof -
  obtain sid d1 n d2 x d3 where
    b: "(case stream of Some i \<Rightarrow> sql_return i | None \<Rightarrow> sql_bind (acquire_for_write env) (\<lambda>sid d.
             Inr (sid, update_instance key inst (\<lambda>row. row\<lparr>aStreamID := Some sid\<rparr>) d))) d = Inr (sid, d1)"
    and ap: "eventstream_append sid corr (Some key) (Some inst) evs d1 = Inr (n, d2)"
    and sn: "(case snap of None \<Rightarrow> Inr ((), d2) | Some data \<Rightarrow>
        if n = None \<and> agg_instances d2 (key, inst) \<noteq> None then Inl (New ''new row violates check constraint'')
        else Inr ((), update_instance key inst
          (\<lambda>row. row\<lparr>aSnapshotOffset := map_option (\<lambda>n. n - 1) n, aSnapshot := Some data\<rparr>) d2)) = Inr (x, d3)"
    and rm: "commandqueue_remove mid d3 = Inr (u, d')"
    using assms unfolding aggregate_complete_with_events_def sql_bind_eq by blast
  obtain d0 where d0: "case stream of Some i \<Rightarrow> sid = i \<and> d0 = d \<and> d1 = d
     | None \<Rightarrow> acquire_for_write env d = Inr (sid, d0) \<and> d1 = update_instance key inst (\<lambda>row. row\<lparr>aStreamID := Some sid\<rparr>) d0"
    using b by (cases stream) (auto simp: sql_simps)
  have "commands d1 = commands d"
    using d0 by (auto dest: acquire_fields split: option.splits)
  moreover have "streams d3 = streams d2" "events d3 = events d2" "commands d3 = commands d2"
    "agg_instances d3 = (case snap of None \<Rightarrow> agg_instances d2
       | Some data \<Rightarrow> (agg_instances d2)((key, inst) := map_option (\<lambda>row. row\<lparr>aSnapshotOffset := map_option (\<lambda>n. n - 1) n, aSnapshot := Some data\<rparr>)
           (agg_instances d2 (key, inst))))"
    using sn by (auto split: option.splits if_splits)
  ultimately show thesis
    using that[OF d0 ap] rm append_fields[OF ap] by (auto simp: commandqueue_remove_Inr)
qed

lemma complete_with_events_sound:
  assumes "aggregate_complete_with_events env mid key inst stream corr snap evs d = Inr (u, d')" and "wf_db d"
  shows "wf_db d' \<and> db_extends d d'"
  using assms(1)
proof (cases rule: complete_with_events_cases)
  case (1 sid d0 d1 n d2)
  have "wf_db d1 \<and> db_extends d d1"
  proof (cases stream)
    case None
    then have a: "acquire_for_write env d = Inr (sid, d0)" "streams d1 = streams d0" "events d1 = events d0"
      using 1(1) by auto
    from acquire_wf[OF assms(2) a(1)] show ?thesis
      using wf_db_frame[OF a(2,3)] db_extends_frame[OF a(2,3)] by (auto intro: db_extends_trans)
  next
    case (Some i)
    then show ?thesis using 1(1) assms(2) by simp
  qed
  then have "wf_db d2 \<and> db_extends d d2"
    using append_wf[OF _ 1(2)] append_extends[OF 1(2)] by (auto intro: db_extends_trans)
  then show ?thesis
    using wf_db_frame[OF 1(3,4)] db_extends_frame[OF 1(3,4)] by (auto intro: db_extends_trans)
qed

text \<open>A delivery that was handled has been completed, in one of the two ways.\<close>

lemma completeWithEvents_Inr:
  assumes "completeWithEvents a l mid inst stream (corr, envs) root s = (Ret (Inr u), s')"
  shows "\<exists>snap evs. marshalSnapshot a root = Ret snap \<and> sql_events (Envelopes_api a) envs = Inr evs
    \<and> aggregate_complete_with_events (Writers a l) mid (Key a) inst stream corr snap evs (Db s) = Inr ((), Db s')"
  using assms by (cases "sql_events (Envelopes_api a) envs") (auto simp: completeWithEvents_def tx_simps)

text \<open>The steps of handling a command, when all of them succeed.\<close>

lemma HandleDelivery_steps:
  assumes "HandleDelivery_aggregate a l del env s = (Ret (Inr u), s')"
  obtains m inst root stream s1 sc where
    "Unpack_message (Messages a) env = Ret (Inr m)" "RouteCommandToInstance (Handler a) m = Ret inst"
    "loadInstance a l inst s = (Ret (Inr (root, stream)), s1)"
    "run_command (HandleCommand (Handler a) root m) a \<lparr>Root = root, Packed = PackEffects (Packer a) env (Key a) inst\<rparr> = (Ret (), sc)"
    "case Seal (Packer a) (Packed sc) of
       None \<Rightarrow> aggregate_complete_without_events (MessageID del) (Key a) inst (Db s1) = Inr ((), Db s')
     | Some (corr, envs) \<Rightarrow> \<exists>snap evs. marshalSnapshot a (Root sc) = Ret snap \<and> sql_events (Envelopes_api a) envs = Inr evs
         \<and> aggregate_complete_with_events (Writers a l) (MessageID del) (Key a) inst stream corr snap evs (Db s1) = Inr ((), Db s')"
proof -
  obtain ms inst root stream s1 sc where
    ms: "failed (UnpackMessage (Messages a) env 2) = Ret (Inr ms)"
    and route: "routeCommandToInstance a (ms ! 0) = Ret (Inr inst)"
    and load: "loadInstance a l inst s = (Ret (Inr (root, stream)), s1)"
    and run: "call_handler a root (ms ! 1) (PackEffects (Packer a) env (Key a) inst) = Ret (Inr sc)"
    and fin: "(case Seal (Packer a) (Packed sc) of
       Some sealed \<Rightarrow> completeWithEvents a l (MessageID del) inst stream sealed (Root sc)
     | None \<Rightarrow> completeWithoutEvents a (MessageID del) inst) s1 = (Ret (Inr u), s')"
    using assms unfolding HandleDelivery_aggregate_def by (auto simp: tx_bind_Inr tx_call_eq)
  obtain m where m: "ms = [m, m]" "Unpack_message (Messages a) env = Ret (Inr m)"
    using ms UnpackMessage_Inr[of "Messages a" env 1 ms] by (auto simp: tx_simps numeral_2_eq_2)
  have "RouteCommandToInstance (Handler a) m = Ret inst"
    using route m(1) by (auto simp: routeCommandToInstance_def tx_simps go_simps split: if_splits)
  moreover have "case Seal (Packer a) (Packed sc) of
       None \<Rightarrow> aggregate_complete_without_events (MessageID del) (Key a) inst (Db s1) = Inr ((), Db s')
     | Some (corr, envs) \<Rightarrow> \<exists>snap evs. marshalSnapshot a (Root sc) = Ret snap \<and> sql_events (Envelopes_api a) envs = Inr evs
         \<and> aggregate_complete_with_events (Writers a l) (MessageID del) (Key a) inst stream corr snap evs (Db s1) = Inr ((), Db s')"
    using fin by (auto simp: completeWithoutEvents_def tx_simps dest!: completeWithEvents_Inr split: option.splits)
  ultimately show thesis using that[OF m(2) _ load] run m(1) by (simp add: tx_simps)
qed

lemma HandleDelivery_completes:
  assumes "HandleDelivery_aggregate a l del env s = (Ret (Inr u), s')" and "\<not> Broken s"
  obtains (without) inst d1 where "untouched (Db s) d1"
      "aggregate_complete_without_events (MessageID del) (Key a) inst d1 = Inr ((), Db s')"
    | (with_events) inst d1 stream corr snap evs where "untouched (Db s) d1"
      "aggregate_complete_with_events (Writers a l) (MessageID del) (Key a) inst stream corr snap evs d1 = Inr ((), Db s')"
  using assms(1)
proof (rule HandleDelivery_steps)
  fix m inst root stream s1 sc
  assume load: "loadInstance a l inst s = (Ret (Inr (root, stream)), s1)"
    and fin: "case Seal (Packer a) (Packed sc) of
       None \<Rightarrow> aggregate_complete_without_events (MessageID del) (Key a) inst (Db s1) = Inr ((), Db s')
     | Some (corr, envs) \<Rightarrow> \<exists>snap evs. marshalSnapshot a (Root sc) = Ret snap \<and> sql_events (Envelopes_api a) envs = Inr evs
         \<and> aggregate_complete_with_events (Writers a l) (MessageID del) (Key a) inst stream corr snap evs (Db s1) = Inr ((), Db s')"
  have "untouched (Db s) (Db s1)" using tx_keeps_Inr[OF loadInstance_untouched load assms(2)] by blast
  then show thesis using fin without with_events by (auto split: option.splits)
qed

lemma HandleDelivery_extends:
  assumes "HandleDelivery_aggregate a l del env s = (Ret (Inr u), s')" and "\<not> Broken s" and "wf_db (Db s)"
  shows "db_extends (Db s) (Db s')"
  using assms(1,2)
proof (cases rule: HandleDelivery_completes)
  case (without inst d1)
  then show ?thesis
    using complete_without_events_Inr[OF without(2)] untouched_fields[OF without(1)] by (intro db_extends_frame) simp_all
next
  case (with_events inst d1 stream corr snap evs)
  have "db_extends (Db s) d1" using untouched_fields[OF with_events(1)] by (intro db_extends_frame) simp_all
  moreover have "wf_db d1" using untouched_fields[OF with_events(1)] assms(3) by simp
  ultimately show ?thesis using complete_with_events_sound[OF with_events(2)] by (auto intro: db_extends_trans)
qed

interpretation aggregate_driver: command_driver types "HandleDelivery_aggregate a" eapi sound_db for types a eapi
proof (unfold_locales, goal_cases)
  case (1 d)
  then show ?case by (simp add: sound_db_def)
next
  case (2 d mid failures at n d')
  then have "streams d' = streams d" "events d' = events d" by (auto simp: postpone_command_def split: if_splits)
  then show ?case using 2(1) wf_db_frame[of d' d] postpone_command_queue(1)[OF 2(2)] by (simp add: sound_db_def)
next
  case (3 l del m s u s')
  show ?case
    using 3(1,4)
  proof (cases rule: HandleDelivery_completes)
    case (without inst d1)
    then show ?thesis
      using 3(2) complete_without_events_Inr[OF without(2)] untouched_fields[OF without(1)] wf_db_frame[of "Db s'" d1]
      by (simp add: sound_db_def wf_queue_def distinct_map_filter)
  next
    case (with_events inst d1 stream corr snap evs)
    from with_events(2) have "commands (Db s') = filter (\<lambda>c. cMessageID c \<noteq> MessageID del) (commands d1)"
      by (cases rule: complete_with_events_cases) simp
    then show ?thesis
      using 3(2) untouched_fields[OF with_events(1)] complete_with_events_sound[OF with_events(2)]
      by (simp add: sound_db_def wf_queue_def distinct_map_filter)
  qed
next
  case (4 l del m s e s')
  from tx_defersD[OF HandleDelivery_defers 4(1,3)] have "untouched (Db s) (Db s')" by blast
  from untouched_fields[OF this] 4(4) show ?case by (simp add: sound_db_def)
qed

section \<open>Event sourcing\<close>

text \<open>
  The events that an instance has recorded, and the invariant: they are all in the stream
  that the instance is bound to, and a snapshot is the root after the events up to its offset.
\<close>

definition recorded :: "('p, 'r, 'm) aggregate \<Rightarrow> string \<Rightarrow> db \<Rightarrow> event_row list" where
  "recorded a inst d = filter (\<lambda>r. eAggKey r = Some (Key a) \<and> eAggInstance r = Some inst) (events d)"

definition replays :: "('p, 'r, 'm) aggregate \<Rightarrow> event_row list \<Rightarrow> 'r \<Rightarrow> bool" where
  "replays a rows root \<longleftrightarrow> (\<exists>r0. New_root (Handler a) = Ret r0 \<and> apply_rows a rows r0 = Ret (Inr root))"

definition snapshot_ok :: "('p, 'r, 'm) aggregate \<Rightarrow> event_row list \<Rightarrow> agg_row \<Rightarrow> bool" where
  "snapshot_ok a rows row \<longleftrightarrow> (\<forall>n. aSnapshotOffset row = Some n \<longrightarrow> n + 1 \<noteq> 0
     \<and> (\<exists>b root. aSnapshot row = Some b \<and> MarshalRoot (Handler a) root = Ret (Inr b)
          \<and> replays a (filter (\<lambda>r. eOffset r \<le> n) rows) root))"

definition bound :: "('p, 'r, 'm) aggregate \<Rightarrow> string \<Rightarrow> db \<Rightarrow> agg_row \<Rightarrow> bool" where
  "bound a inst d row = (case aStreamID row of
     None \<Rightarrow> recorded a inst d = [] \<and> aSnapshotOffset row = None
   | Some sid \<Rightarrow> sid \<in> set (map fst (streams d)) \<and> (\<forall>r \<in> set (recorded a inst d). eStreamID r = sid)
       \<and> snapshot_ok a (recorded a inst d) row
       \<and> (\<forall>n. aSnapshotOffset row = Some n \<longrightarrow> (\<exists>m. next_offset d sid = Some m \<and> n < m)))"

definition agg_ok :: "('p, 'r, 'm) aggregate \<Rightarrow> db \<Rightarrow> bool" where
  "agg_ok a d \<longleftrightarrow> sound_db d \<and> (\<forall>sid \<in> set (map fst (streams d)). ValidUUID a sid)
     \<and> (\<forall>inst. case agg_instances d (Key a, inst) of
          None \<Rightarrow> recorded a inst d = [] | Some row \<Rightarrow> bound a inst d row)"

text \<open>
  What is assumed of the application and of \<open>envelopepb\<close>: a root that is marshalled can be unmarshalled
  into a new root, and an event that was packed and marshalled is unpacked as the same event.
\<close>

definition snapshot_codec :: "('p, 'r, 'm) aggregate \<Rightarrow> bool" where
  "snapshot_codec a \<longleftrightarrow> (\<forall>root b r0. MarshalRoot (Handler a) root = Ret (Inr b) \<longrightarrow> New_root (Handler a) = Ret r0 \<longrightarrow>
     UnmarshalRoot (Handler a) b r0 = (Ret None, root))"

definition event_codec :: "('p, 'r, 'm) aggregate \<Rightarrow> bool" where
  "event_codec a \<longleftrightarrow> (\<forall>event p env p' data. Pack (Packer a) event None p = (env, p') \<longrightarrow>
     Validate (Messages a) event \<lparr>IsNewMessage = True, vEnvelope = env\<rparr> = Ret None \<longrightarrow>
     MarshalBinary (Envelopes_api a) env = Inr data \<longrightarrow> Unpack (Envelopes_api a) (Messages a) data 1 = Ret (Inr [event]))"

lemma apply_rows_append:
  "apply_rows a (xs @ ys) root = go_try (apply_rows a xs root) (apply_rows a ys)"
proof (induction xs arbitrary: root)
  case (Cons x xs)
  then show ?case by (simp add: go_try_assoc case_prod_unfold)
qed (simp add: go_try_def)

lemma sorted_below:
  fixes f :: "'a \<Rightarrow> offset"
  assumes "sorted (map f xs)"
  shows "filter (\<lambda>x. \<not> n \<le> f x) xs @ filter (\<lambda>x. n \<le> f x) xs = xs"
  using assms
proof (induction xs)
  case (Cons x xs)
  show ?case
  proof (cases "n \<le> f x")
    case True
    then have "\<forall>y \<in> set xs. n \<le> f y" using Cons.prems by fastforce
    then show ?thesis using True by (simp add: filter_empty_conv filter_id_conv)
  qed (use Cons in simp)
qed simp

lemma stream_events_sorted:
  assumes "wf_db d"
  shows "sorted (map eOffset (stream_events d sid))"
proof (cases "next_offset d sid")
  case None
  then have "stream_events d sid = []"
    using assms by (auto simp: wf_db_def stream_events_def filter_empty_conv next_offset_def map_of_eq_None_iff)
  then show ?thesis by simp
next
  case (Some n)
  have "sorted (map (unat \<circ> eOffset) (stream_events d sid))"
    using wf_dbD(2)[OF assms Some] by (metis sorted_upt)
  then show ?thesis by (simp add: sorted_map word_le_nat_alt)
qed

lemma recorded_stream:
  assumes "\<forall>r \<in> set (recorded a inst d). eStreamID r = sid"
  shows "recorded a inst d = filter (\<lambda>r. eAggKey r = Some (Key a) \<and> eAggInstance r = Some inst) (stream_events d sid)"
  using assms by (auto simp: recorded_def stream_events_def intro!: filter_cong)

lemma recorded_sorted:
  assumes "wf_db d" and "\<forall>r \<in> set (recorded a inst d). eStreamID r = sid"
  shows "sorted (map eOffset (recorded a inst d))"
  unfolding recorded_stream[OF assms(2)] by (intro sorted_filter stream_events_sorted assms)

lemma history_recorded:
  assumes "wf_db d" and "\<forall>r \<in> set (recorded a inst d). eStreamID r = sid"
  shows "history a sid from inst d = filter (\<lambda>r. from \<le> eOffset r) (recorded a inst d)"
proof -
  have "filter (\<lambda>r. eStreamID r = sid \<and> from \<le> eOffset r \<and> eAggKey r = Some (Key a) \<and> eAggInstance r = Some inst) (events d)
      = filter (\<lambda>r. from \<le> eOffset r) (recorded a inst d)"
    using assms(2) by (auto simp: recorded_def intro!: filter_cong)
  then show ?thesis
    using sorted_filter[OF recorded_sorted[OF assms]] by (simp add: history_def sort_key_id_if_sorted)
qed

lemma replays_append:
  assumes "replays a xs root" and "apply_rows a ys root = Ret (Inr root')"
  shows "replays a (xs @ ys) root'"
  using assms by (auto simp: replays_def apply_rows_append go_try_def)

lemma newRoot_Inr [tx_simps]: "newRoot a = Ret (Inr root) \<longleftrightarrow> New_root (Handler a) = Ret root"
  by (simp add: newRoot_def tx_simps)

lemma from_snapshot_replays:
  assumes "from_snapshot a (after_snapshot row) (aSnapshot row) r0 = Ret (Inr (next, root))"
    and "New_root (Handler a) = Ret r0" and "snapshot_ok a rows row" and "snapshot_codec a"
  shows "replays a (filter (\<lambda>r. \<not> next \<le> eOffset r) rows) root"
proof (cases "aSnapshotOffset row")
  case None
  then have "next = 0" "root = r0" using assms(1) by (auto simp: from_snapshot_def after_snapshot_def)
  then show ?thesis using assms(2) by (simp add: replays_def)
next
  case (Some n)
  then obtain b root1 where snap: "n + 1 \<noteq> 0" "aSnapshot row = Some b" "MarshalRoot (Handler a) root1 = Ret (Inr b)"
    "replays a (filter (\<lambda>r. eOffset r \<le> n) rows) root1"
    using assms(3) by (auto simp: snapshot_ok_def)
  then have "UnmarshalRoot (Handler a) b r0 = (Ret None, root1)"
    using assms(2,4) by (auto simp: snapshot_codec_def)
  then have "next = n + 1" "root = root1"
    using assms(1) Some snap(1,2) by (auto simp: from_snapshot_def after_snapshot_def applySnapshot_def go_try_def go_value_def)
  moreover have "n < n + 1" using snap(1) by unat_arith
  then have "\<not> n + 1 \<le> x \<longleftrightarrow> x \<le> n" for x :: offset by (simp add: offset_Suc_le_iff not_less)
  ultimately show ?thesis using snap(4) by simp
qed

lemma rebuild_replays:
  assumes "rebuild a inst (valid_stream a (aStreamID row)) (after_snapshot row) (aSnapshot row) s = (Ret (Inr (root, stream)), s')"
    and "agg_ok a (Db s)" and "bound a inst (Db s) row" and "snapshot_codec a"
  shows "stream = aStreamID row \<and> replays a (recorded a inst (Db s)) root \<and> Db s' = Db s"
proof (cases "aStreamID row")
  case None
  then show ?thesis
    using assms(1,3) by (auto simp: rebuild_def valid_stream_def bound_def tx_simps replays_def)
next
  case (Some sid)
  then have b: "sid \<in> set (map fst (streams (Db s)))" "\<forall>r \<in> set (recorded a inst (Db s)). eStreamID r = sid"
    "snapshot_ok a (recorded a inst (Db s)) row"
    using assms(3) by (auto simp: bound_def)
  then have valid: "valid_stream a (Some sid) = Some sid" and wf: "wf_db (Db s)"
    using assms(2) by (auto simp: agg_ok_def sound_db_def valid_stream_def)
  obtain r0 "next" root1 where r: "New_root (Handler a) = Ret r0"
    "from_snapshot a (after_snapshot row) (aSnapshot row) r0 = Ret (Inr (next, root1))"
    "apply_rows a (history a sid next inst (Db s)) root1 = Ret (Inr root)" "stream = Some sid" "Db s' = Db s"
    using assms(1) Some valid by (auto simp: rebuild_def applyHistoricalEvents_def tx_simps)
  let ?rows = "recorded a inst (Db s)"
  have "replays a (filter (\<lambda>r. \<not> next \<le> eOffset r) ?rows) root1"
    by (rule from_snapshot_replays[OF r(2,1) b(3) assms(4)])
  moreover have "apply_rows a (filter (\<lambda>r. next \<le> eOffset r) ?rows) root1 = Ret (Inr root)"
    using r(3) history_recorded[OF wf b(2)] by simp
  ultimately have "replays a (filter (\<lambda>r. \<not> next \<le> eOffset r) ?rows @ filter (\<lambda>r. next \<le> eOffset r) ?rows) root"
    by (rule replays_append)
  then show ?thesis
    using Some r(4,5) sorted_below[OF recorded_sorted[OF wf b(2)], of "next"] by simp
qed

lemma agg_okD:
  assumes "agg_ok a d"
  shows "agg_instances d (Key a, i) = Some row \<Longrightarrow> bound a i d row" and "agg_instances d (Key a, i) = None \<Longrightarrow> recorded a i d = []"
proof -
  have "case agg_instances d (Key a, i) of None \<Rightarrow> recorded a i d = [] | Some row \<Rightarrow> bound a i d row"
    using assms unfolding agg_ok_def by blast
  then show "agg_instances d (Key a, i) = Some row \<Longrightarrow> bound a i d row" "agg_instances d (Key a, i) = None \<Longrightarrow> recorded a i d = []"
    by simp_all
qed

lemma untouched_agg_ok:
  assumes "untouched d d'" and "agg_ok a d"
  shows "agg_ok a d'"
proof -
  note f = untouched_fields[OF assms(1)]
  have rec: "recorded a inst d' = recorded a inst d" for inst using f by (simp add: recorded_def)
  have "case agg_instances d' (Key a, inst) of None \<Rightarrow> recorded a inst d' = [] | Some row \<Rightarrow> bound a inst d' row" for inst
  proof -
    have old: "case agg_instances d (Key a, inst) of None \<Rightarrow> recorded a inst d = [] | Some row \<Rightarrow> bound a inst d row"
      using assms(2) by (simp add: agg_ok_def)
    have "bound a inst d' row = bound a inst d row" for row using f rec by (simp add: bound_def split: option.split)
    moreover have "agg_instances d' (Key a, inst) = agg_instances d (Key a, inst)
        \<or> agg_instances d (Key a, inst) = None \<and> agg_instances d' (Key a, inst) = Some new_instance"
      by (rule untouched_instances[OF assms(1)])
    moreover have "recorded a inst d = [] \<Longrightarrow> bound a inst d new_instance" by (simp add: bound_def new_instance_def)
    ultimately show ?thesis
      using old rec by (elim disjE) (auto split: option.splits)
  qed
  then show ?thesis using assms(2) f by (simp add: agg_ok_def sound_db_def)
qed

text \<open>
  However an instance is loaded, its root is the result of applying every event that it has
  recorded, and its row is there, bound to the stream that is returned.
\<close>

lemma loadInstance_replays:
  assumes "loadInstance a l inst s = (Ret (Inr (root, stream)), s')" and "agg_ok a (Db s)" and "snapshot_codec a" and "\<not> Broken s"
  shows "agg_ok a (Db s') \<and> replays a (recorded a inst (Db s')) root
    \<and> (\<exists>row. agg_instances (Db s') (Key a, inst) = Some row \<and> aStreamID row = stream)"
proof -
  have unt: "untouched (Db s) (Db s')" using tx_keeps_Inr[OF loadInstance_untouched assms(1,4)] by blast
  obtain sid "next" snap exists s1 where lock: "tryLockInstance a l inst s = (Ret (Inr (sid, next, snap, exists)), s1)"
    and rest: "tx_bind (if \<not> exists then tryCreateInstance a inst else tx_return (sid, next, snap)) (\<lambda>(sid, next, snap).
       rebuild a inst sid next snap) s1 = (Ret (Inr (root, stream)), s')"
    using assms(1) by (auto simp: loadInstance_def tx_bind_Inr)
  have s1: "Db s1 = Db s" using lock by (auto simp: tryLockInstance_def tx_simps split: option.splits if_splits)
  obtain row s2 where row: "agg_instances (Db s2) (Key a, inst) = Some row" "untouched (Db s) (Db s2)"
    "rebuild a inst (valid_stream a (aStreamID row)) (after_snapshot row) (aSnapshot row) s2 = (Ret (Inr (root, stream)), s')"
  proof (cases "agg_instances (Db s) (Key a, inst)")
    case None
    then have "\<not> exists" using lock by (auto simp: tryLockInstance_def tx_simps)
    then obtain s2 x where "tryCreateInstance a inst s1 = (Ret (Inr x), s2)" "(case x of (sid, next, snap) \<Rightarrow> rebuild a inst sid next snap) s2 = (Ret (Inr (root, stream)), s')"
      using rest by (auto simp: tx_bind_Inr)
    then show thesis using that[of s2 new_instance] None s1 by (auto simp: tryCreateInstance_def tx_simps)
  next
    case (Some row)
    then have "exists" "sid = valid_stream a (aStreamID row)" "next = after_snapshot row" "snap = aSnapshot row"
      using lock by (auto simp: tryLockInstance_def tx_simps split: if_splits)
    then show thesis using that[of s1 row] rest Some s1 by (auto simp: tx_simps)
  qed
  have ok: "agg_ok a (Db s2)" by (rule untouched_agg_ok[OF row(2) assms(2)])
  then have "bound a inst (Db s2) row"
    using row(1) by (simp add: agg_ok_def split: option.splits)
  from rebuild_replays[OF row(3) ok this assms(3)] show ?thesis using ok row(1) by auto
qed

section \<open>Recording events\<close>

text \<open>
  A handler does not recover from the panics of \<open>RecordEvent\<close>.
\<close>

primrec propagates :: "('r, 'm) command_code \<Rightarrow> bool" where
  "propagates Return = True"
| "propagates (Panics m) = True"
| "propagates (Record event k) = ((\<forall>msg root. \<exists>m. k (Some msg, root) = Panics m) \<and> (\<forall>root. propagates (k (None, root))))"

definition packed_event :: "('p, 'r, 'm) aggregate \<Rightarrow> 'm \<Rightarrow> envelope \<Rightarrow> bool" where
  "packed_event a event env \<longleftrightarrow> TypeOf (Messages a) event \<in> OutboundMessageTypes a
     \<and> (\<exists>p p'. Pack (Packer a) event None p = (env, p'))
     \<and> Validate (Messages a) event \<lparr>IsNewMessage = True, vEnvelope = env\<rparr> = Ret None"

fun applies :: "('p, 'r, 'm) aggregate \<Rightarrow> 'm list \<Rightarrow> 'r \<Rightarrow> 'r \<Rightarrow> bool" where
  "applies a [] root root' \<longleftrightarrow> root = root'"
| "applies a (event # es) root root' \<longleftrightarrow> (\<exists>r1. ApplyEvent (Handler a) event root = (Ret (), r1) \<and> applies a es r1 root')"

lemma RecordEvent_Ret:
  assumes "RecordEvent a event s = (Ret u, s')" and "packer_laws (Packer a) contents"
  shows "\<exists>env. contents (Packed s') = contents (Packed s) @ [env] \<and> packed_event a event env
    \<and> ApplyEvent (Handler a) event (Root s) = (Ret (), Root s')"
proof -
  obtain env packed where p: "Pack (Packer a) event None (Packed s) = (env, packed)" by fastforce
  have "TypeOf (Messages a) event \<in> OutboundMessageTypes a"
    "Validate (Messages a) event \<lparr>IsNewMessage = True, vEnvelope = env\<rparr> = Ret None"
    "ApplyEvent (Handler a) event (Root s) = (Ret (), Root s')" "Packed s' = packed"
    using assms(1) p by (auto simp: RecordEvent_def Let_def go_simps split: if_splits go.splits option.splits prod.splits)
  then show ?thesis using packer_lawsD(2)[OF assms(2) p] p by (auto simp: packed_event_def)
qed

text \<open>
  An event is packed before it is validated: an event that is rejected as invalid is among the effects all
  the same, should the handler recover from the panic.
\<close>

lemma invalid_event_packed:
  assumes "TypeOf (Messages a) event \<in> OutboundMessageTypes a" and "Pack (Packer a) event None (Packed s) = (env, packed)"
    and "Validate (Messages a) event \<lparr>IsNewMessage = True, vEnvelope = env\<rparr> = Ret (Some e)" and "packer_laws (Packer a) contents"
  shows "RecordEvent a event s = (Panic ''event is invalid'', s\<lparr>Packed := packed\<rparr>) \<and> contents packed = contents (Packed s) @ [env]"
  using assms packer_lawsD(2)[OF assms(4,2)] by (simp add: RecordEvent_def)

lemma run_command_records:
  assumes "run_command code a s = (Ret (), s')" and "propagates code" and "packer_laws (Packer a) contents"
  shows "\<exists>evs envs. contents (Packed s') = contents (Packed s) @ envs \<and> list_all2 (packed_event a) evs envs
    \<and> applies a evs (Root s) (Root s')"
  using assms(1,2)
proof (induction code arbitrary: s)
  case Return
  then show ?case by (intro exI[of _ "[]"]) simp
next
  case (Record event k)
  obtain r s1 where r: "RecordEvent a event s = (r, s1)" by fastforce
  show ?case
  proof (cases r)
    case (Ret u)
    obtain env where env: "contents (Packed s1) = contents (Packed s) @ [env]" "packed_event a event env"
      "ApplyEvent (Handler a) event (Root s) = (Ret (), Root s1)"
      using RecordEvent_Ret[OF _ assms(3)] r Ret by blast
    have "run_command (k (None, Root s1)) a s1 = (Ret (), s')" using Record.prems(1) r Ret by simp
    moreover have "propagates (k (None, Root s1))" using Record.prems(2) by simp
    ultimately obtain evs envs where "contents (Packed s') = contents (Packed s1) @ envs"
      "list_all2 (packed_event a) evs envs" "applies a evs (Root s1) (Root s')"
      using Record.IH[of "k (None, Root s1)" s1] by blast
    then show ?thesis using env by (intro exI[of _ "event # evs"] exI[of _ "env # envs"]) simp
  next
    case (Panic m)
    moreover obtain m' where "k (Some m, Root s1) = Panics m'" using Record.prems(2) by (metis propagates.simps(3))
    ultimately show ?thesis using Record.prems(1) r by simp
  next
    case Running
    then show ?thesis using Record.prems(1) r by simp
  qed
qed simp

lemma apply_packed:
  assumes "list_all2 (packed_event a) evs envs" and "sql_events (Envelopes_api a) envs = Inr rows"
    and "applies a evs root root'" and "event_codec a"
  shows "apply_rows a (rows_from sid corr key inst base rows) root = Ret (Inr root')"
  using assms(1-3)
proof (induction evs envs arbitrary: rows root base rule: list_all2_induct)
  case (Cons event evs env envs)
  obtain data rest where rows: "MarshalBinary (Envelopes_api a) env = Inr data" "sql_events (Envelopes_api a) envs = Inr rest"
    "rows = \<lparr>sqlMessageID = MessageId (Body env), sqlTypeID = TypeId (Body env), sqlEnvelope = data\<rparr> # rest"
    using Cons.prems(1) by (auto split: sum.splits)
  obtain r1 where r1: "ApplyEvent (Handler a) event root = (Ret (), r1)" "applies a evs r1 root'"
    using Cons.prems(2) by auto
  have "Unpack (Envelopes_api a) (Messages a) data 1 = Ret (Inr [event])"
    using Cons.hyps(1) rows(1) assms(4) unfolding packed_event_def event_codec_def by blast
  then show ?case
    using Cons.IH[OF rows(2) r1(2), of "base + 1"] rows(3) r1(1) by (simp add: go_try_def failed_def go_value_def)
qed simp

section \<open>The invariant is kept\<close>

definition writers_valid :: "('p, 'r, 'm) aggregate \<Rightarrow> bool" where
  "writers_valid a \<longleftrightarrow> (\<forall>l. ValidUUID a (fresh (Writers a l)))"

lemma acquire_valid:
  assumes "acquire_for_write env d = Inr (sid, d')" and "\<forall>i \<in> set (map fst (streams d)). P i" and "P (fresh env)"
  shows "\<forall>i \<in> set (map fst (streams d')). P i"
  using assms by (auto simp: acquire_for_write_def split: option.splits if_splits)

text \<open>The tables after a command has been completed with events, in terms of those before.\<close>

lemma complete_with_events_effect:
  assumes "aggregate_complete_with_events env mid key inst stream corr snap evs d = Inr (u, d')" and "wf_db d"
    and "agg_instances d (key, inst) = Some row" and "aStreamID row = stream"
    and "\<forall>sid. stream = Some sid \<longrightarrow> sid \<in> set (map fst (streams d))"
  obtains sid base row' where
    "stream = None \<or> stream = Some sid" "evs \<noteq> []" "unat base + length evs < 2 ^ 63"
    "next_offset d' sid = Some (base + of_nat (length evs))"
    "events d' = events d @ rows_from sid corr (Some key) (Some inst) base evs"
    "agg_instances d' = (agg_instances d)((key, inst) \<mapsto> row')" "aStreamID row' = Some sid"
    "if snap = None then aSnapshot row' = aSnapshot row \<and> aSnapshotOffset row' = aSnapshotOffset row
     else aSnapshot row' = snap \<and> aSnapshotOffset row' = Some (base + of_nat (length evs) - 1)"
    "stream = Some sid \<longrightarrow> next_offset d sid = Some base"
    "set (map fst (streams d')) \<subseteq> insert (fresh env) (set (map fst (streams d)))"
  using assms(1)
proof (rule complete_with_events_cases)
  fix sid d0 d1 n d2
  assume b: "case stream of Some i \<Rightarrow> sid = i \<and> d0 = d \<and> d1 = d
     | None \<Rightarrow> acquire_for_write env d = Inr (sid, d0) \<and> d1 = update_instance key inst (\<lambda>row. row\<lparr>aStreamID := Some sid\<rparr>) d0"
    and ap: "eventstream_append sid corr (Some key) (Some inst) evs d1 = Inr (n, d2)"
    and d': "streams d' = streams d2" "events d' = events d2"
      "agg_instances d' = (case snap of None \<Rightarrow> agg_instances d2
       | Some data \<Rightarrow> (agg_instances d2)((key, inst) := map_option (\<lambda>row. row\<lparr>aSnapshotOffset := map_option (\<lambda>n. n - 1) n, aSnapshot := Some data\<rparr>)
           (agg_instances d2 (key, inst))))"
  let ?row = "row\<lparr>aStreamID := Some sid\<rparr>"
  have d1: "stream = None \<or> stream = Some sid" "\<exists>m. next_offset d1 sid = Some m" "events d1 = events d"
    "agg_instances d1 = (agg_instances d)((key, inst) \<mapsto> ?row)" "stream = Some sid \<longrightarrow> next_offset d1 sid = next_offset d sid"
  proof -
    have "stream = Some sid \<Longrightarrow> \<exists>m. next_offset d sid = Some m"
      using assms(5) by (auto simp: next_offset_def weak_map_of_SomeI)
    then show "\<exists>m. next_offset d1 sid = Some m"
      using b by (auto simp: next_offset_def dest: acquire_known split: option.splits)
    show "stream = None \<or> stream = Some sid" "events d1 = events d" "stream = Some sid \<longrightarrow> next_offset d1 sid = next_offset d sid"
      using b by (auto dest: acquire_fields split: option.splits)
    show "agg_instances d1 = (agg_instances d)((key, inst) \<mapsto> ?row)"
      using b assms(3,4) by (auto dest: acquire_fields simp: fun_eq_iff split: option.splits)
  qed
  have "set (map fst (streams d1)) \<subseteq> insert (fresh env) (set (map fst (streams d)))"
    using b acquire_valid[of env d sid d0 "\<lambda>i. i \<in> insert (fresh env) (set (map fst (streams d)))"]
    by (auto split: option.splits)
  then have str: "streams d2 = set_next_offset sid k (streams d1) \<Longrightarrow> set (map fst (streams d')) \<subseteq> insert (fresh env) (set (map fst (streams d)))" for k
    using d'(1) by simp
  show thesis
    using ap
  proof (cases rule: append_cases)
    case unknown
    then show thesis using d1(2) by simp
  next
    case (appended base)
    have "agg_instances d2 (key, inst) = Some ?row" "agg_instances d2 = agg_instances d1" using appended(6) d1(4) by simp_all
    then show thesis
      using that[of sid base "case snap of None \<Rightarrow> ?row | Some data \<Rightarrow> ?row\<lparr>aSnapshotOffset := Some (base + of_nat (length evs) - 1), aSnapshot := snap\<rparr>"]
        appended d1 d' str by (auto simp: next_offset_def map_of_set_next_offset split: option.splits)
  qed
qed

lemma offset_le_pred: "(x :: offset) < m \<Longrightarrow> x \<le> m - 1"
  by unat_arith

lemma known_stream: "sid \<in> set (map fst (streams d)) \<longleftrightarrow> (\<exists>m. next_offset d sid = Some m)"
  by (metis map_of_eq_None_iff next_offset_def not_None_eq set_map)

lemma offsets_below:
  assumes "wf_db d" and "next_offset d sid = Some m" and "\<forall>r \<in> set (recorded a inst d). eStreamID r = sid"
  shows "\<forall>r \<in> set (recorded a inst d). eOffset r \<le> m - 1"
proof
  fix r
  assume "r \<in> set (recorded a inst d)"
  then have "r \<in> set (stream_events d sid)" using recorded_stream[OF assms(3)] by simp
  then have "unat (eOffset r) \<in> set (map (unat \<circ> eOffset) (stream_events d sid))" by force
  then have "eOffset r < m" unfolding wf_dbD(2)[OF assms(1,2)] by (simp add: word_less_nat_alt)
  then show "eOffset r \<le> m - 1" by (rule offset_le_pred)
qed

lemma rows_from_range:
  assumes "unat base + length evs < 2 ^ 63" and "r \<in> set (rows_from sid corr key inst base evs)"
  shows "base \<le> eOffset r" and "eOffset r \<le> base + of_nat (length evs) - 1"
proof -
  have "unat (eOffset r) \<in> set (map (unat \<circ> eOffset) (rows_from sid corr key inst base evs))" using assms(2) by force
  then have u: "unat base \<le> unat (eOffset r)" "unat (eOffset r) < unat base + length evs"
    unfolding rows_from_offsets[OF assms(1)] by auto
  then show "base \<le> eOffset r" by (simp add: word_le_nat_alt)
  have "unat (base + of_nat (length evs)) = unat base + length evs" by (rule unat_add_length[OF assms(1)])
  then have "eOffset r < base + of_nat (length evs)" using u(2) by (simp add: word_less_nat_alt)
  then show "eOffset r \<le> base + of_nat (length evs) - 1" by (rule offset_le_pred)
qed

lemma rows_from_agg:
  "r \<in> set (rows_from sid corr key inst base evs) \<Longrightarrow> eAggKey r = key \<and> eAggInstance r = inst"
  by (induction evs arbitrary: base) auto

lemma recorded_append:
  assumes "events d' = events d @ rows_from sid corr (Some (Key a)) (Some inst) base evs"
  shows "recorded a i d' = recorded a i d @ (if i = inst then rows_from sid corr (Some (Key a)) (Some inst) base evs else [])"
  using assms rows_from_agg[of _ sid corr "Some (Key a)" "Some inst" base evs]
  by (auto simp: recorded_def filter_id_conv filter_empty_conv)

lemma bound_extends:
  assumes "bound a inst d row" and "db_extends d d'" and "recorded a inst d' = recorded a inst d"
  shows "bound a inst d' row"
proof (cases "aStreamID row")
  case (Some sid)
  then have b: "sid \<in> set (map fst (streams d))" using assms(1) by (simp add: bound_def)
  then obtain m where m: "next_offset d sid = Some m" by (auto simp only: known_stream)
  then obtain m' where m': "next_offset d' sid = Some m'" "m \<le> m'" using assms(2) unfolding db_extends_def by blast
  then have "sid \<in> set (map fst (streams d'))" unfolding known_stream by blast
  then show ?thesis
    using assms(1,3) Some m m' unfolding bound_def by (auto simp: order.strict_trans2)
qed (use assms in \<open>simp add: bound_def\<close>)

lemma complete_with_agg_ok:
  assumes "aggregate_complete_with_events (Writers a l) mid (Key a) inst stream corr snap evs d = Inr (u, d')"
    and "agg_ok a d" and "agg_instances d (Key a, inst) = Some row" and "aStreamID row = stream" and "writers_valid a"
    and snap: "\<And>b. snap = Some b \<Longrightarrow> \<exists>root. MarshalRoot (Handler a) root = Ret (Inr b)
      \<and> (\<forall>sid base. replays a (recorded a inst d @ rows_from sid corr (Some (Key a)) (Some inst) base evs) root)"
  shows "agg_ok a d' \<and> (\<exists>sid base. (stream = None \<or> stream = Some sid) \<and> evs \<noteq> []
    \<and> events d' = events d @ rows_from sid corr (Some (Key a)) (Some inst) base evs)"
proof -
  have wf: "wf_db d" and bd: "bound a inst d row" using assms(2,3) by (auto simp: agg_ok_def sound_db_def split: option.splits)
  have known: "\<forall>sid. stream = Some sid \<longrightarrow> sid \<in> set (map fst (streams d))" using bd assms(4) by (auto simp: bound_def)
  have wf': "wf_db d'" "db_extends d d'" using complete_with_events_sound[OF assms(1) wf] by auto
  from assms(1) have cmds: "commands d' = filter (\<lambda>c. cMessageID c \<noteq> mid) (commands d)"
    by (rule complete_with_events_cases)
  from complete_with_events_effect[OF assms(1) wf assms(3,4) known] obtain sid base row' where
    e: "stream = None \<or> stream = Some sid" "evs \<noteq> []" "unat base + length evs < 2 ^ 63"
      "next_offset d' sid = Some (base + of_nat (length evs))"
      "events d' = events d @ rows_from sid corr (Some (Key a)) (Some inst) base evs"
      "agg_instances d' = (agg_instances d)((Key a, inst) \<mapsto> row')" "aStreamID row' = Some sid"
      "if snap = None then aSnapshot row' = aSnapshot row \<and> aSnapshotOffset row' = aSnapshotOffset row
       else aSnapshot row' = snap \<and> aSnapshotOffset row' = Some (base + of_nat (length evs) - 1)"
      "stream = Some sid \<longrightarrow> next_offset d sid = Some base"
      "set (map fst (streams d')) \<subseteq> insert (fresh (Writers a l)) (set (map fst (streams d)))"
    by metis
  note rec = recorded_append[OF e(5)]
  let ?new = "rows_from sid corr (Some (Key a)) (Some inst) base evs" and ?stop = "base + of_nat (length evs) :: offset"
  have len: "unat ?stop = unat base + length evs" by (rule unat_add_length[OF e(3)])
  have "bound a inst d' row'"
  proof -
    have mem: "sid \<in> set (map fst (streams d'))" using e(4) unfolding known_stream by blast
    have all: "\<forall>r \<in> set (recorded a inst d'). eStreamID r = sid"
      using rec[of inst] bd assms(4) e(1) by (auto simp: bound_def dest: rows_from_fields(3))
    have "snapshot_ok a (recorded a inst d') row' \<and> (\<forall>n. aSnapshotOffset row' = Some n \<longrightarrow> n < ?stop)"
    proof (cases snap)
      case None
      then show ?thesis
      proof (cases "aSnapshotOffset row")
        case (Some n)
        then have st: "stream = Some sid" using bd assms(4) e(1) by (auto simp: bound_def)
        then have n: "n < base" "snapshot_ok a (recorded a inst d) row" using bd Some assms(4) e(9) by (auto simp: bound_def)
        then have "filter (\<lambda>r. eOffset r \<le> n) ?new = []" using rows_from_range(1)[OF e(3)] by (fastforce simp: filter_empty_conv)
        moreover have "n < ?stop" using n(1) len by (simp add: word_less_nat_alt)
        ultimately show ?thesis using None Some n(2) e(8) rec[of inst] by (auto simp: snapshot_ok_def)
      qed (use e(8) None in \<open>simp add: snapshot_ok_def\<close>)
    next
      case (Some b)
      have "filter (\<lambda>r. eOffset r \<le> ?stop - 1) (recorded a inst d') = recorded a inst d'"
        using offsets_below[OF wf'(1) e(4) all] by (simp add: filter_id_conv)
      moreover have "0 < unat ?stop" using len e(2) by simp
      then have "?stop - 1 < ?stop" "?stop - 1 + 1 \<noteq> 0" by (auto simp: word_less_nat_alt unat_minus_one unat_gt_0)
      ultimately show ?thesis
        using snap[OF Some] Some e(8) rec[of inst] by (auto simp: snapshot_ok_def)
    qed
    then show ?thesis using mem all e(4,7) by (simp add: bound_def)
  qed
  moreover have "bound a i d' r" if "i \<noteq> inst" "agg_instances d (Key a, i) = Some r" for i r
    using that(1) bound_extends[OF agg_okD(1)[OF assms(2) that(2)] wf'(2)] rec[of i] by simp
  ultimately have "\<forall>i. case agg_instances d' (Key a, i) of None \<Rightarrow> recorded a i d' = [] | Some row \<Rightarrow> bound a i d' row"
    using agg_okD(2)[OF assms(2)] e(6) rec by (auto split: option.splits)
  moreover have "wf_queue d'" using assms(2) cmds by (simp add: agg_ok_def sound_db_def wf_queue_def distinct_map_filter)
  moreover have "\<forall>i \<in> set (map fst (streams d')). ValidUUID a i"
    using assms(2,5) e(10) unfolding agg_ok_def writers_valid_def by blast
  ultimately show ?thesis using wf'(1) e(1,2,5) by (auto simp: agg_ok_def sound_db_def)
qed

lemma complete_without_agg_ok:
  assumes "aggregate_complete_without_events mid (Key a) inst d = Inr (u, d')" and "agg_ok a d"
  shows "agg_ok a d'"
proof -
  note f = complete_without_events_Inr[OF assms(1)]
  have rec: "recorded a i d' = recorded a i d" for i using f(3) by (simp add: recorded_def)
  have ext: "db_extends d d'" by (rule db_extends_frame[OF f(2,3)])
  have "case agg_instances d' (Key a, i) of None \<Rightarrow> recorded a i d' = [] | Some row \<Rightarrow> bound a i d' row" for i
  proof (cases "agg_instances d (Key a, i)")
    case None
    then show ?thesis using f(4) rec agg_okD(2)[OF assms(2)] by (auto split: option.splits if_splits)
  next
    case (Some row)
    note b = agg_okD(1)[OF assms(2) Some]
    then show ?thesis
      using f(4) Some rec bound_extends[OF b ext rec] by (auto simp: bound_def[of a i d row] split: option.splits if_splits)
  qed
  moreover have "wf_queue d'" using assms(2) f(1) by (simp add: agg_ok_def sound_db_def wf_queue_def distinct_map_filter)
  ultimately show ?thesis
    using assms(2) f(2) wf_db_frame[OF f(2,3)] by (simp add: agg_ok_def sound_db_def)
qed

lemma marshalSnapshot_Some: "marshalSnapshot a root = Ret (Some b) \<longleftrightarrow> MarshalRoot (Handler a) root = Ret (Inr b)"
  by (cases "MarshalRoot (Handler a) root") (auto simp: marshalSnapshot_def split: sum.splits)

text \<open>What is assumed of the application, and of the packages that pack and marshal its messages.\<close>

definition app_ok :: "('p, 'r, 'm) aggregate \<Rightarrow> ('p \<Rightarrow> envelope list) \<Rightarrow> bool" where
  "app_ok a contents \<longleftrightarrow> packer_laws (Packer a) contents \<and> snapshot_codec a \<and> event_codec a \<and> writers_valid a
     \<and> (\<forall>root m. propagates (HandleCommand (Handler a) root m))"

definition after_command :: "('p, 'r, 'm) aggregate \<Rightarrow> envelope \<Rightarrow> db \<Rightarrow> db \<Rightarrow> bool" where
  "after_command a env d d' \<longleftrightarrow> (\<exists>m inst root root' evs rows.
     Unpack_message (Messages a) env = Ret (Inr m) \<and> RouteCommandToInstance (Handler a) m = Ret inst
   \<and> replays a (recorded a inst d) root \<and> applies a evs root root'
   \<and> recorded a inst d' = recorded a inst d @ rows \<and> length rows = length evs
   \<and> replays a (recorded a inst d') root'
   \<and> (\<exists>sid. \<forall>r \<in> set (recorded a inst d'). eStreamID r = sid)
   \<and> events d' = events d @ rows)"

lemma HandleDelivery_recorded:
  assumes "HandleDelivery_aggregate a l del env s = (Ret (Inr u), s')" and "\<not> Broken s"
    and "agg_ok a (Db s)" and "app_ok a contents"
  shows "agg_ok a (Db s') \<and> after_command a env (Db s) (Db s')"
  using assms(1)
proof (rule HandleDelivery_steps)
  fix m inst root stream s1 sc
  assume m: "Unpack_message (Messages a) env = Ret (Inr m)" "RouteCommandToInstance (Handler a) m = Ret inst"
    and load: "loadInstance a l inst s = (Ret (Inr (root, stream)), s1)"
    and run: "run_command (HandleCommand (Handler a) root m) a \<lparr>Root = root, Packed = PackEffects (Packer a) env (Key a) inst\<rparr> = (Ret (), sc)"
    and fin: "case Seal (Packer a) (Packed sc) of
       None \<Rightarrow> aggregate_complete_without_events (MessageID del) (Key a) inst (Db s1) = Inr ((), Db s')
     | Some (corr, envs) \<Rightarrow> \<exists>snap evs. marshalSnapshot a (Root sc) = Ret snap \<and> sql_events (Envelopes_api a) envs = Inr evs
         \<and> aggregate_complete_with_events (Writers a l) (MessageID del) (Key a) inst stream corr snap evs (Db s1) = Inr ((), Db s')"
  have app: "packer_laws (Packer a) contents" "snapshot_codec a" "event_codec a" "writers_valid a"
    "propagates (HandleCommand (Handler a) root m)" using assms(4) by (auto simp: app_ok_def)
  obtain row where ok: "agg_ok a (Db s1)" "replays a (recorded a inst (Db s1)) root"
      "agg_instances (Db s1) (Key a, inst) = Some row" "aStreamID row = stream"
    using loadInstance_replays[OF load assms(3) app(2) assms(2)] by blast
  have bd: "bound a inst (Db s1) row" using ok(1,3) by (auto simp: agg_ok_def split: option.splits)
  have unt: "untouched (Db s) (Db s1)" using tx_keeps_Inr[OF loadInstance_untouched load assms(2)] by blast
  then have evd: "events (Db s1) = events (Db s)" by (rule untouched_fields)
  then have rd: "recorded a inst (Db s1) = recorded a inst (Db s)" by (simp add: recorded_def)
  obtain evs envs where ev: "contents (Packed sc) = envs" "list_all2 (packed_event a) evs envs" "applies a evs root (Root sc)"
    using run_command_records[OF run app(5,1)] packer_lawsD(1)[OF app(1)] by auto
  have one: "\<exists>sid. \<forall>r \<in> set (recorded a inst (Db s1)). eStreamID r = sid"
    using bd by (auto simp: bound_def split: option.splits)
  show ?thesis
  proof (cases "Seal (Packer a) (Packed sc)")
    case None
    then have "envs = []" using packer_lawsD(3)[OF app(1)] ev(1) by simp
    then have evs: "evs = []" "Root sc = root" using ev(2,3) by auto
    have cw: "aggregate_complete_without_events (MessageID del) (Key a) inst (Db s1) = Inr ((), Db s')" using fin None by simp
    note f = complete_without_events_Inr[OF cw]
    have "agg_ok a (Db s')" by (rule complete_without_agg_ok[OF cw ok(1)])
    moreover have "recorded a inst (Db s') = recorded a inst (Db s1)" using f(3) by (simp add: recorded_def)
    ultimately show ?thesis
      using m ok(2) evs rd evd f(3) ev(3) one unfolding after_command_def
      by (intro conjI exI[of _ m] exI[of _ inst] exI[of _ root] exI[of _ root] exI[of _ "[]"]) auto
  next
    case (Some sealed)
    obtain corr envs' where sealed: "sealed = (corr, envs')" by fastforce
    then have envs: "envs' = envs" "envs \<noteq> []" using packer_lawsD(4)[OF app(1)] Some ev(1) by auto
    obtain snap rows where c: "marshalSnapshot a (Root sc) = Ret snap" "sql_events (Envelopes_api a) envs = Inr rows"
      "aggregate_complete_with_events (Writers a l) (MessageID del) (Key a) inst stream corr snap rows (Db s1) = Inr ((), Db s')"
      using fin Some sealed envs(1) by auto
    have replay: "replays a (recorded a inst (Db s1) @ rows_from sid corr key i base rows) (Root sc)" for sid key i base
      by (rule replays_append[OF ok(2) apply_packed[OF ev(2) c(2) ev(3) app(3)]])
    have "\<exists>root. MarshalRoot (Handler a) root = Ret (Inr b)
      \<and> (\<forall>sid base. replays a (recorded a inst (Db s1) @ rows_from sid corr (Some (Key a)) (Some inst) base rows) root)" if "snap = Some b" for b
      using c(1) that replay marshalSnapshot_Some[of a "Root sc" b] by blast
    from complete_with_agg_ok[OF c(3) ok(1,3,4) app(4) this] obtain sid base where
      r: "agg_ok a (Db s')" "stream = None \<or> stream = Some sid"
        "events (Db s') = events (Db s1) @ rows_from sid corr (Some (Key a)) (Some inst) base rows" by blast
    have rec: "recorded a inst (Db s') = recorded a inst (Db s1) @ rows_from sid corr (Some (Key a)) (Some inst) base rows"
      using recorded_append[OF r(3)] by simp
    have "\<forall>r \<in> set (recorded a inst (Db s')). eStreamID r = sid"
      using rec bd ok(4) r(2) by (auto simp: bound_def dest: rows_from_fields(3))
    moreover have "length rows = length evs"
      using sql_events_Inr[OF c(2)] list_all2_lengthD[OF ev(2)] by (metis length_map)
    ultimately show ?thesis
      using m ok(2) rd rec replay ev(3) r(1,3) evd unfolding after_command_def
      by (intro conjI exI[of _ m] exI[of _ inst] exI[of _ root] exI[of _ "Root sc"] exI[of _ evs]
          exI[of _ "rows_from sid corr (Some (Key a)) (Some inst) base rows"]) auto
  qed
qed

section \<open>An example application\<close>

text \<open>
  Messages are bytes, the root is what has been recorded so far, and every command records itself as an event.
\<close>

definition sample_envelope :: "u64 \<Rightarrow> bytes \<Rightarrow> envelope" where
  "sample_envelope n data = \<lparr>
     Header = \<lparr>CausationId = UUID 0 9, CorrelationId = UUID 0 9, SourceHandler = UUID 0 7, SourceInstanceId = ''i''\<rparr>,
     Body = \<lparr>MessageId = UUID 8 n, TypeId = UUID 0 4, CreatedAt = 0, ScheduledFor = 0,
       IdempotencyKey = [], Data = data, Position = Absent\<rparr>\<rparr>"

definition sample_messages :: "bytes message_api" where
  "sample_messages = \<lparr>Unpack_message = (\<lambda>env. Ret (Inr (Data (Body env)))), Validate = (\<lambda>m s. Ret None),
     MessageDescription = (\<lambda>m. Ret []), TypeOf = (\<lambda>m. ''T'')\<rparr>"

definition sample_envelopes :: envelope_api where
  "sample_envelopes = \<lparr>UnmarshalBinary = (\<lambda>b. Inr (sample_envelope 0 b)), MarshalBinary = (\<lambda>env. Inr (Data (Body env))),
     ValidateEnvelope = (\<lambda>env. None)\<rparr>"

definition sample_packer :: "(envelope list, bytes) packer_api" where
  "sample_packer = \<lparr>PackEffects = (\<lambda>env key inst. []),
     Pack = (\<lambda>m t p. (sample_envelope (of_nat (length p)) m, p @ [sample_envelope (of_nat (length p)) m])),
     Seal = (\<lambda>p. if p = [] then None else Some (UUID 0 9, p))\<rparr>"

definition sample_handler :: "(bytes, bytes) aggregate_handler" where
  "sample_handler = \<lparr>New_root = Ret [], RouteCommandToInstance = (\<lambda>m. Ret ''i''),
     HandleCommand = (\<lambda>root m. Record m (\<lambda>(panicked, root). case panicked of Some msg \<Rightarrow> Panics msg | None \<Rightarrow> Return)),
     ApplyEvent = (\<lambda>m root. (Ret (), root @ m)), MarshalRoot = (\<lambda>root. Ret (Inr root)),
     UnmarshalRoot = (\<lambda>b root. (Ret None, b)), AggregateInstanceDescription = (\<lambda>root. Ret [])\<rparr>"

definition sample_writers :: acquire_env where
  "sample_writers = \<lparr>locked = {}, rnd = (\<lambda>i. 0), fresh = UUID 0 3\<rparr>"

definition sample_aggregate :: "(envelope list, bytes, bytes) aggregate" where
  "sample_aggregate = \<lparr>Handler = sample_handler, Key = UUID 0 7, OutboundMessageTypes = {''T''}, Messages = sample_messages,
     Envelopes_api = sample_envelopes, Packer = sample_packer, ValidUUID = (\<lambda>i. True), Writers = (\<lambda>l. sample_writers)\<rparr>"

definition sample_locks :: lock_env where
  "sample_locks = \<lparr>lNow = 5, lIDs = {}, lInstances = {}, lTie = (\<lambda>i. 0)\<rparr>"

definition sample_command :: command_row where
  "sample_command = \<lparr>cMessageID = UUID 0 1, cTypeID = UUID 0 2, cEnvelope = [42], cFailures = 0, cDeliverAt = 3\<rparr>"

definition sample_queue :: db where
  "sample_queue = empty_db\<lparr>commands := [sample_command]\<rparr>"

lemmas sample_defs = sample_envelope_def sample_messages_def sample_envelopes_def sample_packer_def sample_handler_def
  sample_writers_def sample_aggregate_def

lemma sample_app_ok: "app_ok sample_aggregate (\<lambda>p. p)"
  by (auto simp: app_ok_def packer_laws_def snapshot_codec_def event_codec_def writers_valid_def sample_defs
      Unpack_def UnpackMessage_def go_try_def go_check_def caught_def)

lemma sample_queue_ok: "agg_ok a sample_queue" "sound_db sample_queue" "command_queue sample_queue (UUID 0 1) = Some sample_command"
  by (auto simp: agg_ok_def sound_db_def sample_queue_def wf_db_def stream_events_def empty_db_def wf_queue_def recorded_def
      command_queue_def sample_command_def)

definition sample_handled :: "(err + unit) go \<times> txn" where
  "sample_handled = HandleDelivery_aggregate sample_aggregate sample_locks (command_delivery sample_command) (sample_envelope 1 [42]) (start [] sample_queue)"

lemma sample_handled_ok: "sample_handled = (Ret (Inr ()), snd sample_handled)"
proof -
  have "fst sample_handled = Ret (Inr ())" by code_simp
  then show ?thesis by (metis prod.collapse)
qed

section \<open>Properties of aggregates\<close>



text \<open>
  C10. Snapshots are an optimisation only.  Loading an instance gives the same root, and the same stream, as
  loading it after all snapshots have been deleted.
\<close>

definition without_snapshots :: "db \<Rightarrow> db" where
  "without_snapshots d = d\<lparr>agg_instances := (\<lambda>k. map_option (\<lambda>row. row\<lparr>aSnapshot := None, aSnapshotOffset := None\<rparr>) (agg_instances d k))\<rparr>"

lemma without_snapshots_ok:
  assumes "agg_ok a d"
  shows "agg_ok a (without_snapshots d)" "recorded a inst (without_snapshots d) = recorded a inst d"
proof -
  let ?d = "without_snapshots d"
  have f: "streams ?d = streams d" "events ?d = events d" "commands ?d = commands d"
    "agg_instances ?d = (\<lambda>k. map_option (\<lambda>row. row\<lparr>aSnapshot := None, aSnapshotOffset := None\<rparr>) (agg_instances d k))"
    by (simp_all add: without_snapshots_def)
  show rec: "recorded a inst ?d = recorded a inst d" for inst using f by (simp add: recorded_def)
  have "case agg_instances ?d (Key a, i) of None \<Rightarrow> recorded a i ?d = [] | Some row \<Rightarrow> bound a i ?d row" for i
    using agg_okD[OF assms, of i] rec f by (cases "agg_instances d (Key a, i)") (auto simp: bound_def snapshot_ok_def split: option.splits)
  then show "agg_ok a ?d"
    using assms f wf_db_frame[OF f(1,2)] by (simp add: agg_ok_def sound_db_def wf_queue_def)
qed

theorem snapshots_transparent:
  assumes "loadInstance a l inst (start faults d) = (Ret (Inr (root, stream)), s)"
    and "loadInstance a l' inst (start faults' (without_snapshots d)) = (Ret (Inr (root', stream')), s')"
    and "agg_ok a d" and "snapshot_codec a" and "agg_instances d (Key a, inst) = Some row"
  shows "root' = root \<and> stream' = stream"
proof -
  have d: "Db (start faults d) = d" "\<not> Broken (start faults d)" "Db (start faults' (without_snapshots d)) = without_snapshots d"
    "\<not> Broken (start faults' (without_snapshots d))" by (simp_all add: start_def)
  have unt: "untouched d (Db s)" "untouched (without_snapshots d) (Db s')"
    using tx_keeps_Inr[OF loadInstance_untouched assms(1)] tx_keeps_Inr[OF loadInstance_untouched assms(2)] d by simp_all
  have "events (Db s') = events d" "events (Db s) = events d"
    using untouched_fields(3)[OF unt(1)] untouched_fields(3)[OF unt(2)] by (simp_all add: without_snapshots_def)
  then have rec: "recorded a inst (Db s') = recorded a inst (Db s)" by (simp add: recorded_def)
  have "replays a (recorded a inst (Db s)) root" "replays a (recorded a inst (Db s')) root'"
    "\<exists>row. agg_instances (Db s) (Key a, inst) = Some row \<and> aStreamID row = stream"
    "\<exists>row. agg_instances (Db s') (Key a, inst) = Some row \<and> aStreamID row = stream'"
    using loadInstance_replays[OF assms(1)] loadInstance_replays[OF assms(2)] d without_snapshots_ok(1)[OF assms(3)] assms(3,4) by auto
  moreover have "agg_instances (Db s) (Key a, inst) = Some row"
    "agg_instances (Db s') (Key a, inst) = Some (row\<lparr>aSnapshot := None, aSnapshotOffset := None\<rparr>)"
    using untouched_instances[OF unt(1), of "(Key a, inst)"] untouched_instances[OF unt(2), of "(Key a, inst)"] assms(5)
    by (auto simp: without_snapshots_def)
  ultimately show ?thesis using rec by (auto simp: replays_def)
qed

definition sample_loaded :: "db \<Rightarrow> (err + (bytes \<times> uuid option)) go \<times> txn" where
  "sample_loaded d = loadInstance sample_aggregate sample_locks ''i'' (start [] d)"

theorem snapshots_transparent_witness:
  "\<exists>row root stream s s'. agg_instances (Db (snd sample_handled)) (UUID 0 7, ''i'') = Some row \<and> aSnapshot row = Some [42]
    \<and> sample_loaded (Db (snd sample_handled)) = (Ret (Inr (root, stream)), s)
    \<and> sample_loaded (without_snapshots (Db (snd sample_handled))) = (Ret (Inr (root, stream)), s')"
proof -
  let ?d = "Db (snd sample_handled)"
  have ok: "agg_ok sample_aggregate ?d"
    using HandleDelivery_recorded[OF sample_handled_ok[unfolded sample_handled_def] _ _ sample_app_ok] sample_queue_ok(1)[of sample_aggregate]
    by (simp add: start_def sample_handled_def)
  have codec: "snapshot_codec sample_aggregate" using sample_app_ok by (simp add: app_ok_def)
  have run: "map_option aSnapshot (agg_instances ?d (UUID 0 7, ''i'')) = Some (Some [42])"
    "fst (sample_loaded ?d) = Ret (Inr ([42], Some (UUID 0 3)))"
    "(case fst (sample_loaded (without_snapshots ?d)) of Ret (Inr _) \<Rightarrow> True | _ \<Rightarrow> False)"
    by code_simp+
  then obtain row where row: "agg_instances ?d (Key sample_aggregate, ''i'') = Some row" "aSnapshot row = Some [42]"
    by (auto simp: sample_aggregate_def)
  obtain root' stream' s' where l': "sample_loaded (without_snapshots ?d) = (Ret (Inr (root', stream')), s')"
    using run(3) by (cases "sample_loaded (without_snapshots ?d)") (auto split: go.splits sum.splits)
  have l: "sample_loaded ?d = (Ret (Inr ([42], Some (UUID 0 3))), snd (sample_loaded ?d))"
    using run(2) by (metis prod.collapse)
  from snapshots_transparent[OF l[unfolded sample_loaded_def] l'[unfolded sample_loaded_def] ok codec row(1)]
  show ?thesis using row l l' by (auto simp: sample_aggregate_def)
qed


definition sample_pump :: pump where
  "sample_pump = \<lparr>BackoffBase = 10, BackoffCap = 1000\<rparr>"

definition sample_env :: pump_env where
  "sample_env = \<lparr>pBegin = None, pLocks = sample_locks, pFaults = [], pRand = (\<lambda>n. 0), pCommit = \<lparr>cErr = None, cApplied = True\<rparr>\<rparr>"


text \<open>
  C3. No command is handled by two workers at once.  In every interleaving of the dispatcher, the workers, failures, cancellations and all
  other users of the tables, each delivery that has been acquired and not yet released is still in
  the queue, exactly as it was acquired, and no two of them are deliveries of the same command.
\<close>

theorem aggregate_pump_exclusive:
  assumes "pump_reachable (command_pump types (HandleDelivery_aggregate a)) eapi p command_queue sound_db st"
  shows "distinct (map (MessageID \<circ> fst) (Held st))
    \<and> (\<forall>(del, m) \<in> set (Held st). \<exists>c \<in> set (commands (Tables st)). cMessageID c = MessageID del
         \<and> cFailures c = Failures del \<and> cEnvelope c = EnvelopeBytes del)"
proof -
  have inv: "aggregate_driver.pump_inv eapi st" by (rule aggregate_driver.pump_reachable_inv[OF assms])
  then have wf: "wf_queue (Tables st)"
    by (simp add: aggregate_driver.pump_inv_def sound_db_def)
  have "\<exists>c \<in> set (commands (Tables st)). cMessageID c = MessageID del \<and> cFailures c = Failures del \<and> cEnvelope c = EnvelopeBytes del"
    if mem: "(del, m) \<in> set (Held st)" for del m
  proof -
    obtain c where "command_queue (Tables st) (MessageID del) = Some c" "cFailures c = Failures del" "cEnvelope c = EnvelopeBytes del"
      using inv mem unfolding aggregate_driver.pump_inv_def aggregate_driver.task_ok_def by fastforce
    then show ?thesis using command_queue_Some[OF wf] by auto
  qed
  then show ?thesis using inv by (auto simp: aggregate_driver.pump_inv_def)
qed

theorem aggregate_pump_exclusive_witness:
  "\<exists>st. pump_reachable (command_pump {UUID 0 2} (HandleDelivery_aggregate sample_aggregate)) sample_envelopes sample_pump command_queue sound_db st
    \<and> Held st = [(command_delivery sample_command, sample_envelope 0 [42])]
    \<and> (\<exists>c \<in> set (commands (Tables st)). cMessageID c = UUID 0 1 \<and> cEnvelope c = [42])"
proof -
  let ?mk = "command_pump {UUID 0 2} (HandleDelivery_aggregate sample_aggregate)"
  let ?t = "doAcquireTask ?mk sample_envelopes sample_pump [sample_env] sample_queue"
  have fst: "fst ?t = Ret (Inr (Some (command_delivery sample_command, sample_envelope 0 [42])))" by code_simp
  then obtain d1 where t: "?t = (Ret (Inr (Some (command_delivery sample_command, sample_envelope 0 [42]))), d1)"
    by (metis prod.collapse)
  let ?st = "\<lparr>Tables = sample_queue, Held = []\<rparr>"
  have "pump_reachable ?mk sample_envelopes sample_pump command_queue sound_db ?st"
    using sample_queue_ok(2) by (rule pump_reachable.init)
  moreover have "pump_step ?mk sample_envelopes sample_pump command_queue sound_db ?st
      (?st\<lparr>Tables := d1, Held := (command_delivery sample_command, sample_envelope 0 [42]) # Held ?st\<rparr>)"
    by (rule pump_step.acquired[of "[sample_env]"]) (use t in \<open>simp_all add: held_ids_def\<close>)
  ultimately have r: "pump_reachable ?mk sample_envelopes sample_pump command_queue sound_db
      \<lparr>Tables = d1, Held = [(command_delivery sample_command, sample_envelope 0 [42])]\<rparr>"
    using pump_reachable.step by force
  from aggregate_pump_exclusive[OF r] have "\<exists>c \<in> set (commands d1). cMessageID c = UUID 0 1 \<and> cEnvelope c = [42]"
    by (auto simp: command_delivery_def sample_command_def)
  with r show ?thesis
    by (intro exI[of _ "\<lparr>Tables = d1, Held = [(command_delivery sample_command, sample_envelope 0 [42])]\<rparr>"]) simp
qed

end
