(* ===== verification/Integration.thy ===== *)
theory Integration
  imports Aggregate
begin

text \<open>
  The integration engine (\<open>internal/integration\<close>): a driver of the message pump that delivers
  commands to integration handlers, and the advisory lock by which a handler
  that prefers so is called for one command at a time (\<open>internal/concurrency\<close>).

  The application's handler is a parameter, given by what it does: record an event, after which it goes on knowing whether
  \<open>RecordEvent\<close> panicked, panic, or return.
\<close>

unbundle bit_operations_syntax

section \<open>Concurrency preferences\<close>

definition advisoryLockKey :: "uuid \<Rightarrow> int" where
  "advisoryLockKey u = sint (upper u XOR lower u)"

text \<open>
  \<open>EnforceConcurrencyPreference\<close>: the statements lock and unlock a key of the session, which is no
  part of the tables.  The lock is released even if \<open>fn\<close> panics, and an error of the release replaces that of \<open>fn\<close>.
\<close>

definition advisory :: "int \<Rightarrow> string \<Rightarrow> unit tx" where
  "advisory lockKey msg = exec (wrapf msg) (\<lambda>d. Inr ((), d))"

definition release_after :: "int \<Rightarrow> 'a tx \<Rightarrow> 'a tx" where
  "release_after lockKey fn s = (case fn s of (r, s1) \<Rightarrow> (case advisory lockKey ''unable to release advisory lock'' s1 of
     (Ret (Inl e), s2) \<Rightarrow> (case r of Ret _ \<Rightarrow> Ret (Inl e) | Panic m \<Rightarrow> Panic m | Running \<Rightarrow> Running, s2)
   | (_, s2) \<Rightarrow> (r, s2)))"

definition EnforceConcurrencyPreference :: "uuid \<Rightarrow> bool \<Rightarrow> 'a tx \<Rightarrow> 'a tx" where
  "EnforceConcurrencyPreference key minimize fn =
     (if \<not> minimize then fn
      else let lockKey = advisoryLockKey key
           in tx_bind (advisory lockKey ''unable to acquire advisory lock'') (\<lambda>_. release_after lockKey fn))"

lemma advisory_keeps: "reflp R \<Longrightarrow> tx_keeps R (advisory lockKey msg)"
  unfolding advisory_def by (intro frame_rules) (auto simp: reflp_def)

lemma advisory_total: "\<exists>r s'. advisory lockKey msg s = (Ret r, s')"
  by (auto simp: advisory_def exec_def split: list.splits option.splits)

lemma advisory_Db: "advisory lockKey msg s = (Ret (Inr x), s') \<Longrightarrow> Db s' = Db s"
  by (auto simp: advisory_def tx_simps)

lemma keeps_release_after [frame_rules]:
  assumes "reflp R" and "transp R" and "tx_keeps R fn"
  shows "tx_keeps R (release_after lockKey fn)"
  unfolding tx_keeps_def
proof (intro allI impI)
  fix s r s'
  assume m: "release_after lockKey fn s = (r, s')"
  obtain r1 s1 where f: "fn s = (r1, s1)" by fastforce
  obtain r2 s2 where u: "advisory lockKey ''unable to release advisory lock'' s1 = (Ret r2, s2)"
    using advisory_total by blast
  have s': "s' = s2" "(\<exists>a. r = Ret (Inr a)) \<longrightarrow> (\<exists>a. r1 = Ret (Inr a)) \<and> (\<exists>a. r2 = Inr a)"
    using m f u by (auto simp: release_after_def split: go.splits sum.splits)
  then show "(Broken s \<longrightarrow> Broken s') \<and> (\<not> Broken s' \<longrightarrow> R (Db s) (Db s')) \<and> (\<not> Broken s \<longrightarrow> (\<exists>a. r = Ret (Inr a)) \<longrightarrow> \<not> Broken s')"
    using assms(3)[unfolded tx_keeps_def, rule_format, OF f]
      advisory_keeps[OF assms(1), unfolded tx_keeps_def, rule_format, OF u] transpD[OF assms(2)] by blast
qed

lemma keeps_Enforce [frame_rules]:
  assumes "reflp R" and "transp R" and "tx_keeps R fn"
  shows "tx_keeps R (EnforceConcurrencyPreference key minimize fn)"
  using assms unfolding EnforceConcurrencyPreference_def Let_def by (auto intro: frame_rules advisory_keeps)

lemma Enforce_Inr:
  assumes "EnforceConcurrencyPreference key minimize fn s = (Ret (Inr a), s')"
  shows "\<exists>s1 s2. Db s1 = Db s \<and> fn s1 = (Ret (Inr a), s2) \<and> Db s' = Db s2"
proof (cases minimize)
  case False
  then show ?thesis using assms by (auto simp: EnforceConcurrencyPreference_def)
next
  case True
  let ?k = "advisoryLockKey key"
  from True obtain x s1 where "advisory ?k ''unable to acquire advisory lock'' s = (Ret (Inr x), s1)" and rel: "release_after ?k fn s1 = (Ret (Inr a), s')"
    using assms by (auto simp: EnforceConcurrencyPreference_def Let_def tx_bind_Inr)
  then have s1: "Db s1 = Db s" by (auto dest: advisory_Db)
  obtain r s2 where f: "fn s1 = (r, s2)" by fastforce
  obtain r' where u: "advisory ?k ''unable to release advisory lock'' s2 = (Ret r', s')" "r = Ret (Inr a)" "\<exists>x. r' = Inr x"
    using advisory_total[of ?k "''unable to release advisory lock''" s2] rel f
    by (auto simp: release_after_def split: go.splits sum.splits)
  then have "Db s' = Db s2" by (auto dest: advisory_Db)
  then show ?thesis using f s1 u(2) by blast
qed

section \<open>The handler\<close>

datatype 'm integration_code =
    IReturn "err option"
  | IPanics string
  | IRecord 'm "string option \<Rightarrow> 'm integration_code"

record ('p, 'm) integration =
  iHandleCommand :: "'m \<Rightarrow> 'm integration_code"
  iKey :: uuid
  iMinimizeConcurrency :: bool
  iOutboundMessageTypes :: "string set"
  iMessages :: "'m message_api"
  iEnvelopes :: envelope_api
  iPacker :: "('p, 'm) packer_api"
  iWriters :: "lock_env \<Rightarrow> acquire_env"

definition RecordEvent_integration :: "('p, 'm) integration \<Rightarrow> 'm \<Rightarrow> 'p \<Rightarrow> unit go \<times> 'p" where
  "RecordEvent_integration i event packer =
     (if TypeOf (iMessages i) event \<notin> iOutboundMessageTypes i
      then (Panic ''this handler is not configured to record events of this type'', packer)
      else (case Pack (iPacker i) event None packer of (env, packed) \<Rightarrow>
        (case Validate (iMessages i) event \<lparr>IsNewMessage = True, vEnvelope = env\<rparr> of
           Panic m \<Rightarrow> (Panic m, packed)
         | Running \<Rightarrow> (Running, packed)
         | Ret (Some e) \<Rightarrow> (Panic ''event is invalid'', packed)
         | Ret None \<Rightarrow> (go_bind (MessageDescription (iMessages i) event) (\<lambda>_. Ret ()), packed))))"

primrec run_integration :: "'m integration_code \<Rightarrow> ('p, 'm) integration \<Rightarrow> 'p \<Rightarrow> err option go \<times> 'p" where
  "run_integration (IReturn e) i packer = (Ret e, packer)"
| "run_integration (IPanics m) i packer = (Panic m, packer)"
| "run_integration (IRecord event k) i packer = (case RecordEvent_integration i event packer of
     (Ret _, packed) \<Rightarrow> run_integration (k None) i packed
   | (Panic m, packed) \<Rightarrow> run_integration (k (Some m)) i packed
   | (Running, packed) \<Rightarrow> (Running, packed))"

section \<open>Handling a command\<close>

definition call_integration :: "('p, 'm) integration \<Rightarrow> 'm \<Rightarrow> 'p \<Rightarrow> (err + 'p) go" where
  "call_integration i command packer = (case run_integration (iHandleCommand i command) i packer of (r, packed) \<Rightarrow>
     caught (go_check r (Ret (Inr packed))))"

definition completeWithEvents_integration :: "('p, 'm) integration \<Rightarrow> lock_env \<Rightarrow> uuid \<Rightarrow> uuid \<times> envelope list \<Rightarrow> unit tx" where
  "completeWithEvents_integration i l mid sealed = exec (wrapf ''unable to complete command handling'') (\<lambda>d.
     case sql_events (iEnvelopes i) (snd sealed) of
       Inl e \<Rightarrow> Inl e
     | Inr evs \<Rightarrow> integration_complete_with_events (iWriters i l) mid (fst sealed) evs d)"

definition completeWithoutEvents_integration :: "uuid \<Rightarrow> unit tx" where
  "completeWithoutEvents_integration mid = exec (wrapf ''unable to complete command handling'') (integration_complete_without_events mid)"

definition HandleDelivery_integration :: "('p, 'm) integration \<Rightarrow> lock_env \<Rightarrow> delivery \<Rightarrow> envelope \<Rightarrow> unit tx" where
  "HandleDelivery_integration i l del env =
     tx_bind (tx_call (failed (UnpackMessage (iMessages i) env 1))) (\<lambda>ms.
     tx_bind (tx_wrap (\<lambda>_. Sentinel ErrFailed) (EnforceConcurrencyPreference (iKey i) (iMinimizeConcurrency i)
       (tx_call (call_integration i (ms ! 0) (PackEffects (iPacker i) env (iKey i) []))))) (\<lambda>packed.
     case Seal (iPacker i) packed of
       Some sealed \<Rightarrow> completeWithEvents_integration i l (MessageID del) sealed
     | None \<Rightarrow> completeWithoutEvents_integration (MessageID del)))"

section \<open>The pump's contract\<close>

lemma HandleDelivery_integration_defers: "tx_defers (=) (HandleDelivery_integration i l del env)"
  unfolding HandleDelivery_integration_def completeWithEvents_integration_def completeWithoutEvents_integration_def
  by (intro defer_rules frame_rules) (simp_all add: reflp_def transp_def)

text \<open>The steps of handling a command, when all of them succeed.\<close>

lemma HandleDelivery_integration_steps:
  assumes "HandleDelivery_integration i l del env s = (Ret (Inr u), s')"
  obtains m packed where "Unpack_message (iMessages i) env = Ret (Inr m)"
    "run_integration (iHandleCommand i m) i (PackEffects (iPacker i) env (iKey i) []) = (Ret None, packed)"
    "case Seal (iPacker i) packed of
       None \<Rightarrow> commandqueue_remove (MessageID del) (Db s) = Inr ((), Db s')
     | Some (corr, envs) \<Rightarrow> \<exists>evs. sql_events (iEnvelopes i) envs = Inr evs
         \<and> integration_complete_with_events (iWriters i l) (MessageID del) corr evs (Db s) = Inr ((), Db s')"
proof -
  obtain ms packed s1 where ms: "failed (UnpackMessage (iMessages i) env 1) = Ret (Inr ms)"
    and enf: "EnforceConcurrencyPreference (iKey i) (iMinimizeConcurrency i)
       (tx_call (call_integration i (ms ! 0) (PackEffects (iPacker i) env (iKey i) []))) s = (Ret (Inr packed), s1)"
    and fin: "(case Seal (iPacker i) packed of
       Some sealed \<Rightarrow> completeWithEvents_integration i l (MessageID del) sealed
     | None \<Rightarrow> completeWithoutEvents_integration (MessageID del)) s1 = (Ret (Inr u), s')"
    using assms unfolding HandleDelivery_integration_def by (auto simp: tx_bind_Inr tx_call_eq tx_wrap_Inr)
  obtain m where m: "ms = [m]" "Unpack_message (iMessages i) env = Ret (Inr m)"
    using ms UnpackMessage_Inr[of "iMessages i" env 0 ms] by (auto simp: tx_simps)
  have call: "call_integration i m (PackEffects (iPacker i) env (iKey i) []) = Ret (Inr packed)" and s1: "Db s1 = Db s"
    using Enforce_Inr[OF enf] m(1) by (auto simp: tx_simps)
  have run: "run_integration (iHandleCommand i m) i (PackEffects (iPacker i) env (iKey i) []) = (Ret None, packed)"
    using call by (auto simp: call_integration_def tx_simps go_simps split: prod.splits)
  have "case Seal (iPacker i) packed of
       None \<Rightarrow> commandqueue_remove (MessageID del) (Db s) = Inr ((), Db s')
     | Some (corr, envs) \<Rightarrow> \<exists>evs. sql_events (iEnvelopes i) envs = Inr evs
         \<and> integration_complete_with_events (iWriters i l) (MessageID del) corr evs (Db s) = Inr ((), Db s')"
  proof (cases "Seal (iPacker i) packed")
    case None
    then show ?thesis
      using fin s1 by (auto simp: completeWithoutEvents_integration_def integration_complete_without_events_def tx_simps)
  next
    case (Some sealed)
    then show ?thesis
      using fin s1 by (cases "sql_events (iEnvelopes i) (snd sealed)") (auto simp: completeWithEvents_integration_def tx_simps)
  qed
  from that[OF m(2) run this] show thesis .
qed

lemma integration_complete_cases:
  assumes "integration_complete_with_events w mid corr evs d = Inr (u, d')" and "wf_db d"
  shows "\<exists>sid base. commands d' = filter (\<lambda>c. cMessageID c \<noteq> mid) (commands d) \<and> evs \<noteq> []
    \<and> events d' = events d @ rows_from sid corr None None base evs \<and> wf_db d' \<and> db_extends d d'"
proof -
  obtain d1 x where d1: "commandqueue_remove mid d = Inr ((), d1)" and x: "append_any w corr None None evs d1 = Inr (x, d')"
    using assms(1) by (auto simp: integration_complete_with_events_def sql_simps)
  obtain sid d2 n where a: "acquire_for_write w d1 = Inr (sid, d2)" and e: "eventstream_append sid corr None None evs d2 = Inr (n, d')"
    using x by (auto simp: append_any_def sql_simps)
  have f: "commands d' = commands d1" "events d2 = events d1" using append_fields[OF e] acquire_fields[OF a] by simp_all
  from e show ?thesis
  proof (cases rule: append_cases)
    case unknown
    then show ?thesis using acquire_known[OF a] by simp
  next
    case (appended base)
    then show ?thesis
      using f d1 integration_complete_wf[OF assms(2,1)] by (auto simp: commandqueue_remove_Inr)
  qed
qed

lemma HandleDelivery_integration_completes:
  assumes "HandleDelivery_integration i l del env s = (Ret (Inr u), s')" and "wf_db (Db s)"
  shows "commands (Db s') = filter (\<lambda>c. cMessageID c \<noteq> MessageID del) (commands (Db s)) \<and> wf_db (Db s') \<and> db_extends (Db s) (Db s')"
  using assms(1)
proof (rule HandleDelivery_integration_steps)
  fix m packed
  assume fin: "case Seal (iPacker i) packed of
       None \<Rightarrow> commandqueue_remove (MessageID del) (Db s) = Inr ((), Db s')
     | Some (corr, envs) \<Rightarrow> \<exists>evs. sql_events (iEnvelopes i) envs = Inr evs
         \<and> integration_complete_with_events (iWriters i l) (MessageID del) corr evs (Db s) = Inr ((), Db s')"
  show ?thesis
  proof (cases "Seal (iPacker i) packed")
    case None
    then have "commandqueue_remove (MessageID del) (Db s) = Inr ((), Db s')" using fin by simp
    then show ?thesis using commandqueue_remove_wf[OF assms(2)] by (auto simp: commandqueue_remove_Inr)
  next
    case (Some sealed)
    then show ?thesis using fin integration_complete_cases[OF _ assms(2)] by (cases sealed) fastforce
  qed
qed

interpretation integration_driver: command_driver types "HandleDelivery_integration i" eapi sound_db for types i eapi
proof (unfold_locales, goal_cases)
  case (3 l del m s u s')
  then show ?case
    using HandleDelivery_integration_completes[OF 3(1)] by (simp add: sound_db_def wf_queue_def distinct_map_filter)
next
  case (4 l del m s e s')
  then show ?case using tx_defersD[OF HandleDelivery_integration_defers 4(1,3)] by auto
qed (auto intro: aggregate_driver.queue_inv aggregate_driver.postpone_inv)

section \<open>Exactly once\<close>

definition recorded_by :: "('p, 'm) integration \<Rightarrow> envelope \<Rightarrow> (uuid \<times> envelope list) option \<Rightarrow> bool" where
  "recorded_by i env sealed \<longleftrightarrow> (\<exists>m packed. Unpack_message (iMessages i) env = Ret (Inr m)
     \<and> run_integration (iHandleCommand i m) i (PackEffects (iPacker i) env (iKey i) []) = (Ret None, packed) \<and> Seal (iPacker i) packed = sealed)"

text \<open>
  C6. Of a command that an integration handles, either everything or nothing happens.  After the pump has handled a command, the tables are as
  they were, or the command is gone, the events which the handler recorded are at the end of one stream, in the order it recorded
  them, and nothing else changed in the events, or the command is queued with its next delivery time and no event was recorded.
\<close>

theorem integration_exactly_once:
  assumes "doHandle (command_pump types (HandleDelivery_integration i)) p penv del env d = (r, d')"
    and "sound_db d" and "command_queue d (MessageID del) = Some c"
  shows "d' = d
    \<or> wf_db d' \<and> commands d' = filter (\<lambda>c. cMessageID c \<noteq> MessageID del) (commands d)
      \<and> (recorded_by i env None \<and> events d' = events d
         \<or> (\<exists>corr envs evs sid base. recorded_by i env (Some (corr, envs)) \<and> sql_events (iEnvelopes i) envs = Inr evs
              \<and> events d' = events d @ rows_from sid corr None None base evs))
    \<or> d' = d\<lparr>commands := commands d'\<rparr>
      \<and> (\<exists>c'. command_queue d' = (command_queue d)(MessageID del \<mapsto> c') \<and> cEnvelope c' = cEnvelope c
           \<and> (cFailures c' = Failures del \<or> cFailures c' = Failures del + 1))"
  using assms(1)
proof (cases rule: doHandle_cases)
  case (handled u s)
  have wf: "wf_db (Db (start (pFaults penv) d))" using assms(2) by (simp add: start_def sound_db_def)
  have h: "HandleDelivery_integration i (pLocks penv) del env (start (pFaults penv) d) = (Ret (Inr u), s)"
    using handled(1) by (simp add: command_pump_def)
  note fin_ok = HandleDelivery_integration_completes[OF h wf]
  from h show ?thesis
  proof (rule HandleDelivery_integration_steps)
    fix m packed
    assume run: "Unpack_message (iMessages i) env = Ret (Inr m)"
      "run_integration (iHandleCommand i m) i (PackEffects (iPacker i) env (iKey i) []) = (Ret None, packed)"
      and fin: "case Seal (iPacker i) packed of
       None \<Rightarrow> commandqueue_remove (MessageID del) (Db (start (pFaults penv) d)) = Inr ((), Db s)
     | Some (corr, envs) \<Rightarrow> \<exists>evs. sql_events (iEnvelopes i) envs = Inr evs
         \<and> integration_complete_with_events (iWriters i (pLocks penv)) (MessageID del) corr evs (Db (start (pFaults penv) d)) = Inr ((), Db s)"
    have rec: "recorded_by i env (Seal (iPacker i) packed)" using run unfolding recorded_by_def by blast
    show ?thesis
    proof (cases "Seal (iPacker i) packed")
      case None
      then have "events d' = events d" using fin handled(2) by (auto simp: start_def commandqueue_remove_Inr)
      then show ?thesis using rec None fin_ok handled(2) by (simp add: start_def)
    next
      case (Some sealed)
      obtain corr envs where sealed: "sealed = (corr, envs)" by fastforce
      obtain evs where evs: "sql_events (iEnvelopes i) envs = Inr evs"
        "integration_complete_with_events (iWriters i (pLocks penv)) (MessageID del) corr evs (Db (start (pFaults penv) d)) = Inr ((), Db s)"
        using fin Some sealed by auto
      obtain sid base where "events d' = events d @ rows_from sid corr None None base evs"
        using integration_complete_cases[OF evs(2) wf] handled(2) by (auto simp: start_def)
      then have "\<exists>corr envs evs sid base. recorded_by i env (Some (corr, envs)) \<and> sql_events (iEnvelopes i) envs = Inr evs
          \<and> events d' = events d @ rows_from sid corr None None base evs"
        using rec[unfolded Some sealed] evs(1) by blast
      then show ?thesis using fin_ok handled(2) by (simp add: start_def)
    qed
  qed
next
  case (postponed e s del' delay u s')
  have id: "MessageID del' = MessageID del" and f: "Failures del' = Failures del \<or> Failures del' = Failures del + 1"
    using postponed(2) by auto
  have "\<not> Broken s"
    using postponed(3) by (auto simp: command_pump_def PostponeCommandDelivery_def tx_simps)
  then have s: "Db s = d"
    using tx_defersD[OF HandleDelivery_integration_defers, of i "pLocks penv" del env "start (pFaults penv) d" e s] postponed(1)
    by (simp add: command_pump_def start_def)
  then have "command_queue (Db s) (MessageID del') = Some c" using assms(3) id by simp
  note post = command_postponed[OF postponed(3) this]
  show ?thesis using post(2,4) postponed(4) s id f by auto
qed simp

definition sample_integration :: "(envelope list, bytes) integration" where
  "sample_integration = \<lparr>iHandleCommand = (\<lambda>m. IRecord m (\<lambda>_. IReturn None)), iKey = UUID 0 8, iMinimizeConcurrency = True,
     iOutboundMessageTypes = {''T''}, iMessages = sample_messages, iEnvelopes = sample_envelopes, iPacker = sample_packer, iWriters = (\<lambda>l. sample_writers)\<rparr>"

theorem integration_exactly_once_witness:
  "\<exists>d'. doHandle (command_pump {UUID 0 2} (HandleDelivery_integration sample_integration)) sample_pump sample_env
      (command_delivery sample_command) (sample_envelope 1 [42]) sample_queue = (Ret None, d') \<and> commands d' = [] \<and> events d' \<noteq> [] \<and> wf_db d'"
proof -
  let ?h = "doHandle (command_pump {UUID 0 2} (HandleDelivery_integration sample_integration)) sample_pump sample_env
      (command_delivery sample_command) (sample_envelope 1 [42]) sample_queue"
  have run: "fst ?h = Ret None" "commands (snd ?h) = []" "events (snd ?h) \<noteq> []" by code_simp+
  then have h: "?h = (Ret None, snd ?h)" by (metis prod.collapse)
  have "command_queue sample_queue (MessageID (command_delivery sample_command)) = Some sample_command"
    using sample_queue_ok(3) by (simp add: command_delivery_def sample_command_def)
  from integration_exactly_once[OF h sample_queue_ok(2) this] run(2,3) have "wf_db (snd ?h)"
    by (auto simp: sample_queue_def fun_eq_iff command_queue_def empty_db_def)
  with h run show ?thesis by blast
qed

end
