(* ===== verification/Sinks.thy ===== *)
theory Sinks
  imports Streams
begin

text \<open>
  The interface between the consumer of an event stream and the handlers of events
  (\<open>internal/eventstream/sink.go\<close>).

  A sink keeps, for each stream, a checkpoint offset with the effects of the events that it has handled.  Any number of
  consumers may consume the same stream at the same time, so what one call of \<open>ConsumeSegment\<close> sees between its
  steps is whatever the others have done by then.  \<open>sink_run\<close> is what all of them are allowed
  to do: to advance the checkpoint past events that are not routed to the handler, and to apply the effects of the
  next event together with the checkpoint after it.  The locale \<open>event_sink\<close> is the contract: if all others do
  only that, then so does this call.
\<close>

section \<open>Runs\<close>

text \<open>
  \<open>ck\<close> is the checkpoint of a stream; \<open>applies sid env w w'\<close>: the effects of handling the event \<open>env\<close> of
  stream \<open>sid\<close> lead from \<open>w\<close> to \<open>w'\<close>.
\<close>

inductive sink_run :: "('w \<Rightarrow> uuid \<Rightarrow> offset) \<Rightarrow> (uuid \<Rightarrow> envelope \<Rightarrow> 'w \<Rightarrow> 'w \<Rightarrow> bool) \<Rightarrow> envelope list \<Rightarrow> types \<Rightarrow> uuid
    \<Rightarrow> 'w \<Rightarrow> envelope list \<Rightarrow> 'w \<Rightarrow> bool"
  for ck applies log types sid w where
  start: "sink_run ck applies log types sid w [] w"
| skipped: "sink_run ck applies log types sid w evs w1 \<Longrightarrow> ck w1 sid \<le> ck w2 sid \<Longrightarrow>
    window log types (ck w1 sid) (ck w2 sid) = [] \<Longrightarrow> sink_run ck applies log types sid w evs w2"
| event: "sink_run ck applies log types sid w evs w1 \<Longrightarrow> applies sid env w1 w2 \<Longrightarrow> env \<in> set log \<Longrightarrow> wants types env \<Longrightarrow>
    ck w1 sid \<le> off env \<Longrightarrow> window log types (ck w1 sid) (off env) = [] \<Longrightarrow>
    off env < ck w2 sid \<Longrightarrow> ck w2 sid = off env + 1 \<Longrightarrow> sink_run ck applies log types sid w (evs @ [env]) w2"

lemma sink_run_trans:
  assumes "sink_run ck applies log types sid w1 evs' w2" and "sink_run ck applies log types sid w evs w1"
  shows "sink_run ck applies log types sid w (evs @ evs') w2"
  using assms
proof (induction rule: sink_run.induct)
  case (skipped evs' w2 w3)
  then show ?case by (auto intro: sink_run.skipped)
next
  case (event evs' w2 env w3)
  then show ?case by (auto simp flip: append_assoc intro: sink_run.event)
qed simp

lemma window_single:
  assumes "wf_log sid log" and "env \<in> set log" and "wants types env" and "off env < off env + 1"
  shows "window log types (off env) (off env + 1) = [env]"
proof -
  let ?w = "window log types (off env) (off env + 1)"
  have sorted: "sorted_wrt (\<lambda>x y. off x < off y) ?w" using assms(1) by (rule window_sorted)
  have at: "off x = off env" if "x \<in> set ?w" for x
    using that unfolding in_window by (meson assms(4) leD not_less_iff_gr_or_eq offset_Suc_le_iff order_less_le_trans)
  have mem: "env \<in> set ?w" using assms(2-4) by (simp add: in_window)
  have "length ?w \<le> 1"
  proof (rule ccontr)
    assume "\<not> length ?w \<le> 1"
    then have "off (?w ! 0) < off (?w ! 1)" using sorted by (simp add: sorted_wrt_iff_nth_less)
    moreover have "off (?w ! 0) = off env" "off (?w ! 1) = off env" using \<open>\<not> length ?w \<le> 1\<close> by (auto intro!: at nth_mem)
    ultimately show False by simp
  qed
  then show ?thesis using mem by (cases ?w) auto
qed

lemma window_Cons:
  assumes "wf_log sid log" and "window log types b e = env # envs"
  shows "env \<in> set log" "wants types env" "b \<le> off env" "off env < e" "off env < off env + 1" "off env + 1 \<le> e"
    "window log types b (off env) = []" "envs = window log types (off env + 1) e"
proof -
  have "env \<in> set (window log types b e)" using assms(2) by simp
  then show env: "env \<in> set log" "wants types env" "b \<le> off env" "off env < e" by (simp_all add: in_window)
  then show "off env < off env + 1" "off env + 1 \<le> e" using offset_Suc_greater offset_Suc_le by blast+
  show "envs = window log types (off env + 1) e"
    using window_drop[OF assms(1), of 0 types b e] assms(2) by simp
  show "window log types b (off env) = []"
  proof (cases "window log types b (off env)")
    case (Cons x xs)
    then have "x = env" using window_split[OF assms(1) env(3), of e types] assms(2) env(4) by simp
    then have "env \<in> set (window log types b (off env))" using Cons by simp
    then show ?thesis by (simp add: in_window)
  qed simp
qed

text \<open>The events whose effects have been applied are those of the log between the two checkpoints, each once and in order.\<close>

lemma sink_run_window:
  assumes "sink_run ck applies log types sid w evs w'" and "wf_log sid log"
  shows "ck w sid \<le> ck w' sid \<and> evs = window log types (ck w sid) (ck w' sid)"
  using assms(1)
proof (induction rule: sink_run.induct)
  case (skipped evs w1 w2)
  then show ?case using window_split[OF assms(2), of "ck w sid" "ck w1 sid" "ck w2 sid" types] by auto
next
  case (event evs w1 env w2)
  have "window log types (off env) (ck w2 sid) = [env]"
    using event.hyps window_single[OF assms(2), of env types] by simp
  moreover have "window log types (ck w sid) (off env) = evs"
    using event.hyps event.IH window_split[OF assms(2), of "ck w sid" "ck w1 sid" "off env" types] by simp
  moreover have "ck w sid \<le> off env" "ck w sid \<le> ck w2 sid" using event.hyps event.IH by auto
  ultimately show ?case
    using event.hyps event.IH window_split[OF assms(2), of "ck w sid" "off env" "ck w2 sid" types] by (simp add: less_imp_le)
qed simp

text \<open>What happens between two steps of a consumer.\<close>

definition interferes :: "('w \<Rightarrow> uuid \<Rightarrow> offset) \<Rightarrow> (uuid \<Rightarrow> envelope \<Rightarrow> 'w \<Rightarrow> 'w \<Rightarrow> bool) \<Rightarrow> envelope list \<Rightarrow> types \<Rightarrow> uuid
    \<Rightarrow> ('w \<Rightarrow> 'w) \<Rightarrow> bool" where
  "interferes ck applies log types sid others \<longleftrightarrow> (\<forall>w. \<exists>evs. sink_run ck applies log types sid w evs (others w))"

lemma interferes_none [simp]: "interferes ck applies log types sid (\<lambda>w. w)"
  unfolding interferes_def by (intro allI exI[of _ "[]"] sink_run.start)

section \<open>The contract\<close>

text \<open>
  \<open>fair\<close>: what the surroundings of a call do between its steps.  The offset that a call is given is a checkpoint that the sink has
  reported before, and there is nothing to handle between it and the segment.
\<close>

locale event_sink =
  fixes consume_segment :: "'env \<Rightarrow> offset \<Rightarrow> segment \<Rightarrow> 'w \<Rightarrow> (offset \<times> bool \<times> err option) go \<times> 'w"
    and checkpoint_offset :: "'env \<Rightarrow> uuid \<Rightarrow> 'w \<Rightarrow> (err + offset) go \<times> 'w"
    and ck :: "'w \<Rightarrow> uuid \<Rightarrow> offset"
    and applies :: "uuid \<Rightarrow> envelope \<Rightarrow> 'w \<Rightarrow> 'w \<Rightarrow> bool"
    and fair :: "envelope list \<Rightarrow> types \<Rightarrow> uuid \<Rightarrow> 'env \<Rightarrow> bool"
  assumes segment_law: "\<lbrakk>consume_segment env cp seg w = (r, w'); wf_log sid log; truthful log sid types seg; fair log types sid env;
        cp \<le> Begin seg; window log types cp (Begin seg) = []; cp \<le> ck w sid\<rbrakk> \<Longrightarrow>
      (\<exists>evs. sink_run ck applies log types sid w evs w')
      \<and> (\<forall>cp'. r = Ret (cp', True, None) \<longrightarrow> cp' \<le> End seg \<and> window log types cp' (End seg) = [] \<and> cp' \<le> ck w' sid)"
    and load_law: "\<lbrakk>checkpoint_offset env sid w = (loaded, w'); fair log types sid env\<rbrakk> \<Longrightarrow>
      (\<exists>evs. sink_run ck applies log types sid w evs w') \<and> (\<forall>cp. loaded = Ret (Inr cp) \<longrightarrow> cp = ck w' sid)"

end
