(* ===== verification/Process.thy ===== *)
theory Process
  imports Sinks MessagePump
begin

text \<open>
  Process handlers (\<open>internal/process\<close>): the scope through which a handler acts, the state of its
  instances, and the sink that dispatches events to it.  The pump of its deadlines is in \<open>Deadlines\<close>.

  The application is a parameter.  A handler of a message is given by what it does: mutate the root, end the instance,
  execute a command, schedule a deadline, panic or return; after each
  call of the scope it goes on, knowing whether the call panicked and what the root is.  It changes the root only through \<open>Mutate\<close>.
\<close>

section \<open>The scope of a message\<close>

datatype ('r, 'm) process_code =
    PReturn "err option"
  | PPanics string
  | PMutate "'r \<Rightarrow> unit go \<times> 'r" "string option \<times> 'r \<Rightarrow> ('r, 'm) process_code"
  | PEnd "('r, 'm) process_code"
  | PExecute 'm "string option \<Rightarrow> ('r, 'm) process_code"
  | PSchedule 'm time "string option \<Rightarrow> ('r, 'm) process_code"

record ('r, 'm) process_handler =
  pNew :: "'r go"
  RouteEventToInstance :: "'m \<Rightarrow> (err + (string \<times> bool)) go"
  HandleEvent :: "'r \<Rightarrow> time \<Rightarrow> 'm \<Rightarrow> ('r, 'm) process_code"
  HandleDeadline :: "'r \<Rightarrow> time \<Rightarrow> 'm \<Rightarrow> ('r, 'm) process_code"
  MarshalState :: "'r \<Rightarrow> (err + bytes option) go"
  UnmarshalState :: "bytes \<Rightarrow> 'r \<Rightarrow> (err + 'r) go"
  ProcessInstanceDescription :: "'r \<Rightarrow> string go"

record ('p, 'r, 'm) process =
  pHandler :: "('r, 'm) process_handler"
  pKey :: uuid
  pEventTypes :: "uuid set"
  pOutboundMessageTypes :: "string set"
  pMessages :: "'m message_api"
  pEnvelopes :: envelope_api
  pPacker :: "('p, 'm) packer_api"

record ('p, 'r) message_scope =
  mRoot :: 'r
  Mutated :: bool
  Ended :: bool
  CommandPacker :: 'p
  DeadlinePacker :: 'p

definition Mutate :: "('r \<Rightarrow> unit go \<times> 'r) \<Rightarrow> ('p, 'r) message_scope \<Rightarrow> unit go \<times> ('p, 'r) message_scope" where
  "Mutate fn s =
     (if Ended s then (Panic ''cannot mutate process instance after it has ended'', s)
      else (case fn (mRoot s) of
        (Ret _, root) \<Rightarrow> (Ret (), s\<lparr>mRoot := root, Mutated := True\<rparr>)
      | (r, root) \<Rightarrow> (r, s\<lparr>mRoot := root\<rparr>)))"

definition End_process :: "('p, 'r) message_scope \<Rightarrow> ('p, 'r) message_scope" where
  "End_process s = s\<lparr>Ended := True\<rparr>"

text \<open>The validation and the log message that follow the packing of a message.\<close>

definition announce :: "'m message_api \<Rightarrow> 'm \<Rightarrow> envelope \<Rightarrow> string \<Rightarrow> unit go" where
  "announce api m env invalid = (case Validate api m \<lparr>IsNewMessage = True, vEnvelope = env\<rparr> of
     Panic msg \<Rightarrow> Panic msg
   | Running \<Rightarrow> Running
   | Ret (Some e) \<Rightarrow> Panic invalid
   | Ret None \<Rightarrow> go_bind (MessageDescription api m) (\<lambda>_. Ret ()))"

definition ExecuteCommand_scope :: "('p, 'r, 'm) process \<Rightarrow> 'm \<Rightarrow> ('p, 'r) message_scope \<Rightarrow> unit go \<times> ('p, 'r) message_scope" where
  "ExecuteCommand_scope p c s =
     (if Ended s then (Panic ''cannot execute command after process instance has ended'', s)
      else if TypeOf (pMessages p) c \<notin> pOutboundMessageTypes p
      then (Panic ''this handler is not configured to execute commands of this type'', s)
      else (case Pack (pPacker p) c None (CommandPacker s) of (env, packed) \<Rightarrow>
        (announce (pMessages p) c env ''command is invalid'', s\<lparr>CommandPacker := packed\<rparr>)))"

definition ScheduleDeadline :: "('p, 'r, 'm) process \<Rightarrow> 'm \<Rightarrow> time \<Rightarrow> ('p, 'r) message_scope \<Rightarrow> unit go \<times> ('p, 'r) message_scope" where
  "ScheduleDeadline p d t s =
     (if Ended s then (Panic ''cannot schedule deadline after process instance has ended'', s)
      else if TypeOf (pMessages p) d \<notin> pOutboundMessageTypes p
      then (Panic ''this handler is not configured to schedule deadlines of this type'', s)
      else (case Pack (pPacker p) d (Some t) (DeadlinePacker s) of (env, packed) \<Rightarrow>
        (announce (pMessages p) d env ''deadline is invalid'', s\<lparr>DeadlinePacker := packed\<rparr>)))"

primrec run_process :: "('r, 'm) process_code \<Rightarrow> ('p, 'r, 'm) process \<Rightarrow> ('p, 'r) message_scope
    \<Rightarrow> err option go \<times> ('p, 'r) message_scope" where
  "run_process (PReturn e) p s = (Ret e, s)"
| "run_process (PPanics m) p s = (Panic m, s)"
| "run_process (PMutate fn k) p s = (case Mutate fn s of
     (Ret _, s') \<Rightarrow> run_process (k (None, mRoot s')) p s'
   | (Panic m, s') \<Rightarrow> run_process (k (Some m, mRoot s')) p s'
   | (Running, s') \<Rightarrow> (Running, s'))"
| "run_process (PEnd k) p s = run_process k p (End_process s)"
| "run_process (PExecute c k) p s = (case ExecuteCommand_scope p c s of
     (Ret _, s') \<Rightarrow> run_process (k None) p s'
   | (Panic m, s') \<Rightarrow> run_process (k (Some m)) p s'
   | (Running, s') \<Rightarrow> (Running, s'))"
| "run_process (PSchedule d t k) p s = (case ScheduleDeadline p d t s of
     (Ret _, s') \<Rightarrow> run_process (k None) p s'
   | (Panic m, s') \<Rightarrow> run_process (k (Some m)) p s'
   | (Running, s') \<Rightarrow> (Running, s'))"

section \<open>The state of an instance\<close>

definition newRoot_process :: "('p, 'r, 'm) process \<Rightarrow> (err + 'r) go" where
  "newRoot_process p = failed (caught (go_value (pNew (pHandler p))))"

definition new_process_row :: proc_row where
  "new_process_row = \<lparr>pEnded = False, pState = None\<rparr>"

text \<open>The upsert that locks the instance's row.\<close>

definition lock_instance :: "uuid \<Rightarrow> string \<Rightarrow> proc_row sql" where
  "lock_instance key inst d =
     (if inst = [] then Inl (New ''new row violates check constraint'')
      else (case proc_instances d (key, inst) of
        None \<Rightarrow> Inr (new_process_row, d\<lparr>proc_instances := (proc_instances d)((key, inst) \<mapsto> new_process_row)\<rparr>)
      | Some row \<Rightarrow> Inr (row, d)))"

definition loadInstance_process :: "('p, 'r, 'm) process \<Rightarrow> string \<Rightarrow> 'r \<Rightarrow> 'r option tx" where
  "loadInstance_process p inst root =
     tx_bind (exec (wrapf ''unable to load process instance'') (lock_instance (pKey p) inst)) (\<lambda>row.
       if pEnded row then tx_return None
       else (case pState row of
         None \<Rightarrow> tx_return (Some root)
       | Some state \<Rightarrow> tx_bind (tx_call (failed (caught (UnmarshalState (pHandler p) state root)))) (\<lambda>root'. tx_return (Some root'))))"

text \<open>An update of the instance's row, which returns how many rows it affected.\<close>

definition update_process :: "uuid \<Rightarrow> string \<Rightarrow> (proc_row \<Rightarrow> proc_row) \<Rightarrow> nat sql" where
  "update_process key inst f d = (case proc_instances d (key, inst) of
     None \<Rightarrow> Inr (0, d)
   | Some row \<Rightarrow>
       if pEnded (f row) \<and> pState (f row) \<noteq> None then Inl (New ''new row violates check constraint'')
       else Inr (1, d\<lparr>proc_instances := (proc_instances d)((key, inst) \<mapsto> f row)\<rparr>))"

definition saveInstance :: "('p, 'r, 'm) process \<Rightarrow> string \<Rightarrow> 'r \<Rightarrow> unit tx" where
  "saveInstance p inst root =
     tx_bind (tx_call (failed (caught (MarshalState (pHandler p) root)))) (\<lambda>data.
       tx_wrap (wrapf ''unable to save process instance'')
         (ExecOne (update_process (pKey p) inst (\<lambda>row. row\<lparr>pState := data\<rparr>))))"

definition delete_deadlines :: "uuid \<Rightarrow> string \<Rightarrow> unit sql" where
  "delete_deadlines key inst d =
     Inr ((), d\<lparr>deadlines := filter (\<lambda>r. \<not> (dHandlerKey r = key \<and> dInstanceID r = inst)) (deadlines d)\<rparr>)"

definition endInstance :: "('p, 'r, 'm) process \<Rightarrow> string \<Rightarrow> unit tx" where
  "endInstance p inst =
     tx_bind (tx_wrap (wrapf ''unable to end process instance'')
       (ExecOne (update_process (pKey p) inst (\<lambda>row. row\<lparr>pEnded := True, pState := None\<rparr>)))) (\<lambda>_.
     exec (wrapf ''unable to delete deadlines for ended instance'') (delete_deadlines (pKey p) inst))"

definition insert_deadline :: "envelope \<Rightarrow> bytes \<Rightarrow> unit sql" where
  "insert_deadline env data d =
     (if SourceInstanceId (Header env) = [] then Inl (New ''new row violates check constraint'')
      else if MessageId (Body env) \<in> dMessageID ` set (deadlines d) then Inl (New ''duplicate key value violates unique constraint'')
      else Inr ((), d\<lparr>deadlines := deadlines d @ [\<lparr>dMessageID = MessageId (Body env), dTypeID = TypeId (Body env),
        dHandlerKey = SourceHandler (Header env), dInstanceID = SourceInstanceId (Header env), dEnvelope = data, dFailures = 0,
        dDeliverAt = ScheduledFor (Body env)\<rparr>]\<rparr>))"

fun insert_deadlines :: "envelope_api \<Rightarrow> envelope list \<Rightarrow> unit tx" where
  "insert_deadlines api [] = tx_return ()"
| "insert_deadlines api (env # envs) = (case MarshalBinary api env of
     Inl e \<Rightarrow> tx_throw (Errorf ''unable to marshal deadline envelope'' [e])
   | Inr data \<Rightarrow> tx_bind (exec (wrapf ''unable to persist deadline'') (insert_deadline env data)) (\<lambda>_. insert_deadlines api envs))"

definition persistDeadlines :: "('p, 'r, 'm) process \<Rightarrow> 'p \<Rightarrow> unit tx" where
  "persistDeadlines p packer = (case Seal (pPacker p) packer of
     None \<Rightarrow> tx_return ()
   | Some (corr, envs) \<Rightarrow> insert_deadlines (pEnvelopes p) envs)"

text \<open>\<open>now\<close> is the database's clock.\<close>

fun add_commands :: "envelope_api \<Rightarrow> time \<Rightarrow> envelope list \<Rightarrow> unit tx" where
  "add_commands api now [] = tx_return ()"
| "add_commands api now (env # envs) =
     tx_bind (exec (wrapf ''unable to add command to queue'') (\<lambda>d. case MarshalBinary api env of
         Inl e \<Rightarrow> Inl e
       | Inr data \<Rightarrow> commandqueue_add now (MessageId (Body env)) (TypeId (Body env)) data (IdempotencyKey (Body env)) d))
       (\<lambda>_. add_commands api now envs)"

definition addCommandsToQueue :: "('p, 'r, 'm) process \<Rightarrow> time \<Rightarrow> 'p \<Rightarrow> unit tx" where
  "addCommandsToQueue p now packer = (case Seal (pPacker p) packer of
     None \<Rightarrow> tx_return ()
   | Some (corr, envs) \<Rightarrow> add_commands (pEnvelopes p) now envs)"

section \<open>Dispatching an event\<close>

definition new_scope :: "('p, 'r, 'm) process \<Rightarrow> envelope \<Rightarrow> string \<Rightarrow> 'r \<Rightarrow> ('p, 'r) message_scope" where
  "new_scope p env inst root = \<lparr>mRoot = root, Mutated = False, Ended = False,
     CommandPacker = PackEffects (pPacker p) env (pKey p) inst, DeadlinePacker = PackEffects (pPacker p) env (pKey p) inst\<rparr>"

definition call_process :: "('p, 'r, 'm) process \<Rightarrow> ('r, 'm) process_code \<Rightarrow> ('p, 'r) message_scope \<Rightarrow> (err + ('p, 'r) message_scope) go" where
  "call_process p code scope = (case run_process code p scope of (r, scope') \<Rightarrow> caught (go_check r (Ret (Inr scope'))))"

text \<open>What follows when the handler has returned, for events and deadlines alike.\<close>

definition apply_effects :: "('p, 'r, 'm) process \<Rightarrow> time \<Rightarrow> string \<Rightarrow> ('p, 'r) message_scope \<Rightarrow> unit tx" where
  "apply_effects p now inst scope =
     tx_bind (addCommandsToQueue p now (CommandPacker scope)) (\<lambda>_.
     if Ended scope then endInstance p inst
     else tx_bind (if Mutated scope then saveInstance p inst (mRoot scope) else tx_return ()) (\<lambda>_.
       persistDeadlines p (DeadlinePacker scope)))"

definition routeEventToInstance :: "('p, 'r, 'm) process \<Rightarrow> 'm \<Rightarrow> (err + string) go" where
  "routeEventToInstance p event = (case caught (go_try (RouteEventToInstance (pHandler p) event) (\<lambda>(inst, ok).
       if \<not> ok then Ret (Inr [])
       else if inst = [] then Ret (Inl (New ''handler returned empty instance ID''))
       else Ret (Inr inst))) of
     Ret (Inl e) \<Rightarrow> Ret (Inl (Errorf ''unable to route event to instance'' [e]))
   | r \<Rightarrow> r)"

definition dispatch_process :: "('p, 'r, 'm) process \<Rightarrow> time \<Rightarrow> envelope \<Rightarrow> unit tx" where
  "dispatch_process p now env =
     tx_bind (tx_wrap (wrapf ''unable to unmarshal event'') (tx_call (UnpackMessage (pMessages p) env 1))) (\<lambda>ms.
     tx_bind (tx_call (routeEventToInstance p (ms ! 0))) (\<lambda>inst.
     if inst = [] then tx_return ()
     else tx_bind (tx_call (newRoot_process p)) (\<lambda>fresh.
       tx_bind (loadInstance_process p inst fresh) (\<lambda>loaded.
       case loaded of
         None \<Rightarrow> tx_return ()
       | Some root \<Rightarrow>
           tx_bind (tx_call (go_value (ProcessInstanceDescription (pHandler p) root))) (\<lambda>_.
           tx_bind (tx_wrap (wrapf ''unable to handle event'') (tx_call (call_process p
             (HandleEvent (pHandler p) root (CreatedAt (Body env)) (ms ! 0)) (new_scope p env inst root)))) (\<lambda>scope.
           apply_effects p now inst scope))))))"

section \<open>The sink\<close>

text \<open>
  The surroundings of a transaction of the sink: the database's clock, the failures, and what the
  transactions of others have done since the previous one.
\<close>

record process_env =
  sOthers :: "db \<Rightarrow> db"
  sTx :: tx_env
  sFaults :: "err option list"
  sNow :: time

definition checkpoint_of :: "uuid \<Rightarrow> db \<Rightarrow> uuid \<Rightarrow> offset" where
  "checkpoint_of key d sid = (case checkpoints d (key, sid) of None \<Rightarrow> 0 | Some n \<Rightarrow> n)"

definition CheckpointOffset_process :: "('p, 'r, 'm) process \<Rightarrow> (db \<Rightarrow> db) \<Rightarrow> err option \<Rightarrow> uuid \<Rightarrow> db \<Rightarrow> (err + offset) go \<times> db" where
  "CheckpointOffset_process p others fault sid d = (let d' = others d in case fault of
     Some e \<Rightarrow> (Ret (Inl e), d')
   | None \<Rightarrow> (Ret (Inr (case checkpoints d' (pKey p, sid) of None \<Rightarrow> 0 | Some cp \<Rightarrow> cp)), d'))"

definition lock_checkpoint :: "uuid \<Rightarrow> uuid \<Rightarrow> offset sql" where
  "lock_checkpoint key sid d = (case checkpoints d (key, sid) of
     None \<Rightarrow> Inr (0, d\<lparr>checkpoints := (checkpoints d)((key, sid) \<mapsto> 0)\<rparr>)
   | Some cp \<Rightarrow> Inr (cp, d))"

definition set_checkpoint :: "uuid \<Rightarrow> uuid \<Rightarrow> offset \<Rightarrow> nat sql" where
  "set_checkpoint key sid next d =
     (if uint next \<ge> 2 ^ 63 then Inl (New ''bigint out of range'')
      else (case checkpoints d (key, sid) of
        None \<Rightarrow> Inr (0, d)
      | Some cp \<Rightarrow> Inr (1, d\<lparr>checkpoints := (checkpoints d)((key, sid) \<mapsto> next)\<rparr>)))"

text \<open>\<open>consume\<close>: the transaction returns the checkpoint that it found.\<close>

definition consume_tx :: "('p, 'r, 'm) process \<Rightarrow> time \<Rightarrow> uuid \<Rightarrow> offset \<Rightarrow> offset \<Rightarrow> envelope option \<Rightarrow> offset tx" where
  "consume_tx p now sid cp next env =
     tx_bind (exec (\<lambda>e. e) (lock_checkpoint (pKey p) sid)) (\<lambda>actual.
     if actual \<noteq> cp then tx_return actual
     else tx_bind (case env of None \<Rightarrow> tx_return () | Some env \<Rightarrow> dispatch_process p now env) (\<lambda>_.
       tx_bind (ExecOne (set_checkpoint (pKey p) sid next)) (\<lambda>_. tx_return actual)))"

definition consume_process :: "('p, 'r, 'm) process \<Rightarrow> process_env \<Rightarrow> uuid \<Rightarrow> offset \<Rightarrow> offset \<Rightarrow> envelope option \<Rightarrow> db
    \<Rightarrow> (offset \<times> bool \<times> err option) go \<times> db" where
  "consume_process p e sid cp next env d =
     (case Transact_tx (sTx e) (sFaults e) (consume_tx p (sNow e) sid cp next env) (sOthers e d) of
        (Ret (Inl err), d') \<Rightarrow> (Ret (cp, False, Some err), d')
      | (Ret (Inr actual), d') \<Rightarrow> (Ret (if actual \<noteq> cp then (actual, False, None) else (next, True, None)), d')
      | (Panic m, d') \<Rightarrow> (Panic m, d')
      | (Running, d') \<Rightarrow> (Running, d'))"

text \<open>The loop over the envelopes of a segment.  Each transaction has its surroundings, by the offset it would advance to.\<close>

fun consume_events :: "('p, 'r, 'm) process \<Rightarrow> (offset \<Rightarrow> process_env) \<Rightarrow> uuid \<Rightarrow> offset \<Rightarrow> offset \<Rightarrow> envelope list \<Rightarrow> db
    \<Rightarrow> (offset \<times> bool \<times> err option) go \<times> db" where
  "consume_events p e sid stop cp [] d =
     (if cp < stop then consume_process p (e stop) sid cp stop None d else (Ret (cp, True, None), d))"
| "consume_events p e sid stop cp (env # envs) d = (case offsetOf env of
     Panic m \<Rightarrow> (Panic m, d)
   | Running \<Rightarrow> (Running, d)
   | Ret offset \<Rightarrow>
       if offset < cp then consume_events p e sid stop cp envs d
       else (case consume_process p (e (offset + 1)) sid cp (offset + 1) (Some env) d of
         (Ret (next, True, None), d') \<Rightarrow> consume_events p e sid stop next envs d'
       | (Ret (next, ok, err), d') \<Rightarrow> (Ret (cp, ok, err), d')
       | (Panic m, d') \<Rightarrow> (Panic m, d')
       | (Running, d') \<Rightarrow> (Running, d')))"

definition ConsumeSegment_process :: "('p, 'r, 'm) process \<Rightarrow> (offset \<Rightarrow> process_env) \<Rightarrow> offset \<Rightarrow> segment \<Rightarrow> db
    \<Rightarrow> (offset \<times> bool \<times> err option) go \<times> db" where
  "ConsumeSegment_process p e cp seg d = consume_events p e (StreamID seg) (End seg) cp (Envelopes seg) d"

definition Workload_process :: "(uuid \<Rightarrow> string \<Rightarrow> uuid) \<Rightarrow> (uuid \<Rightarrow> string) \<Rightarrow> ('p, 'r, 'm) process \<Rightarrow> uuid \<Rightarrow> uuid" where
  "Workload_process derive as_string p sid = derive (pKey p) (as_string sid)"

definition EventTypeIDs_process :: "('p, 'r, 'm) process \<Rightarrow> uuid set" where
  "EventTypeIDs_process p = pEventTypes p"

section \<open>The sink's contract\<close>

text \<open>The effects of an event and the checkpoint after it, in one transaction.\<close>

definition process_applies :: "('p, 'r, 'm) process \<Rightarrow> uuid \<Rightarrow> envelope \<Rightarrow> db \<Rightarrow> db \<Rightarrow> bool" where
  "process_applies p sid env d d' \<longleftrightarrow> (\<exists>now cp s s'. lock_checkpoint (pKey p) sid d = Inr (cp, Db s) \<and> \<not> Broken s
     \<and> dispatch_process p now env s = (Ret (Inr ()), s')
     \<and> d' = (Db s')\<lparr>checkpoints := (checkpoints (Db s'))((pKey p, sid) \<mapsto> off env + 1)\<rparr>)"

lemma lock_checkpoint_Inr:
  "lock_checkpoint key sid d = Inr (cp, d') \<Longrightarrow> cp = checkpoint_of key d sid \<and> checkpoint_of key d' sid = cp"
  by (auto simp: lock_checkpoint_def checkpoint_of_def split: option.splits)

lemma set_checkpoint_Inr:
  "set_checkpoint key sid next d = Inr (1, d') \<Longrightarrow> d' = d\<lparr>checkpoints := (checkpoints d)((key, sid) \<mapsto> next)\<rparr>"
  by (auto simp: set_checkpoint_def split: option.splits if_splits)

lemma consume_tx_cases:
  assumes "consume_tx p now sid cp next env s = (Ret (Inr actual), s')"
  shows "actual = checkpoint_of (pKey p) (Db s) sid
    \<and> (if actual \<noteq> cp then checkpoint_of (pKey p) (Db s') sid = actual
       else checkpoint_of (pKey p) (Db s') sid = next
         \<and> (\<forall>x. env = Some x \<longrightarrow> next = off x + 1 \<longrightarrow> process_applies p sid x (Db s) (Db s')))"
proof -
  obtain a s1 where a: "exec (\<lambda>e. e) (lock_checkpoint (pKey p) sid) s = (Ret (Inr a), s1)"
    and rest: "(if a \<noteq> cp then tx_return a
       else tx_bind (case env of None \<Rightarrow> tx_return () | Some env \<Rightarrow> dispatch_process p now env) (\<lambda>_.
         tx_bind (ExecOne (set_checkpoint (pKey p) sid next)) (\<lambda>_. tx_return a))) s1 = (Ret (Inr actual), s')"
    using assms unfolding consume_tx_def tx_bind_Inr[of "exec (\<lambda>e. e) (lock_checkpoint (pKey p) sid)"] by blast
  then have [simp]: "a = actual" by (auto simp: tx_bind_Inr tx_return_eq split: if_splits)
  have l: "lock_checkpoint (pKey p) sid (Db s) = Inr (actual, Db s1)" "\<not> Broken s1" using a by (auto simp: exec_Inr)
  note ck = lock_checkpoint_Inr[OF l(1)]
  show ?thesis
  proof (cases "actual = cp")
    case False
    then show ?thesis using rest ck by (simp add: tx_return_eq)
  next
    case True
    then obtain s2 where d: "(case env of None \<Rightarrow> tx_return () | Some env \<Rightarrow> dispatch_process p now env) s1 = (Ret (Inr ()), s2)"
      and set: "set_checkpoint (pKey p) sid next (Db s2) = Inr (1, Db s')"
      using rest by (auto simp: tx_bind_Inr ExecOne_Inr tx_return_eq)
    have "process_applies p sid x (Db s) (Db s')" if "env = Some x" "next = off x + 1" for x
      unfolding process_applies_def using d set_checkpoint_Inr[OF set] l that by auto
    then show ?thesis using True ck set_checkpoint_Inr[OF set] by (simp add: checkpoint_of_def)
  qed
qed

lemma consume_process_cases:
  assumes "consume_process p e sid cp next env d = (r, d')"
  obtains (kept) "checkpoint_of (pKey p) d' sid = checkpoint_of (pKey p) (sOthers e d) sid" "\<And>n. r \<noteq> Ret (n, True, None)"
    | (advanced) "checkpoint_of (pKey p) (sOthers e d) sid = cp" "checkpoint_of (pKey p) d' sid = next"
        "\<And>n. r = Ret (n, True, None) \<Longrightarrow> n = next"
        "\<And>x. env = Some x \<Longrightarrow> next = off x + 1 \<Longrightarrow> process_applies p sid x (sOthers e d) d'"
proof -
  let ?tx = "consume_tx p (sNow e) sid cp next env"
  obtain x where t: "Transact_tx (sTx e) (sFaults e) ?tx (sOthers e d) = (x, d')"
    and r: "\<And>n. r = Ret (n, True, None) \<Longrightarrow> x = Ret (Inr cp) \<and> n = next"
    using assms by (auto simp: consume_process_def split: prod.splits go.splits sum.splits if_splits)
  from t show thesis
  proof (cases rule: Transact_tx_cases)
    case rolled_back
    then show thesis using r by (intro kept) auto
  next
    case (unknown a s err)
    from consume_tx_cases[OF unknown(2)] show thesis
      using unknown(1,3) r kept advanced by (cases "a = cp") (auto simp: start_def)
  next
    case (committed a s)
    from consume_tx_cases[OF committed(2)] show thesis
      using committed(1,3) r kept advanced by (cases "a = cp") (auto simp: start_def)
  qed
qed

definition process_fair :: "('p, 'r, 'm) process \<Rightarrow> envelope list \<Rightarrow> types \<Rightarrow> uuid
    \<Rightarrow> (offset \<Rightarrow> process_env) \<times> (db \<Rightarrow> db) \<times> err option \<Rightarrow> bool" where
  "process_fair p log types sid env \<longleftrightarrow> (case env of (e, others, fault) \<Rightarrow>
     (\<forall>n. interferes (checkpoint_of (pKey p)) (process_applies p) log types sid (sOthers (e n)))
     \<and> interferes (checkpoint_of (pKey p)) (process_applies p) log types sid others)"

text \<open>One transaction, which may advance the checkpoint from \<open>cp\<close> to \<open>next\<close>.\<close>

lemma consume_process_run:
  assumes "consume_process p e sid cp next env d = (r, d')"
    and "interferes (checkpoint_of (pKey p)) (process_applies p) log types sid (sOthers e)"
    and "cp \<le> next" and "case env of
      None \<Rightarrow> window log types cp next = []
    | Some x \<Rightarrow> x \<in> set log \<and> wants types x \<and> cp \<le> off x \<and> window log types cp (off x) = [] \<and> off x < next \<and> next = off x + 1"
  shows "(\<exists>evs. sink_run (checkpoint_of (pKey p)) (process_applies p) log types sid d evs d')
    \<and> (\<forall>n. r = Ret (n, True, None) \<longrightarrow> n = next \<and> checkpoint_of (pKey p) d' sid = next)"
proof -
  let ?run = "sink_run (checkpoint_of (pKey p)) (process_applies p) log types sid"
  obtain evs where evs: "?run d evs (sOthers e d)" using assms(2) unfolding interferes_def by blast
  from assms(1) show ?thesis
  proof (cases rule: consume_process_cases)
    case kept
    then have "?run d evs d'" by (intro sink_run.skipped[OF evs]) simp_all
    then show ?thesis using kept(2) by blast
  next
    case advanced
    have "\<exists>evs. ?run d evs d'"
    proof (cases env)
      case None
      then have "?run d evs d'" using assms(3,4) advanced by (intro sink_run.skipped[OF evs]) simp_all
      then show ?thesis by blast
    next
      case (Some x)
      then have x: "x \<in> set log" "wants types x" "cp \<le> off x" "window log types cp (off x) = []" "off x < next" "next = off x + 1"
        using assms(4) by auto
      have "?run d (evs @ [x]) d'"
        by (rule sink_run.event[OF evs advanced(4)[OF Some x(6)]]) (use x advanced(1,2) in auto)
      then show ?thesis by blast
    qed
    then show ?thesis using advanced by blast
  qed
qed

lemma consume_events_run:
  assumes "wf_log sid log" and "\<And>n. interferes (checkpoint_of (pKey p)) (process_applies p) log types sid (sOthers (e n))"
  shows "\<lbrakk>consume_events p e sid stop cp envs d = (r, d'); envs = window log types cp stop; cp \<le> stop; cp \<le> checkpoint_of (pKey p) d sid\<rbrakk> \<Longrightarrow>
    (\<exists>evs. sink_run (checkpoint_of (pKey p)) (process_applies p) log types sid d evs d')
    \<and> (\<forall>cp'. r = Ret (cp', True, None) \<longrightarrow> cp' = stop \<and> cp' \<le> checkpoint_of (pKey p) d' sid)"
proof (induction envs arbitrary: cp d)
  case Nil
  show ?case
  proof (cases "cp < stop")
    case True
    then have "consume_process p (e stop) sid cp stop None d = (r, d')" using Nil(1) by simp
    from consume_process_run[OF this assms(2)] show ?thesis using True Nil(2) by auto
  next
    case False
    then show ?thesis using Nil sink_run.start[of "checkpoint_of (pKey p)" "process_applies p" log types sid d] by auto
  qed
next
  case (Cons env envs)
  note w = window_Cons[OF assms(1) Cons.prems(2)[symmetric]]
  have o: "offsetOf env = Ret (off env)" using assms(1) w(1) by (auto intro: offsetOf_positioned)
  obtain x d1 where x: "consume_process p (e (off env + 1)) sid cp (off env + 1) (Some env) d = (x, d1)" by fastforce
  have ge: "\<not> off env < cp" using w(3) by simp
  have "cp \<le> off env + 1" using w(3,5) by (meson less_imp_le order_trans)
  from consume_process_run[OF x assms(2) this] w obtain evs where
    evs: "sink_run (checkpoint_of (pKey p)) (process_applies p) log types sid d evs d1" and
    n: "\<And>n. x = Ret (n, True, None) \<Longrightarrow> n = off env + 1 \<and> checkpoint_of (pKey p) d1 sid = off env + 1"
    by auto
  show ?case
  proof (cases "\<exists>n. x = Ret (n, True, None)")
    case True
    then have x': "x = Ret (off env + 1, True, None)" using n by auto
    then have "consume_events p e sid stop (off env + 1) envs d1 = (r, d')"
      using Cons.prems(1) o x ge by simp
    from Cons.IH[OF this w(8,6)] n[OF x'] show ?thesis using sink_run_trans evs by fastforce
  next
    case False
    then have "d' = d1" "\<forall>cp'. r \<noteq> Ret (cp', True, None)"
      using Cons.prems(1) o x ge by (auto split: go.splits prod.splits bool.splits option.splits)
    then show ?thesis using evs by auto
  qed
qed

interpretation process_sink: event_sink "\<lambda>env. ConsumeSegment_process p (fst env)"
  "\<lambda>env. CheckpointOffset_process p (fst (snd env)) (snd (snd env))" "checkpoint_of (pKey p)" "process_applies p" "process_fair p"
  for p :: "('p, 'r, 'm) process"
proof (unfold_locales, goal_cases)
  case (1 env cp seg w r w' sid log types)
  have stop: "cp \<le> End seg" "window log types cp (End seg) = Envelopes seg" "StreamID seg = sid"
    using 1(3,5,6) window_split[OF 1(2) 1(5), of "End seg" types] by (auto simp: truthful_def)
  have c: "consume_events p (fst env) sid (End seg) cp (Envelopes seg) w = (r, w')"
    using 1(1) stop(3) by (simp add: ConsumeSegment_process_def)
  have "\<And>n. interferes (checkpoint_of (pKey p)) (process_applies p) log types sid (sOthers (fst env n))"
    using 1(4) by (auto simp: process_fair_def)
  from consume_events_run[OF 1(2) this c] show ?case using stop 1(7) by auto
next
  case (2 env sid w loaded w' log types)
  then have "w' = fst (snd env) w" by (auto simp: CheckpointOffset_process_def Let_def split: option.splits)
  moreover have "interferes (checkpoint_of (pKey p)) (process_applies p) log types sid (fst (snd env))"
    using 2(2) by (auto simp: process_fair_def)
  ultimately show ?case
    using 2(1) by (auto simp: interferes_def CheckpointOffset_process_def checkpoint_of_def Let_def split: option.splits)
qed

section \<open>An application\<close>

text \<open>
  A process whose deadlines make it execute a command and mutate its root, which can not be marshaled if it has more
  than one byte.
\<close>

type_synonym sample_effects = "(uuid \<times> string) \<times> envelope list"

definition effect_envelope :: "uuid \<times> string \<Rightarrow> nat \<Rightarrow> bytes \<Rightarrow> envelope" where
  "effect_envelope src n data = \<lparr>
     Header = \<lparr>CausationId = UUID 0 9, CorrelationId = UUID 0 9, SourceHandler = fst src, SourceInstanceId = snd src\<rparr>,
     Body = \<lparr>MessageId = UUID 6 (of_nat n), TypeId = UUID 0 2, CreatedAt = 0, ScheduledFor = 4, IdempotencyKey = [], Data = data, Position = Absent\<rparr>\<rparr>"

definition effect_packer :: "(sample_effects, bytes) packer_api" where
  "effect_packer = \<lparr>PackEffects = (\<lambda>env key inst. ((key, inst), [])),
     Pack = (\<lambda>m t q. let env = effect_envelope (fst q) (length (snd q)) m in (env, (fst q, snd q @ [env]))),
     Seal = (\<lambda>q. if snd q = [] \<or> (\<exists>x \<in> set (snd q). (SourceHandler (Header x), SourceInstanceId (Header x)) \<noteq> fst q) then None
       else Some (UUID 0 9, snd q))\<rparr>"

definition effect_codec :: envelope_api where
  "effect_codec = \<lparr>UnmarshalBinary = (\<lambda>b. Inr (effect_envelope (UUID 0 7, ''i'') 0 b)),
     MarshalBinary = (\<lambda>env. if env = effect_envelope (UUID 0 7, ''i'') 0 (Data (Body env)) then Inr (Data (Body env)) else Inl (New ''cannot marshal'')),
     ValidateEnvelope = (\<lambda>env. None)\<rparr>"

definition sample_process :: "(sample_effects, bytes, bytes) process" where
  "sample_process = \<lparr>
     pHandler = \<lparr>pNew = Ret [], RouteEventToInstance = (\<lambda>m. Ret (Inr (''i'', m \<noteq> []))),
       HandleEvent = (\<lambda>root t m. PSchedule m 4 (\<lambda>_. PMutate (\<lambda>r. (Ret (), m)) (\<lambda>_. PReturn None))),
       HandleDeadline = (\<lambda>root t m. PExecute m (\<lambda>_. PMutate (\<lambda>r. (Ret (), r @ m)) (\<lambda>_. PReturn None))),
       MarshalState = (\<lambda>r. Ret (if length r > 1 then Inl (New ''too long'') else Inr (Some r))),
       UnmarshalState = (\<lambda>b r. Ret (Inr b)), ProcessInstanceDescription = (\<lambda>r. Ret [])\<rparr>,
     pKey = UUID 0 7, pEventTypes = {UUID 0 2}, pOutboundMessageTypes = {''T''},
     pMessages = \<lparr>Unpack_message = (\<lambda>env. Ret (Inr (Data (Body env)))), Validate = (\<lambda>m s. Ret None),
       MessageDescription = (\<lambda>m. Ret []), TypeOf = (\<lambda>m. ''T'')\<rparr>,
     pEnvelopes = effect_codec, pPacker = effect_packer\<rparr>"

section \<open>Properties of the sink\<close>


definition quiet :: "offset \<Rightarrow> process_env" where
  "quiet n = \<lparr>sOthers = (\<lambda>d. d), sTx = no_faults, sFaults = [], sNow = 1\<rparr>"

definition sample_event :: envelope where
  "sample_event = (event_at (UUID 0 3) (UUID 0 2) 0)\<lparr>Body := (Body (event_at (UUID 0 3) (UUID 0 2) 0))\<lparr>Data := [9]\<rparr>\<rparr>"

definition sample_segment :: segment where
  "sample_segment = \<lparr>StreamID = UUID 0 3, Begin = 0, End = 2, Envelopes = [sample_event]\<rparr>"


text \<open>
  C9. A checkpoint conflict has no effects.  If the checkpoint is not the one that the consumer expects, the sink reports a conflict without an error,
  with the actual checkpoint, does not call the handler, and leaves everything in the tables as it is, except that
  a checkpoint that was not there is created at zero.
\<close>

theorem process_conflict:
  assumes "checkpoint_of (pKey p) (sOthers e d) sid \<noteq> cp" and "sTx e = no_faults" and "sFaults e = []"
  shows "\<exists>d'. consume_process p e sid cp next env d = (Ret (checkpoint_of (pKey p) (sOthers e d) sid, False, None), d')
    \<and> d' = (sOthers e d)\<lparr>checkpoints := (checkpoints (sOthers e d))((pKey p, sid) \<mapsto> checkpoint_of (pKey p) (sOthers e d) sid)\<rparr>"
proof -
  let ?d = "sOthers e d" and ?cp = "checkpoint_of (pKey p) (sOthers e d) sid"
  have "lock_checkpoint (pKey p) sid ?d = Inr (?cp, ?d\<lparr>checkpoints := (checkpoints ?d)((pKey p, sid) \<mapsto> ?cp)\<rparr>)"
    by (auto simp: lock_checkpoint_def checkpoint_of_def map_upd_triv split: option.splits)
  then show ?thesis
    using assms by (simp add: consume_process_def Transact_tx_def no_faults_def consume_tx_def tx_bind_def tx_return_def Commit_def start_def[of "[]"] exec_def)
qed

theorem process_conflict_witness:
  "\<exists>d'. consume_process sample_process (quiet 3) (UUID 0 3) 2 3 (Some sample_event) empty_db = (Ret (0, False, None), d') \<and> deadlines d' = []"
proof -
  have "checkpoint_of (pKey sample_process) (sOthers (quiet 3) empty_db) (UUID 0 3) = 0" "sOthers (quiet 3) empty_db = empty_db"
    by (simp_all add: checkpoint_of_def quiet_def empty_db_def)
  then show ?thesis
    using process_conflict[of sample_process "quiet 3" empty_db "UUID 0 3" 2 3 "Some sample_event"] by (auto simp: quiet_def empty_db_def)
qed

end
