(* ===== verification/Deadlines.thy ===== *)
theory Deadlines
  imports Process
begin

text \<open>
  Deadlines of processes (\<open>internal/process/deadlinepump.go\<close>): the driver of the message pump that delivers
  them, and the invariant that the sink and the pump keep of the instances and their deadlines.

  A deadline's row is only ever locked by a transaction that has locked the row of its instance: the pump locks
  both in one statement, and the sink deletes deadlines after it has locked the instance.
\<close>

section \<open>The driver\<close>

definition deadline_delivery :: "deadline_row \<Rightarrow> delivery" where
  "deadline_delivery r = \<lparr>MessageID = dMessageID r, MessageTypeID = dTypeID r, EnvelopeBytes = dEnvelope r, Failures = dFailures r\<rparr>"

definition instance_of :: "deadline_row \<Rightarrow> uuid \<times> string" where
  "instance_of r = (dHandlerKey r, dInstanceID r)"

definition locked_instances :: "lock_env \<Rightarrow> db \<Rightarrow> (uuid \<times> string) set" where
  "locked_instances l d = lInstances l \<union> instance_of ` {r \<in> set (deadlines d). dMessageID r \<in> lIDs l}"

definition AcquireDelivery_deadline :: "('p, 'r, 'm) process \<Rightarrow> uuid set \<Rightarrow> lock_env \<Rightarrow> delivery option tx" where
  "AcquireDelivery_deadline p types l = exec (wrapf ''unable to scan pending deadline'') (\<lambda>d.
     case sort_key (\<lambda>r. (dDeliverAt r, lTie l (dMessageID r)))
         (filter (\<lambda>r. dHandlerKey r = pKey p \<and> dDeliverAt r \<le> lNow l \<and> dTypeID r \<in> types
            \<and> proc_instances d (instance_of r) \<noteq> None \<and> dMessageID r \<notin> lIDs l \<and> instance_of r \<notin> locked_instances l d) (deadlines d)) of
       [] \<Rightarrow> Inr (None, d)
     | r # _ \<Rightarrow> Inr (Some (deadline_delivery r), d))"

definition postpone_deadline :: "uuid \<Rightarrow> u64 \<Rightarrow> time \<Rightarrow> nat sql" where
  "postpone_deadline mid failures at d =
     (if uint failures \<ge> 2 ^ 31 then Inl (New ''integer out of range'')
      else Inr (length (filter (\<lambda>r. dMessageID r = mid) (deadlines d)),
        d\<lparr>deadlines := map (\<lambda>r. if dMessageID r = mid then r\<lparr>dFailures := failures, dDeliverAt := at\<rparr> else r) (deadlines d)\<rparr>))"

definition PostponeDelivery_deadline :: "lock_env \<Rightarrow> delivery \<Rightarrow> duration \<Rightarrow> unit tx" where
  "PostponeDelivery_deadline l del delay = tx_wrap (wrapf ''unable to postpone deadline'')
     (ExecOne (postpone_deadline (MessageID del) (Failures del) (lNow l + delay)))"

definition delete_deadline :: "uuid \<Rightarrow> nat sql" where
  "delete_deadline mid d = Inr (length (filter (\<lambda>r. dMessageID r = mid) (deadlines d)),
     d\<lparr>deadlines := filter (\<lambda>r. dMessageID r \<noteq> mid) (deadlines d)\<rparr>)"

definition deleteDeadline :: "uuid \<Rightarrow> unit tx" where
  "deleteDeadline mid = tx_wrap (wrapf ''unable to delete deadline'') (ExecOne (delete_deadline mid))"

definition complete_deadline :: "('p, 'r, 'm) process \<Rightarrow> time \<Rightarrow> string \<Rightarrow> uuid \<Rightarrow> ('p, 'r) message_scope \<Rightarrow> unit tx" where
  "complete_deadline p now inst mid scope =
     tx_bind (apply_effects p now inst scope) (\<lambda>_. if Ended scope then tx_return () else deleteDeadline mid)"

definition HandleDelivery_deadline :: "('p, 'r, 'm) process \<Rightarrow> lock_env \<Rightarrow> delivery \<Rightarrow> envelope \<Rightarrow> unit tx" where
  "HandleDelivery_deadline p l del env =
     tx_bind (tx_call (failed (UnpackMessage (pMessages p) env 1))) (\<lambda>ms.
     tx_bind (tx_call (newRoot_process p)) (\<lambda>fresh.
     tx_bind (loadInstance_process p (SourceInstanceId (Header env)) fresh) (\<lambda>loaded.
     case loaded of
       None \<Rightarrow> tx_throw (Sentinel ErrFailed)
     | Some root \<Rightarrow>
         tx_bind (tx_call (go_value (ProcessInstanceDescription (pHandler p) root))) (\<lambda>_.
         tx_bind (tx_call (failed (call_process p (HandleDeadline (pHandler p) root (ScheduledFor (Body env)) (ms ! 0))
             (new_scope p env (SourceInstanceId (Header env)) root)))) (\<lambda>scope.
         complete_deadline p (lNow l) (SourceInstanceId (Header env)) (MessageID del) scope)))))"

definition deadline_pump :: "('p, 'r, 'm) process \<Rightarrow> uuid set \<Rightarrow> lock_env \<Rightarrow> driver" where
  "deadline_pump p types l = \<lparr>AcquireDelivery = AcquireDelivery_deadline p types l,
     PostponeDelivery = PostponeDelivery_deadline l, HandleDelivery = HandleDelivery_deadline p l\<rparr>"

section \<open>The invariant\<close>

text \<open>
  Message IDs are unique, an instance that has ended has no state and no deadlines, and each deadline's row says
  which instance its envelope is for.
\<close>

definition live :: "db \<Rightarrow> uuid \<times> string \<Rightarrow> bool" where
  "live d k \<longleftrightarrow> (\<exists>row. proc_instances d k = Some row \<and> \<not> pEnded row)"

definition addressed :: "envelope_api \<Rightarrow> deadline_row \<Rightarrow> bool" where
  "addressed api r \<longleftrightarrow> (\<forall>env. UnmarshalBinary api (dEnvelope r) = Inr env \<longrightarrow>
     SourceHandler (Header env) = dHandlerKey r \<and> SourceInstanceId (Header env) = dInstanceID r)"

definition proc_inv :: "envelope_api \<Rightarrow> db \<Rightarrow> bool" where
  "proc_inv api d \<longleftrightarrow> wf_queue d \<and> distinct (map dMessageID (deadlines d))
     \<and> (\<forall>r \<in> set (deadlines d). live d (instance_of r) \<and> addressed api r)
     \<and> (\<forall>k row. proc_instances d k = Some row \<longrightarrow> pEnded row \<longrightarrow> pState row = None)"

text \<open>What the engine relies on of the packer and of the encoding of envelopes.\<close>

definition packer_source :: "('p, 'm) packer_api \<Rightarrow> ('p \<Rightarrow> uuid \<times> string) \<Rightarrow> bool" where
  "packer_source api src \<longleftrightarrow> (\<forall>env key inst. src (PackEffects api env key inst) = (key, inst))
     \<and> (\<forall>m t p. src (snd (Pack api m t p)) = src p)
     \<and> (\<forall>p corr envs. Seal api p = Some (corr, envs) \<longrightarrow>
          (\<forall>x \<in> set envs. (SourceHandler (Header x), SourceInstanceId (Header x)) = src p))"

definition envelope_codec :: "envelope_api \<Rightarrow> bool" where
  "envelope_codec api \<longleftrightarrow> (\<forall>env data. MarshalBinary api env = Inr data \<longrightarrow> UnmarshalBinary api data = Inr env)"

definition process_ok :: "('p, 'r, 'm) process \<Rightarrow> ('p \<Rightarrow> uuid \<times> string) \<Rightarrow> bool" where
  "process_ok p src \<longleftrightarrow> packer_source (pPacker p) src \<and> envelope_codec (pEnvelopes p)"

definition deadline_queue :: "('p, 'r, 'm) process \<Rightarrow> db \<Rightarrow> uuid \<rightharpoonup> deadline_row" where
  "deadline_queue p d mid = find (\<lambda>r. dMessageID r = mid) (filter (\<lambda>r. dHandlerKey r = pKey p) (deadlines d))"

text \<open>How a scope's packers keep the instance they were made for.\<close>

lemma run_process_source:
  assumes "packer_source (pPacker p) src" and "run_process code p s = (r, s')"
  shows "src (DeadlinePacker s') = src (DeadlinePacker s)"
proof -
  have pack: "src packed = src q" if "Pack (pPacker p) m t q = (env, packed)" for m t q env packed
    using assms(1) that unfolding packer_source_def by (metis snd_conv)
  show ?thesis using assms(2)
  proof (induction code arbitrary: s)
    case (PMutate fn k)
    then show ?case by (fastforce simp: Mutate_def split: if_splits prod.splits go.splits)
  next
    case (PEnd k)
    then show ?case by (force simp: End_process_def)
  next
    case (PExecute c k)
    then show ?case by (fastforce simp: ExecuteCommand_scope_def split: if_splits prod.splits go.splits)
  next
    case (PSchedule d t k)
    have "src (DeadlinePacker (snd (ScheduleDeadline p d t s))) = src (DeadlinePacker s)"
      by (auto simp: ScheduleDeadline_def pack split: prod.splits)
    then show ?case using PSchedule by (fastforce split: prod.splits go.splits)
  qed auto
qed

section \<open>What the operations keep\<close>

definition extends_live :: "envelope_api \<Rightarrow> uuid \<times> string \<Rightarrow> db \<Rightarrow> db \<Rightarrow> bool" where
  "extends_live api k d d' \<longleftrightarrow> (proc_inv api d \<and> live d k \<longrightarrow>
     proc_inv api d' \<and> live d' k \<and> (\<exists>new. deadlines d' = deadlines d @ new))"

lemma extends_live_order [simp]: "reflp (extends_live api k)" "transp (extends_live api k)"
  by (auto simp: extends_live_def reflp_def transp_def)

lemma proc_inv_frame:
  "deadlines d' = deadlines d \<Longrightarrow> proc_instances d' = proc_instances d \<Longrightarrow> wf_queue d' \<Longrightarrow> proc_inv api d \<Longrightarrow> proc_inv api d'"
  by (simp add: proc_inv_def live_def)

lemma commandqueue_add_frame:
  assumes "commandqueue_add now mid tid data key d = Inr (x, d')"
  shows "deadlines d' = deadlines d" "proc_instances d' = proc_instances d" "checkpoints d' = checkpoints d"
    "streams d' = streams d" "events d' = events d" "wf_queue d \<Longrightarrow> wf_queue d'"
  using assms by (auto simp: commandqueue_add_def wf_queue_def Let_def split: if_splits option.splits)

lemma add_commands_keeps: "tx_keeps (extends_live api k) (add_commands eapi now envs)"
proof (induction envs)
  case (Cons env envs)
  have "extends_live api k d d'" if "commandqueue_add now mid tid data key d = Inr (x, d')" for d d' mid tid data key x
    using commandqueue_add_frame[OF that] proc_inv_frame[of d' d api] by (auto simp: extends_live_def live_def proc_inv_def)
  then show ?case using Cons by (auto intro!: frame_rules split: sum.splits)
qed (auto intro: frame_rules)

lemma addCommandsToQueue_keeps: "tx_keeps (extends_live api k) (addCommandsToQueue p now packer)"
  unfolding addCommandsToQueue_def by (auto intro!: frame_rules add_commands_keeps split: option.splits)

text \<open>Changing the state of an instance without ending it.\<close>

lemma update_state_live:
  assumes "update_process key inst (\<lambda>row. row\<lparr>pState := data\<rparr>) d = Inr (n, d')"
  shows "extends_live api k d d'"
proof (cases "proc_instances d (key, inst)")
  case None
  then show ?thesis using assms by (simp add: update_process_def extends_live_def)
next
  case (Some row)
  then have d': "d' = d\<lparr>proc_instances := (proc_instances d)((key, inst) \<mapsto> row\<lparr>pState := data\<rparr>)\<rparr>"
    "pEnded row \<longrightarrow> data = None"
    using assms by (auto simp: update_process_def split: if_splits)
  then have "live d' j \<longleftrightarrow> live d j" for j using Some by (auto simp: live_def)
  then show ?thesis using d' by (auto simp: extends_live_def proc_inv_def wf_queue_def)
qed

lemma saveInstance_keeps: "tx_keeps (extends_live api k) (saveInstance p inst root)"
  unfolding saveInstance_def by (intro frame_rules) (auto intro: update_state_live)

lemma insert_deadline_live:
  assumes "insert_deadline env data d = Inr (u, d')" and "MarshalBinary api env = Inr data" and "envelope_codec api"
    and "(SourceHandler (Header env), SourceInstanceId (Header env)) = k"
  shows "extends_live api k d d'"
proof -
  let ?r = "\<lparr>dMessageID = MessageId (Body env), dTypeID = TypeId (Body env), dHandlerKey = SourceHandler (Header env),
    dInstanceID = SourceInstanceId (Header env), dEnvelope = data, dFailures = 0, dDeliverAt = ScheduledFor (Body env)\<rparr>"
  have d': "d' = d\<lparr>deadlines := deadlines d @ [?r]\<rparr>" "MessageId (Body env) \<notin> dMessageID ` set (deadlines d)"
    using assms(1) by (auto simp: insert_deadline_def split: if_splits)
  have "addressed api ?r" using assms(2,3) by (auto simp: addressed_def envelope_codec_def)
  moreover have "instance_of ?r = k" using assms(4) by (simp add: instance_of_def)
  ultimately show ?thesis using d' by (auto simp: extends_live_def proc_inv_def wf_queue_def live_def)
qed

lemma insert_deadlines_keeps:
  assumes "envelope_codec api" and "\<forall>x \<in> set envs. (SourceHandler (Header x), SourceInstanceId (Header x)) = k"
  shows "tx_keeps (extends_live api k) (insert_deadlines api envs)"
  using assms(2)
proof (induction envs)
  case (Cons env envs)
  then show ?case
    by (auto intro!: frame_rules insert_deadline_live[OF _ _ assms(1)] split: sum.splits)
qed (auto intro: frame_rules)

lemma persistDeadlines_keeps:
  assumes "process_ok p src" and "src packer = k"
  shows "tx_keeps (extends_live (pEnvelopes p) k) (persistDeadlines p packer)"
  unfolding persistDeadlines_def using assms
  by (auto intro!: frame_rules insert_deadlines_keeps simp: process_ok_def packer_source_def split: option.splits)

text \<open>Ending an instance.\<close>

lemma endInstance_Inr:
  assumes "endInstance p inst s = (Ret (Inr u), s')"
  shows "\<exists>row. proc_instances (Db s) (pKey p, inst) = Some row \<and> Db s' = (Db s)\<lparr>
    proc_instances := (proc_instances (Db s))((pKey p, inst) \<mapsto> row\<lparr>pEnded := True, pState := None\<rparr>),
    deadlines := filter (\<lambda>r. instance_of r \<noteq> (pKey p, inst)) (deadlines (Db s))\<rparr>"
  using assms
  by (auto simp: endInstance_def tx_simps update_process_def delete_deadlines_def instance_of_def split: option.splits)

lemma ExecOne_Inl:
  assumes "ExecOne m s = (Ret (Inl e), s')" and "\<not> Broken s'"
  shows "\<exists>n. m (Db s) = Inr (n, Db s') \<and> n \<noteq> 1 \<and> \<not> Broken s"
  using assms exec_Inl[of _ m s e s'] by (auto simp: ExecOne_def tx_bind_Inl exec_Inr tx_simps split: if_splits)

lemma endInstance_defers: "tx_defers (=) (endInstance p inst)"
  unfolding tx_defers_def
proof (intro allI impI)
  fix s e s'
  assume e: "endInstance p inst s = (Ret (Inl e), s')" and nb: "\<not> Broken s'"
  then obtain e' where "ExecOne (update_process (pKey p) inst (\<lambda>row. row\<lparr>pEnded := True, pState := None\<rparr>)) s = (Ret (Inl e'), s')"
    using exec_Inl by (fastforce simp: endInstance_def tx_bind_Inl tx_wrap_Inl)
  from ExecOne_Inl[OF this nb] show "\<not> Broken s \<and> Db s = Db s'"
    by (auto simp: update_process_def split: option.splits if_splits)
qed

lemma ended_inv:
  assumes "proc_inv api d" and "proc_instances d k = Some row"
    and "d' = d\<lparr>proc_instances := (proc_instances d)(k \<mapsto> row\<lparr>pEnded := True, pState := None\<rparr>),
      deadlines := filter (\<lambda>r. instance_of r \<noteq> k) (deadlines d)\<rparr>"
  shows "proc_inv api d'"
  using assms(1) unfolding assms(3) proc_inv_def by (auto simp: wf_queue_def live_def distinct_map_filter)

lemma lock_instance_inv:
  assumes "lock_instance key inst d = Inr (row, d')" and "proc_inv api d"
  shows "proc_inv api d'" "proc_instances d' (key, inst) = Some row" "deadlines d' = deadlines d" "commands d' = commands d"
proof -
  have live: "live d k \<Longrightarrow> live d' k" for k
    using assms(1) by (auto simp: lock_instance_def live_def new_process_row_def split: if_splits option.splits)
  have "\<And>k row. proc_instances d' k = Some row \<Longrightarrow> pEnded row \<Longrightarrow> pState row = None"
    using assms by (auto simp: lock_instance_def new_process_row_def proc_inv_def split: if_splits option.splits)
  moreover show "proc_instances d' (key, inst) = Some row" "deadlines d' = deadlines d" "commands d' = commands d"
    using assms(1) by (auto simp: lock_instance_def split: if_splits option.splits)
  ultimately show "proc_inv api d'" using assms(2) live by (simp add: proc_inv_def wf_queue_def)
qed

lemma bind_exec_unbroken:
  assumes "tx_bind (exec wrap m) f s = (r, s')" and "\<not> Broken s'"
  shows "\<not> Broken s \<and> (\<exists>a s1. m (Db s) = Inr (a, Db s1) \<and> f a s1 = (r, s'))"
proof (cases "exec wrap m s")
  case (Pair x s1)
  show ?thesis
  proof (cases "\<exists>a. x = Ret (Inr a)")
    case True
    then obtain a where a: "exec wrap m s = (Ret (Inr a), s1)" using Pair by blast
    then have "m (Db s) = Inr (a, Db s1)" "\<not> Broken s" by (auto simp: exec_Inr)
    moreover have "f a s1 = (r, s')" using a assms(1) by (simp add: tx_bind_def)
    ultimately show ?thesis by blast
  next
    case False
    then obtain e where "x = Ret (Inl e)"
      using Pair by (auto simp: exec_def split: if_splits list.splits option.splits sum.splits)
    then show ?thesis using Pair assms exec_Inl[of wrap m s e s1] by (simp add: tx_bind_def)
  qed
qed

lemma loadInstance_process_cases:
  assumes "loadInstance_process p inst root0 s = (r, s')" and "\<not> Broken s'"
  shows "\<not> Broken s \<and> (\<exists>row. lock_instance (pKey p) inst (Db s) = Inr (row, Db s')
    \<and> (\<forall>loaded. r = Ret (Inr loaded) \<longrightarrow> (loaded = None \<longleftrightarrow> pEnded row)))"
proof -
  obtain row s1 where row: "\<not> Broken s" "lock_instance (pKey p) inst (Db s) = Inr (row, Db s1)"
    and rest: "(if pEnded row then tx_return None
       else (case pState row of
         None \<Rightarrow> tx_return (Some root0)
       | Some state \<Rightarrow> tx_bind (tx_call (failed (caught (UnmarshalState (pHandler p) state root0)))) (\<lambda>root'. tx_return (Some root')))) s1
       = (r, s')"
    using bind_exec_unbroken[OF assms(1)[unfolded loadInstance_process_def] assms(2)] by blast
  have "s' = s1 \<and> (\<forall>loaded. r = Ret (Inr loaded) \<longrightarrow> (loaded = None \<longleftrightarrow> pEnded row))"
  proof (cases "pEnded row")
    case True
    then show ?thesis using rest by (auto simp: tx_return_def)
  next
    case False
    then show ?thesis
      using rest by (cases "pState row") (auto simp: tx_bind_def tx_return_def tx_call_def split: go.splits sum.splits)
  qed
  then show ?thesis using row by auto
qed

section \<open>Handling a message\<close>

text \<open>The effects of a message that does not end the instance, and those of one that ends it.\<close>

lemma apply_effects_keeps:
  assumes "process_ok p src" and "src (DeadlinePacker scope) = k" and "\<not> Ended scope"
  shows "tx_keeps (extends_live (pEnvelopes p) k) (apply_effects p now inst scope)"
  unfolding apply_effects_def using assms
  by (auto intro!: frame_rules addCommandsToQueue_keeps saveInstance_keeps persistDeadlines_keeps)

lemma apply_effects_ended:
  assumes "apply_effects p now inst scope s = (Ret (Inr u), s')" and "Ended scope" and "\<not> Broken s"
    and "proc_inv api (Db s)" and "live (Db s) (pKey p, inst)"
  shows "proc_inv api (Db s') \<and> deadlines (Db s') = filter (\<lambda>r. instance_of r \<noteq> (pKey p, inst)) (deadlines (Db s))
    \<and> (\<exists>row. proc_instances (Db s') (pKey p, inst) = Some row \<and> pEnded row)"
proof -
  obtain v s1 where c: "addCommandsToQueue p now (CommandPacker scope) s = (Ret (Inr v), s1)"
    and e: "endInstance p inst s1 = (Ret (Inr u), s')"
    using assms(1,2) by (auto simp: apply_effects_def tx_bind_Inr)
  have "add_commands (pEnvelopes p) now envs s = (Ret (Inr v), s1) \<Longrightarrow> deadlines (Db s1) = deadlines (Db s)" for envs
  proof (induction envs arbitrary: s)
    case (Cons env envs)
    then show ?case by (auto simp: tx_bind_Inr exec_Inr dest!: commandqueue_add_frame(1) split: sum.splits)
  qed (simp add: tx_return_eq)
  then have dl: "deadlines (Db s1) = deadlines (Db s)"
    using c by (auto simp: addCommandsToQueue_def tx_return_eq split: option.splits)
  have inv: "proc_inv api (Db s1)"
    using tx_keeps_Inr[OF addCommandsToQueue_keeps c assms(3)] assms(4,5) unfolding extends_live_def by blast
  from endInstance_Inr[OF e] obtain row where row: "proc_instances (Db s1) (pKey p, inst) = Some row"
    "Db s' = (Db s1)\<lparr>proc_instances := (proc_instances (Db s1))((pKey p, inst) \<mapsto> row\<lparr>pEnded := True, pState := None\<rparr>),
      deadlines := filter (\<lambda>r. instance_of r \<noteq> (pKey p, inst)) (deadlines (Db s1))\<rparr>" by blast
  show ?thesis using ended_inv[OF inv row] row(2) dl by simp
qed

lemma apply_effects_defers:
  assumes "process_ok p src" and "src (DeadlinePacker scope) = k"
  shows "tx_defers (extends_live (pEnvelopes p) k) (apply_effects p now inst scope)"
proof (cases "Ended scope")
  case True
  have "tx_defers (extends_live (pEnvelopes p) k) (endInstance p inst)"
    using endInstance_defers[of p inst] unfolding tx_defers_def by (metis extends_live_order(1) reflpD)
  then show ?thesis
    unfolding apply_effects_def using True by (auto intro!: defer_rules addCommandsToQueue_keeps)
next
  case False
  then show ?thesis using apply_effects_keeps[OF assms] by (intro keeps_defers) auto
qed

lemma deleteDeadline_defers: "tx_defers (extends_live api k) (deleteDeadline mid)"
  unfolding tx_defers_def
proof (intro allI impI)
  fix s e s'
  assume e: "deleteDeadline mid s = (Ret (Inl e), s')" and nb: "\<not> Broken s'"
  then obtain e' where "ExecOne (delete_deadline mid) s = (Ret (Inl e'), s')"
    by (auto simp: deleteDeadline_def tx_wrap_Inl)
  from ExecOne_Inl[OF this nb] have s': "\<not> Broken s" "length (filter (\<lambda>r. dMessageID r = mid) (deadlines (Db s))) \<noteq> 1"
    "Db s' = (Db s)\<lparr>deadlines := filter (\<lambda>r. dMessageID r \<noteq> mid) (deadlines (Db s))\<rparr>"
    by (auto simp: delete_deadline_def)
  have "extends_live api k (Db s) (Db s')" if inv: "proc_inv api (Db s)"
  proof -
    have "length (filter (\<lambda>r. dMessageID r = mid) xs) \<le> 1" if "distinct (map dMessageID xs)" for xs
      using that by (induction xs) (auto simp: filter_empty_conv image_iff)
    then have "length (filter (\<lambda>r. dMessageID r = mid) (deadlines (Db s))) = 0"
      using s'(2) inv by (metis One_nat_def le_SucE le_zero_eq proc_inv_def)
    then have "filter (\<lambda>r. dMessageID r \<noteq> mid) (deadlines (Db s)) = deadlines (Db s)"
      by (auto simp: filter_empty_conv filter_id_conv)
    then have "Db s' = Db s" using s'(3) by simp
    then show ?thesis by (simp add: extends_live_def)
  qed
  then show "\<not> Broken s \<and> extends_live api k (Db s) (Db s')" using s'(1) by (auto simp: extends_live_def)
qed

lemma call_process_source:
  assumes "process_ok p src" and "call_process p code (new_scope p env inst root) = Ret (Inr scope)"
  shows "src (DeadlinePacker scope) = (pKey p, inst)"
proof -
  have "run_process code p (new_scope p env inst root) = (Ret None, scope)"
    using assms(2) by (auto simp: call_process_def tx_simps go_simps split: prod.splits)
  from run_process_source[OF _ this] assms(1) show ?thesis
    by (auto simp: process_ok_def new_scope_def packer_source_def)
qed

section \<open>The pump's contract\<close>

lemma find_mem: "find P xs = Some x \<Longrightarrow> x \<in> set xs \<and> P x"
  by (induction xs) (auto split: if_splits)

lemma deadline_queue_Some:
  "proc_inv api d \<Longrightarrow> deadline_queue p d mid = Some r \<longleftrightarrow> r \<in> set (deadlines d) \<and> dMessageID r = mid \<and> dHandlerKey r = pKey p"
proof -
  assume "proc_inv api d"
  then have "distinct (map dMessageID (filter (\<lambda>r. dHandlerKey r = pKey p) (deadlines d)))"
    by (simp add: proc_inv_def distinct_map_filter)
  from find_distinct[OF this] show ?thesis
    by (auto simp: deadline_queue_def dest: find_mem)
qed

lemma deadline_queue_None:
  "deadline_queue p d mid = None \<longleftrightarrow> (\<forall>r \<in> set (deadlines d). dMessageID r = mid \<longrightarrow> dHandlerKey r \<noteq> pKey p)"
  by (auto simp: deadline_queue_def find_None_iff)

lemma deadline_queue_append:
  "deadlines d' = deadlines d @ new \<Longrightarrow> deadline_queue p d mid \<noteq> None \<Longrightarrow> deadline_queue p d' mid = deadline_queue p d mid"
proof -
  have "find P (xs @ ys) = find P xs" if "find P xs \<noteq> None" for P and xs ys :: "deadline_row list"
    using that by (induction xs) auto
  then show "deadlines d' = deadlines d @ new \<Longrightarrow> deadline_queue p d mid \<noteq> None \<Longrightarrow> deadline_queue p d' mid = deadline_queue p d mid"
    by (simp add: deadline_queue_def)
qed

lemma AcquireDeadline_Some:
  assumes "AcquireDelivery_deadline p types l s = (Ret (Inr (Some del)), s')"
  shows "Db s' = Db s \<and> Broken s' = Broken s \<and> (\<exists>r \<in> set (deadlines (Db s)). del = deadline_delivery r
    \<and> dHandlerKey r = pKey p \<and> dDeliverAt r \<le> lNow l \<and> dMessageID r \<notin> lIDs l \<and> instance_of r \<notin> locked_instances l (Db s))"
proof -
  let ?key = "\<lambda>r. (dDeliverAt r, lTie l (dMessageID r))"
  let ?rows = "filter (\<lambda>r. dHandlerKey r = pKey p \<and> dDeliverAt r \<le> lNow l \<and> dTypeID r \<in> types
     \<and> proc_instances (Db s) (instance_of r) \<noteq> None \<and> dMessageID r \<notin> lIDs l \<and> instance_of r \<notin> locked_instances l (Db s)) (deadlines (Db s))"
  obtain r rs where r: "sort_key ?key ?rows = r # rs" "del = deadline_delivery r" "Db s' = Db s" "Broken s' = Broken s"
    using assms unfolding AcquireDelivery_deadline_def exec_Inr by (cases "sort_key ?key ?rows") auto
  have "set (r # rs) = set ?rows" by (rule set_sort[of ?key ?rows, unfolded r(1)])
  then have "r \<in> set ?rows" by (metis list.set_intros(1))
  then show ?thesis using r(2-4) by auto
qed

lemma postponed_row [simp]:
  "instance_of (r\<lparr>dFailures := f, dDeliverAt := t\<rparr>) = instance_of r" "addressed api (r\<lparr>dFailures := f, dDeliverAt := t\<rparr>) = addressed api r"
  by (simp_all add: instance_of_def addressed_def)

lemma postpone_deadline_queue:
  assumes "postpone_deadline mid failures at d = Inr (1, d')" and "deadline_queue p d mid = Some r" and "proc_inv api d"
  shows "proc_inv api d'" "deadline_queue p d' = (deadline_queue p d)(mid \<mapsto> r\<lparr>dFailures := failures, dDeliverAt := at\<rparr>)"
proof -
  let ?g = "\<lambda>r :: deadline_row. if dMessageID r = mid then r\<lparr>dFailures := failures, dDeliverAt := at\<rparr> else r"
  have d': "d' = d\<lparr>deadlines := map ?g (deadlines d)\<rparr>"
    using assms(1) by (simp add: postpone_deadline_def split: if_splits)
  have g: "dMessageID \<circ> ?g = dMessageID" "\<And>r. dMessageID (?g r) = dMessageID r" by auto
  then show "proc_inv api d'" using assms(3) unfolding d' proc_inv_def by (auto simp: wf_queue_def live_def)
  have "filter (\<lambda>r. dHandlerKey r = pKey p) (map ?g xs) = map ?g (filter (\<lambda>r. dHandlerKey r = pKey p) xs)" for xs
    by (induction xs) auto
  then have "deadline_queue p d' k = map_option ?g (deadline_queue p d k)" for k
    using d' g(2) by (simp add: deadline_queue_def find_map_same)
  then show "deadline_queue p d' = (deadline_queue p d)(mid \<mapsto> r\<lparr>dFailures := failures, dDeliverAt := at\<rparr>)"
    using assms(2) by (intro ext) (auto simp: deadline_queue_def map_option_case dest: find_mem split: option.splits)
qed

text \<open>The steps of handling a deadline that succeeds.\<close>

lemma HandleDelivery_deadline_Inr:
  assumes "HandleDelivery_deadline p l del env s = (Ret (Inr u), s')" and "process_ok p src" and "\<not> Broken s"
  obtains row s1 scope where "lock_instance (pKey p) (SourceInstanceId (Header env)) (Db s) = Inr (row, Db s1)" "\<not> pEnded row" "\<not> Broken s1"
    "src (DeadlinePacker scope) = (pKey p, SourceInstanceId (Header env))"
    "complete_deadline p (lNow l) (SourceInstanceId (Header env)) (MessageID del) scope s1 = (Ret (Inr u), s')"
proof -
  let ?inst = "SourceInstanceId (Header env)"
  obtain ms root0 loaded s1 where l: "loadInstance_process p ?inst root0 s = (Ret (Inr loaded), s1)"
    and rest: "(case loaded of None \<Rightarrow> tx_throw (Sentinel ErrFailed)
     | Some root \<Rightarrow>
         tx_bind (tx_call (go_value (ProcessInstanceDescription (pHandler p) root))) (\<lambda>_.
         tx_bind (tx_call (failed (call_process p (HandleDeadline (pHandler p) root (ScheduledFor (Body env)) (ms ! 0))
             (new_scope p env ?inst root)))) (\<lambda>scope. complete_deadline p (lNow l) ?inst (MessageID del) scope))) s1 = (Ret (Inr u), s')"
    using assms(1) unfolding HandleDelivery_deadline_def tx_bind_Inr[of "tx_call _"] tx_bind_Inr[of "loadInstance_process _ _ _"]
      tx_call_eq by blast
  then obtain root scope where root: "loaded = Some root"
    and call: "call_process p (HandleDeadline (pHandler p) root (ScheduledFor (Body env)) (ms ! 0)) (new_scope p env ?inst root) = Ret (Inr scope)"
    and c: "complete_deadline p (lNow l) ?inst (MessageID del) scope s1 = (Ret (Inr u), s')"
    by (cases loaded) (auto simp: tx_simps)
  have keeps: "tx_keeps (\<lambda>_ _. True) (loadInstance_process p ?inst root0)"
    unfolding loadInstance_process_def by (intro frame_rules) (auto simp: reflp_def transp_def intro!: frame_rules)
  have nb: "\<not> Broken s1" using tx_keeps_Inr[OF keeps l assms(3)] by simp
  from loadInstance_process_cases[OF l nb] root obtain row where
    "lock_instance (pKey p) ?inst (Db s) = Inr (row, Db s1)" "\<not> pEnded row" by auto
  from that[OF this nb call_process_source[OF assms(2) call] c] show thesis .
qed

text \<open>A deadline that has been handled leaves the queue, and the deadlines of other instances stay.\<close>

lemma complete_deadline_Inr:
  assumes "complete_deadline p now inst mid scope s = (Ret (Inr u), s')" and "process_ok p src"
    and "src (DeadlinePacker scope) = (pKey p, inst)" and "\<not> Broken s"
    and "proc_inv (pEnvelopes p) (Db s)" and "live (Db s) (pKey p, inst)"
  shows "proc_inv (pEnvelopes p) (Db s')
    \<and> (\<forall>r \<in> set (deadlines (Db s)). dMessageID r \<noteq> mid \<longrightarrow> instance_of r \<noteq> (pKey p, inst) \<longrightarrow> r \<in> set (deadlines (Db s')))
    \<and> (if Ended scope then deadlines (Db s') = filter (\<lambda>r. instance_of r \<noteq> (pKey p, inst)) (deadlines (Db s))
       else mid \<notin> dMessageID ` set (deadlines (Db s')))"
proof -
  obtain v s1 where a: "apply_effects p now inst scope s = (Ret (Inr v), s1)"
    and f: "(if Ended scope then tx_return () else deleteDeadline mid) s1 = (Ret (Inr u), s')"
    using assms(1) by (auto simp: complete_deadline_def tx_bind_Inr)
  show ?thesis
  proof (cases "Ended scope")
    case True
    then show ?thesis using apply_effects_ended[OF a True assms(4-6)] f by (auto simp: tx_return_eq)
  next
    case False
    have "extends_live (pEnvelopes p) (pKey p, inst) (Db s) (Db s1)"
      using tx_keeps_Inr[OF apply_effects_keeps[OF assms(2,3) False] a assms(4)] by blast
    then obtain new where new: "proc_inv (pEnvelopes p) (Db s1)" "deadlines (Db s1) = deadlines (Db s) @ new"
      using assms(5,6) unfolding extends_live_def by blast
    have "Db s' = (Db s1)\<lparr>deadlines := filter (\<lambda>r. dMessageID r \<noteq> mid) (deadlines (Db s1))\<rparr>"
      using f False by (auto simp: deleteDeadline_def delete_deadline_def tx_simps)
    then show ?thesis
      using False new by (auto simp: proc_inv_def wf_queue_def live_def distinct_map_filter)
  qed
qed

lemma HandleDelivery_deadline_ok:
  assumes "HandleDelivery_deadline p l del env s = (Ret (Inr u), s')" and "process_ok p src" and "\<not> Broken s"
    and "proc_inv (pEnvelopes p) (Db s)" and "deadline_queue p (Db s) (MessageID del) = Some r"
    and "UnmarshalBinary (pEnvelopes p) (dEnvelope r) = Inr env"
  shows "proc_inv (pEnvelopes p) (Db s') \<and> deadline_queue p (Db s') (MessageID del) = None
    \<and> (\<forall>mid r'. mid \<noteq> MessageID del \<longrightarrow> deadline_queue p (Db s) mid = Some r' \<longrightarrow> instance_of r \<noteq> instance_of r'
         \<longrightarrow> deadline_queue p (Db s') mid = Some r')"
  using assms(1-3)
proof (rule HandleDelivery_deadline_Inr)
  let ?inst = "SourceInstanceId (Header env)"
  fix row s1 scope
  assume lock: "lock_instance (pKey p) ?inst (Db s) = Inr (row, Db s1)" "\<not> pEnded row" "\<not> Broken s1"
    and src: "src (DeadlinePacker scope) = (pKey p, ?inst)"
    and c: "complete_deadline p (lNow l) ?inst (MessageID del) scope s1 = (Ret (Inr u), s')"
  note li = lock_instance_inv[OF lock(1) assms(4)]
  have live: "live (Db s1) (pKey p, ?inst)" using li(2) lock(2) by (simp add: live_def)
  have r: "r \<in> set (deadlines (Db s))" "dMessageID r = MessageID del" "instance_of r = (pKey p, ?inst)"
    using assms(4-6) deadline_queue_Some[OF assms(4)] by (auto simp: proc_inv_def addressed_def instance_of_def)
  note done_ = complete_deadline_Inr[OF c assms(2) src lock(3) li(1) live, unfolded li(3)]
  have "deadline_queue p (Db s') (MessageID del) = None"
    unfolding deadline_queue_None
  proof (intro ballI impI)
    fix r' assume r': "r' \<in> set (deadlines (Db s'))" "dMessageID r' = MessageID del"
    show "dHandlerKey r' \<noteq> pKey p"
    proof (cases "Ended scope")
      case True
      then have "r' \<in> set (deadlines (Db s))" "instance_of r' \<noteq> (pKey p, ?inst)" using done_ r' by auto
      moreover have "r' = r"
        using calculation(1) r(1,2) r'(2) assms(4) unfolding proc_inv_def distinct_map by (metis inj_onD)
      ultimately show ?thesis using r(3) by simp
    next
      case False
      then show ?thesis using done_ r' by force
    qed
  qed
  moreover have "deadline_queue p (Db s') mid = Some r'"
    if "mid \<noteq> MessageID del" "deadline_queue p (Db s) mid = Some r'" "instance_of r \<noteq> instance_of r'" for mid r'
  proof -
    have r': "r' \<in> set (deadlines (Db s))" "dMessageID r' = mid" "dHandlerKey r' = pKey p"
      using that(2) deadline_queue_Some[OF assms(4)] by auto
    then have "r' \<in> set (deadlines (Db s'))" using done_ that(1,3) r(3) by auto
    then show ?thesis using r' done_ deadline_queue_Some[of "pEnvelopes p" "Db s'" p mid r'] by auto
  qed
  ultimately show ?thesis using done_ by blast
qed

text \<open>A deadline whose handling reports an error, without breaking the transaction, is still in the queue, as are all others.\<close>

lemma HandleDelivery_deadline_defers:
  assumes "HandleDelivery_deadline p l del env s = (Ret (Inl e), s')" and "process_ok p src" and "\<not> Broken s'"
    and "proc_inv (pEnvelopes p) (Db s)"
  shows "proc_inv (pEnvelopes p) (Db s') \<and> (\<exists>new. deadlines (Db s') = deadlines (Db s) @ new)"
proof -
  let ?inst = "SourceInstanceId (Header env)"
  let ?rest = "\<lambda>ms loaded. (case loaded of None \<Rightarrow> tx_throw (Sentinel ErrFailed)
     | Some root \<Rightarrow>
         tx_bind (tx_call (go_value (ProcessInstanceDescription (pHandler p) root))) (\<lambda>_.
         tx_bind (tx_call (failed (call_process p (HandleDeadline (pHandler p) root (ScheduledFor (Body env)) (ms ! 0))
             (new_scope p env ?inst root)))) (\<lambda>scope. complete_deadline p (lNow l) ?inst (MessageID del) scope)))"
  consider (same) "s' = s"
    | (load) root0 where "loadInstance_process p ?inst root0 s = (Ret (Inl e), s')"
    | (rest) ms root0 loaded s1 where "loadInstance_process p ?inst root0 s = (Ret (Inr loaded), s1)" "?rest ms loaded s1 = (Ret (Inl e), s')"
    using assms(1) unfolding HandleDelivery_deadline_def tx_bind_Inl[of "tx_call _"] tx_bind_Inl[of "loadInstance_process _ _ _"] tx_call_eq
    by blast
  then show ?thesis
  proof cases
    case same
    then show ?thesis using assms(4) by simp
  next
    case load
    from loadInstance_process_cases[OF this assms(3)] obtain row where "lock_instance (pKey p) ?inst (Db s) = Inr (row, Db s')" by blast
    from lock_instance_inv[OF this assms(4)] show ?thesis by simp
  next
    case rest
    have "tx_defers (extends_live (pEnvelopes p) (pKey p, ?inst)) (complete_deadline p (lNow l) ?inst (MessageID del) scope)"
      if "src (DeadlinePacker scope) = (pKey p, ?inst)" for scope
    proof (cases "Ended scope")
      case True
      have "tx_defers R (tx_bind m (\<lambda>_. tx_return ()))" if "tx_defers R m" for R and m :: "unit tx"
        using that unfolding tx_defers_def tx_bind_Inl by (auto simp: tx_return_eq)
      then show ?thesis unfolding complete_deadline_def using True apply_effects_defers[OF assms(2) that] by simp
    next
      case False
      then show ?thesis unfolding complete_deadline_def
        by (auto intro!: defer_rules apply_effects_keeps[OF assms(2) that] deleteDeadline_defers)
    qed
    note defers = tx_defersD[OF this _ assms(3)]
    consider (ended) "s' = s1"
      | (handled) scope where "src (DeadlinePacker scope) = (pKey p, ?inst)"
          "complete_deadline p (lNow l) ?inst (MessageID del) scope s1 = (Ret (Inl e), s')" "loaded \<noteq> None"
      using rest(2) call_process_source[OF assms(2)]
      by (cases loaded) (simp_all add: tx_simps, blast)
    then show ?thesis
    proof cases
      case ended
      from loadInstance_process_cases[OF rest(1)[folded ended] assms(3)] obtain row where
        "lock_instance (pKey p) ?inst (Db s) = Inr (row, Db s')" by blast
      from lock_instance_inv[OF this assms(4)] show ?thesis by simp
    next
      case handled
      have d: "\<not> Broken s1" "extends_live (pEnvelopes p) (pKey p, ?inst) (Db s1) (Db s')"
        using defers[OF handled(1,2)] by auto
      from loadInstance_process_cases[OF rest(1) d(1)] handled(3) obtain row where
        lock: "lock_instance (pKey p) ?inst (Db s) = Inr (row, Db s1)" "\<not> pEnded row" by auto
      note li = lock_instance_inv[OF lock(1) assms(4)]
      then show ?thesis using d(2) lock(2) by (auto simp: extends_live_def live_def)
    qed
  qed
qed

interpretation deadline_driver: message_driver "deadline_pump p types" "pEnvelopes p" "deadline_queue p"
  "\<lambda>d. process_ok p src \<and> proc_inv (pEnvelopes p) d" dFailures dDeliverAt dEnvelope "\<lambda>r r'. instance_of r = instance_of r'"
  for p :: "('p, 'r, 'm) process" and src types
proof (unfold_locales, goal_cases)
  case (1 l s del s')
  then have "AcquireDelivery_deadline p types l s = (Ret (Inr (Some del)), s')" by (simp add: deadline_pump_def)
  from AcquireDeadline_Some[OF this] obtain r where
    r: "Db s' = Db s" "Broken s' = Broken s" "r \<in> set (deadlines (Db s))" "del = deadline_delivery r" "dHandlerKey r = pKey p" "dDeliverAt r \<le> lNow l"
      "dMessageID r \<notin> lIDs l" "instance_of r \<notin> locked_instances l (Db s)" by blast
  have inv: "proc_inv (pEnvelopes p) (Db s)" using 1(2) by blast
  have "instance_of r \<noteq> instance_of r'" if "mid \<in> lIDs l" "deadline_queue p (Db s) mid = Some r'" for mid r'
  proof -
    have "r' \<in> set (deadlines (Db s))" "dMessageID r' = mid" using that(2) deadline_queue_Some[OF inv] by auto
    then show ?thesis using r(8) that(1) by (auto simp: locked_instances_def)
  qed
  moreover have "deadline_queue p (Db s) (dMessageID r) = Some r" using deadline_queue_Some[OF inv, of p] r(3,5) by blast
  ultimately show ?case using r 1(3) by (intro conjI exI[of _ r]) (auto simp: deadline_delivery_def)
next
  case (2 l s s')
  then show ?case by (auto simp: deadline_pump_def AcquireDelivery_deadline_def exec_Inr split: list.splits)
next
  case (3 l del delay s u s' row)
  then obtain d where d: "postpone_deadline (MessageID del) (Failures del) (lNow l + delay) (Db s) = Inr (1, d)" "Db s' = d"
    by (auto simp: deadline_pump_def PostponeDelivery_deadline_def tx_simps)
  have inv: "proc_inv (pEnvelopes p) (Db s)" using 3(2) by blast
  from postpone_deadline_queue[OF d(1) 3(3) inv] show ?case
    using d(2) 3(2) by (intro conjI exI[of _ "row\<lparr>dFailures := Failures del, dDeliverAt := lNow l + delay\<rparr>"]) simp_all
next
  case (4 l del m s u s' row)
  have h: "HandleDelivery_deadline p l del m s = (Ret (Inr u), s')" "process_ok p src" "proc_inv (pEnvelopes p) (Db s)"
    "UnmarshalBinary (pEnvelopes p) (dEnvelope row) = Inr m"
    using 4 by (auto simp: deadline_pump_def unmarshal_valid_def split: sum.splits option.splits)
  from HandleDelivery_deadline_ok[OF h(1,2) 4(4) h(3) 4(3) h(4)] h(2) show ?case by blast
next
  case (5 l del m s e s')
  have h: "HandleDelivery_deadline p l del m s = (Ret (Inl e), s')" "process_ok p src" "proc_inv (pEnvelopes p) (Db s)"
    using 5 by (auto simp: deadline_pump_def)
  from HandleDelivery_deadline_defers[OF h(1,2) 5(3) h(3)] h(2) show ?case using deadline_queue_append by blast
next
  case (7 l del delay s u s')
  then show ?case by (auto simp: deadline_pump_def PostponeDelivery_deadline_def tx_simps)
qed simp

section \<open>An application with a deadline\<close>

lemma sample_process_ok: "process_ok sample_process fst"
  by (auto simp: process_ok_def packer_source_def envelope_codec_def sample_process_def effect_packer_def effect_codec_def
      Let_def split: if_splits)

definition sample_deadline :: deadline_row where
  "sample_deadline = \<lparr>dMessageID = UUID 0 1, dTypeID = UUID 0 2, dHandlerKey = UUID 0 7, dInstanceID = ''i'', dEnvelope = [42],
     dFailures = 0, dDeliverAt = 3\<rparr>"

text \<open>The instance has the given state, and one deadline.\<close>

definition deadline_db :: "bytes \<Rightarrow> db" where
  "deadline_db state = empty_db\<lparr>
     proc_instances := [(UUID 0 7, ''i'') \<mapsto> \<lparr>pEnded = False, pState = Some state\<rparr>], deadlines := [sample_deadline]\<rparr>"

lemma deadline_db_inv: "proc_inv effect_codec (deadline_db state)"
  by (auto simp: proc_inv_def deadline_db_def empty_db_def wf_queue_def live_def instance_of_def addressed_def sample_deadline_def
      effect_codec_def effect_envelope_def split: if_splits)

section \<open>Properties of deadlines\<close>

text \<open>
  C5. Deadlines of one process instance are handled one at a time, and never for an instance that has ended.  In every interleaving
  of the dispatcher, the workers, failures, cancellations and all other users of the tables, the deliveries that
  are being handled are of different deadlines and of different instances, and the instance that each is addressed to
  exists and has not ended (the pump's branch for an ended instance is unreachable).
\<close>

theorem deadline_pump_exclusive:
  assumes "pump_reachable (deadline_pump p types) (pEnvelopes p) pu (deadline_queue p)
      (\<lambda>d. process_ok p src \<and> proc_inv (pEnvelopes p) d) st"
  shows "distinct (map (MessageID \<circ> fst) (Held st))
    \<and> (\<forall>(del, m) \<in> set (Held st). live (Tables st) (pKey p, SourceInstanceId (Header m)))
    \<and> (\<forall>(del, m) \<in> set (Held st). \<forall>(del', m') \<in> set (Held st). MessageID del \<noteq> MessageID del' \<longrightarrow>
         SourceInstanceId (Header m) \<noteq> SourceInstanceId (Header m'))"
proof -
  note inv = deadline_driver.pump_reachable_inv[OF assms]
  then have pinv: "proc_inv (pEnvelopes p) (Tables st)" by (simp add: deadline_driver.pump_inv_def)
  have task: "\<exists>r \<in> set (deadlines (Tables st)). deadline_queue p (Tables st) (MessageID del) = Some r \<and> dHandlerKey r = pKey p
      \<and> dInstanceID r = SourceInstanceId (Header m) \<and> live (Tables st) (pKey p, SourceInstanceId (Header m))"
    if mem: "(del, m) \<in> set (Held st)" for del m
  proof -
    obtain r where r: "deadline_queue p (Tables st) (MessageID del) = Some r" "unmarshal_valid (pEnvelopes p) (dEnvelope r) = Inr m"
      using inv mem unfolding deadline_driver.pump_inv_def deadline_driver.task_ok_def by fastforce
    then have mem: "r \<in> set (deadlines (Tables st))" "dHandlerKey r = pKey p" using deadline_queue_Some[OF pinv] by auto
    have "UnmarshalBinary (pEnvelopes p) (dEnvelope r) = Inr m"
      using r(2) by (auto simp: unmarshal_valid_def split: sum.splits option.splits)
    then show ?thesis using pinv mem r(1) by (auto simp: proc_inv_def addressed_def instance_of_def)
  qed
  have "SourceInstanceId (Header m) \<noteq> SourceInstanceId (Header m')"
    if held: "(del, m) \<in> set (Held st)" "(del', m') \<in> set (Held st)" "MessageID del \<noteq> MessageID del'" for del m del' m'
  proof -
    obtain r r' where r: "deadline_queue p (Tables st) (MessageID del) = Some r" "instance_of r = (pKey p, SourceInstanceId (Header m))"
      "deadline_queue p (Tables st) (MessageID del') = Some r'" "instance_of r' = (pKey p, SourceInstanceId (Header m'))"
      using task[OF held(1)] task[OF held(2)] by (auto simp: instance_of_def)
    have "MessageID del \<in> held_ids (Held st)" "MessageID del' \<in> held_ids (Held st)"
      using held(1,2) deadline_driver.held_idsI by fastforce+
    then have "instance_of r \<noteq> instance_of r'"
      using inv r(1,3) held(3) unfolding deadline_driver.pump_inv_def deadline_driver.no_conflict_def by blast
    then show ?thesis using r(2,4) by simp
  qed
  then show ?thesis using inv task by (fastforce simp: deadline_driver.pump_inv_def)
qed

definition deadline_locks :: lock_env where
  "deadline_locks = \<lparr>lNow = 5, lIDs = {}, lInstances = {}, lTie = (\<lambda>i. 0)\<rparr>"

definition deadline_env :: pump_env where
  "deadline_env = \<lparr>pBegin = None, pLocks = deadline_locks, pFaults = [], pRand = (\<lambda>n. 0), pCommit = \<lparr>cErr = None, cApplied = True\<rparr>\<rparr>"

definition deadline_backoff :: pump where
  "deadline_backoff = \<lparr>BackoffBase = 10, BackoffCap = 1000\<rparr>"

theorem deadline_pump_exclusive_witness:
  "\<exists>st. pump_reachable (deadline_pump sample_process {UUID 0 2}) effect_codec deadline_backoff (deadline_queue sample_process)
      (\<lambda>d. process_ok sample_process fst \<and> proc_inv effect_codec d) st
    \<and> Held st = [(deadline_delivery sample_deadline, effect_envelope (UUID 0 7, ''i'') 0 [42])] \<and> live (Tables st) (UUID 0 7, ''i'')"
proof -
  let ?mk = "deadline_pump sample_process {UUID 0 2}" and ?task = "(deadline_delivery sample_deadline, effect_envelope (UUID 0 7, ''i'') 0 [42])"
  let ?inv = "\<lambda>d. process_ok sample_process fst \<and> proc_inv effect_codec d"
  let ?t = "doAcquireTask ?mk effect_codec deadline_backoff [deadline_env] (deadline_db [1])"
  have "fst ?t = Ret (Inr (Some ?task))" by code_simp
  then obtain d1 where t: "?t = (Ret (Inr (Some ?task)), d1)" by (metis prod.collapse)
  let ?st = "\<lparr>Tables = deadline_db [1], Held = []\<rparr>"
  have codec: "pEnvelopes sample_process = effect_codec" "pKey sample_process = UUID 0 7" by (simp_all add: sample_process_def)
  have "pump_reachable ?mk effect_codec deadline_backoff (deadline_queue sample_process) ?inv ?st"
    using sample_process_ok deadline_db_inv by (intro pump_reachable.init) simp
  moreover have "pump_step ?mk effect_codec deadline_backoff (deadline_queue sample_process) ?inv ?st (?st\<lparr>Tables := d1, Held := ?task # Held ?st\<rparr>)"
    by (rule pump_step.acquired[of "[deadline_env]"]) (use t in \<open>simp_all add: held_ids_def\<close>)
  ultimately have r: "pump_reachable ?mk effect_codec deadline_backoff (deadline_queue sample_process) ?inv \<lparr>Tables = d1, Held = [?task]\<rparr>"
    using pump_reachable.step by force
  have "SourceInstanceId (Header (effect_envelope (UUID 0 7, ''i'') 0 [42])) = ''i''" by (simp add: effect_envelope_def)
  with deadline_pump_exclusive[of sample_process "{UUID 0 2}" deadline_backoff fst, unfolded codec, OF r] have "live d1 (UUID 0 7, ''i'')"
    by simp
  with r show ?thesis by (intro exI[of _ "\<lparr>Tables = d1, Held = [?task]\<rparr>"]) simp
qed

text \<open>
  C8. Commands of a failed attempt are executed.  If a process handles a deadline, executes commands and mutates its root, but the root can not be
  marshaled, then the attempt is reported as failed and the deadline is postponed.  Nevertheless the commands
  of the failed attempt are committed to the command queue with the postponement, so that every further
  attempt executes them again.
\<close>

theorem failed_deadline_commits_commands:
  assumes "UnpackMessage (pMessages p) env 1 = Ret (Inr ms)" and "newRoot_process p = Ret (Inr root0)"
    and "loadInstance_process p (SourceInstanceId (Header env)) root0 (start [] d) = (Ret (Inr (Some root)), start [] d1)"
    and "ProcessInstanceDescription (pHandler p) root = Ret desc"
    and "call_process p (HandleDeadline (pHandler p) root (ScheduledFor (Body env)) (ms ! 0)) (new_scope p env (SourceInstanceId (Header env)) root)
      = Ret (Inr scope)"
    and "addCommandsToQueue p (lNow (pLocks penv)) (CommandPacker scope) (start [] d1) = (Ret (Inr ()), start [] d2)"
    and "Mutated scope" and "\<not> Ended scope" and "MarshalState (pHandler p) (mRoot scope) = Ret (Inl e)"
    and "computeBackoff (pRand penv) pu (Failures del + 1) = Ret delay"
    and "postpone_deadline (MessageID del) (Failures del + 1) (lNow (pLocks penv) + delay) d2 = Inr (1, d3)"
    and "pFaults penv = []" and "cErr (pCommit penv) = None"
  shows "doHandle (deadline_pump p types) pu penv del env d = (Ret None, d3) \<and> commands d3 = commands d2
    \<and> MessageID del \<in> dMessageID ` set (deadlines d3)"
proof -
  have "apply_effects p (lNow (pLocks penv)) (SourceInstanceId (Header env)) scope (start [] d1) = (Ret (Inl (Sentinel ErrFailed)), start [] d2)"
    using assms(6-9) by (simp add: apply_effects_def saveInstance_def tx_bind_def tx_call_def failed_def)
  then have "HandleDelivery_deadline p (pLocks penv) del env (start [] d) = (Ret (Inl (Sentinel ErrFailed)), start [] d2)"
    using assms(1-5) by (simp add: HandleDelivery_deadline_def complete_deadline_def tx_bind_def tx_call_def failed_def go_value_def)
  moreover have "PostponeDelivery_deadline (pLocks penv) (del\<lparr>Failures := Failures del + 1\<rparr>) delay (start [] d2) = (Ret (Inr ()), start [] d3)"
    using assms(11) by (simp add: PostponeDelivery_deadline_def ExecOne_def tx_bind_def tx_wrap_def tx_return_def)
  ultimately have "doHandle (deadline_pump p types) pu penv del env d = (Ret None, d3)"
    using assms(10,12,13)
    by (simp add: doHandle_def deadline_pump_def postpone_task_def commit_task_def Commit_def start_def Let_def)
  moreover have "commands d3 = commands d2" "MessageID del \<in> dMessageID ` set (deadlines d3)"
    using assms(11) by (auto simp: postpone_deadline_def length_Suc_conv filter_eq_Cons_iff split: if_splits)
  ultimately show ?thesis by blast
qed

definition failing_scope :: "(sample_effects, bytes) message_scope" where
  "failing_scope = \<lparr>mRoot = [1, 42], Mutated = True, Ended = False,
     CommandPacker = ((UUID 0 7, ''i''), [effect_envelope (UUID 0 7, ''i'') 0 [42]]), DeadlinePacker = ((UUID 0 7, ''i''), [])\<rparr>"

definition failing_command :: command_row where
  "failing_command = \<lparr>cMessageID = UUID 6 0, cTypeID = UUID 0 2, cEnvelope = [42], cFailures = 0, cDeliverAt = 5\<rparr>"

lemma failing_steps:
  "loadInstance_process sample_process ''i'' [] (start [] (deadline_db [1])) = (Ret (Inr (Some [1])), start [] (deadline_db [1]))"
  "addCommandsToQueue sample_process 5 (CommandPacker failing_scope) (start [] (deadline_db [1]))
    = (Ret (Inr ()), start [] ((deadline_db [1])\<lparr>commands := [failing_command]\<rparr>))"
  "postpone_deadline (UUID 0 1) 1 15 ((deadline_db [1])\<lparr>commands := [failing_command]\<rparr>)
    = Inr (1, (deadline_db [1])\<lparr>commands := [failing_command], deadlines := [sample_deadline\<lparr>dFailures := 1, dDeliverAt := 15\<rparr>]\<rparr>)"
  by (simp_all add: loadInstance_process_def lock_instance_def deadline_db_def empty_db_def sample_process_def tx_bind_def tx_call_def
      tx_return_def failed_def addCommandsToQueue_def failing_scope_def effect_packer_def effect_envelope_def effect_codec_def
      commandqueue_add_def Let_def failing_command_def postpone_deadline_def sample_deadline_def)

theorem failed_deadline_commits_commands_witness:
  "\<exists>d'. doHandle (deadline_pump sample_process {UUID 0 2}) deadline_backoff deadline_env (deadline_delivery sample_deadline)
      (effect_envelope (UUID 0 7, ''i'') 0 [42]) (deadline_db [1]) = (Ret None, d')
    \<and> commands d' = [failing_command] \<and> UUID 0 1 \<in> dMessageID ` set (deadlines d')"
proof -
  let ?env = "effect_envelope (UUID 0 7, ''i'') 0 [42]" and ?del = "deadline_delivery sample_deadline"
  have run: "UnpackMessage (pMessages sample_process) ?env 1 = Ret (Inr [[42]])" "newRoot_process sample_process = Ret (Inr [])"
    "ProcessInstanceDescription (pHandler sample_process) [1] = Ret []"
    "call_process sample_process (HandleDeadline (pHandler sample_process) [1] (ScheduledFor (Body ?env)) ([[42]] ! 0))
       (new_scope sample_process ?env (SourceInstanceId (Header ?env)) [1]) = Ret (Inr failing_scope)"
    "MarshalState (pHandler sample_process) (mRoot failing_scope) = Ret (Inl (New ''too long''))"
    "computeBackoff (pRand deadline_env) deadline_backoff (Failures ?del + 1) = Ret 10"
    "Mutated failing_scope" "\<not> Ended failing_scope" "pFaults deadline_env = []" "cErr (pCommit deadline_env) = None"
    by code_simp+
  have inst: "SourceInstanceId (Header ?env) = ''i''" "lNow (pLocks deadline_env) = 5" "MessageID ?del = UUID 0 1" "Failures ?del = 0"
    "dMessageID sample_deadline = UUID 0 1"
    by code_simp+
  show ?thesis
    using failed_deadline_commits_commands[of sample_process ?env "[[42]]" "[]" "deadline_db [1]" "[1]" "deadline_db [1]" "[]" failing_scope deadline_env
        "(deadline_db [1])\<lparr>commands := [failing_command]\<rparr>" "New ''too long''" deadline_backoff ?del 10]
      run failing_steps inst by simp
qed

section \<open>What the sink keeps\<close>

text \<open>An instance that has ended has ended for good.\<close>

definition ends_stay :: "db \<Rightarrow> db \<Rightarrow> bool" where
  "ends_stay d d' \<longleftrightarrow> (\<forall>k row. proc_instances d k = Some row \<longrightarrow> pEnded row \<longrightarrow> (\<exists>row'. proc_instances d' k = Some row' \<and> pEnded row'))"

lemma ends_stay_order [simp]: "reflp ends_stay" "transp ends_stay"
proof -
  show "reflp ends_stay" by (simp add: reflp_def ends_stay_def)
  show "transp ends_stay" unfolding transp_def ends_stay_def by blast
qed

lemma ends_stay_steps:
  "commandqueue_add now mid tid data key d = Inr (x, d') \<Longrightarrow> ends_stay d d'"
  "update_process key' inst (\<lambda>row. row\<lparr>pState := state\<rparr>) d = Inr (n, d') \<Longrightarrow> ends_stay d d'"
  "update_process key' inst (\<lambda>row. row\<lparr>pEnded := True, pState := None\<rparr>) d = Inr (n, d') \<Longrightarrow> ends_stay d d'"
  "delete_deadlines key' inst d = Inr (u, d') \<Longrightarrow> ends_stay d d'"
  "insert_deadline env data d = Inr (u, d') \<Longrightarrow> ends_stay d d'"
  "lock_instance key' inst d = Inr (row, d') \<Longrightarrow> ends_stay d d'"
proof -
  show "commandqueue_add now mid tid data key d = Inr (x, d') \<Longrightarrow> ends_stay d d'"
    using commandqueue_add_frame(2) by (fastforce simp: ends_stay_def)
qed (auto simp: ends_stay_def update_process_def delete_deadlines_def insert_deadline_def lock_instance_def split: option.splits if_splits)

lemma ends_stay_effects: "tx_keeps ends_stay (apply_effects p now inst scope)"
proof -
  have "tx_keeps ends_stay (add_commands api now envs)" for api envs
    by (induction envs) (auto intro!: frame_rules dest: ends_stay_steps(1) split: sum.splits)
  moreover have "tx_keeps ends_stay (insert_deadlines api envs)" for api envs
    by (induction envs) (auto intro!: frame_rules dest: ends_stay_steps(5) split: sum.splits)
  ultimately show ?thesis
    unfolding apply_effects_def addCommandsToQueue_def persistDeadlines_def saveInstance_def endInstance_def
    by (auto intro!: frame_rules dest: ends_stay_steps split: option.splits)
qed

lemma dispatch_process_Inr:
  assumes "dispatch_process p now env s = (Ret (Inr u), s')" and "\<not> Broken s"
  shows "s' = s \<or> (\<exists>inst row s1. lock_instance (pKey p) inst (Db s) = Inr (row, Db s1) \<and> \<not> Broken s1
    \<and> (pEnded row \<and> s' = s1
       \<or> \<not> pEnded row \<and> (\<exists>scope code root. call_process p code (new_scope p env inst root) = Ret (Inr scope)
           \<and> apply_effects p now inst scope s1 = (Ret (Inr u), s'))))"
proof (cases "s' = s")
  case False
  obtain ms inst root0 loaded s1 where l: "loadInstance_process p inst root0 s = (Ret (Inr loaded), s1)"
    and rest: "(case loaded of None \<Rightarrow> tx_return () | Some root \<Rightarrow>
           tx_bind (tx_call (go_value (ProcessInstanceDescription (pHandler p) root))) (\<lambda>_.
           tx_bind (tx_wrap (wrapf ''unable to handle event'') (tx_call (call_process p
             (HandleEvent (pHandler p) root (CreatedAt (Body env)) (ms ! 0)) (new_scope p env inst root)))) (\<lambda>scope.
           apply_effects p now inst scope))) s1 = (Ret (Inr u), s')"
    using assms(1) False unfolding dispatch_process_def tx_bind_Inr[of "tx_wrap _ _"] tx_bind_Inr[of "tx_call _"]
      tx_bind_Inr[of "loadInstance_process _ _ _"] tx_call_eq tx_wrap_Inr
    by (auto simp: tx_bind_Inr tx_return_eq tx_call_eq split: if_splits)
  have keeps: "tx_keeps (\<lambda>_ _. True) (loadInstance_process p inst root0)"
    unfolding loadInstance_process_def by (intro frame_rules) (auto simp: reflp_def transp_def intro!: frame_rules)
  have nb: "\<not> Broken s1" using tx_keeps_Inr[OF keeps l assms(2)] by simp
  from loadInstance_process_cases[OF l nb] obtain row where
    row: "lock_instance (pKey p) inst (Db s) = Inr (row, Db s1)" "loaded = None \<longleftrightarrow> pEnded row" by auto
  show ?thesis
  proof (cases loaded)
    case None
    then show ?thesis using rest row nb by (auto simp: tx_return_eq)
  next
    case (Some root)
    then obtain scope where
      "call_process p (HandleEvent (pHandler p) root (CreatedAt (Body env)) (ms ! 0)) (new_scope p env inst root) = Ret (Inr scope)"
      "apply_effects p now inst scope s1 = (Ret (Inr u), s')"
      using rest by (auto simp: tx_simps)
    then show ?thesis using row nb Some by blast
  qed
qed simp

lemma dispatch_process_inv:
  assumes "dispatch_process p now env s = (Ret (Inr u), s')" and "\<not> Broken s" and "process_ok p src" and "proc_inv (pEnvelopes p) (Db s)"
  shows "proc_inv (pEnvelopes p) (Db s') \<and> ends_stay (Db s) (Db s')"
  using dispatch_process_Inr[OF assms(1,2)]
proof (elim disjE exE conjE)
  assume "s' = s"
  then show ?thesis using assms(4) by (simp add: ends_stay_def)
next
  fix inst row s1
  assume "lock_instance (pKey p) inst (Db s) = Inr (row, Db s1)" "s' = s1"
  then show ?thesis using lock_instance_inv(1)[OF _ assms(4)] ends_stay_steps(6) by blast
next
  fix inst row s1 scope code root
  assume l: "lock_instance (pKey p) inst (Db s) = Inr (row, Db s1)" "\<not> Broken s1" "\<not> pEnded row"
    and c: "call_process p code (new_scope p env inst root) = Ret (Inr scope)" and a: "apply_effects p now inst scope s1 = (Ret (Inr u), s')"
  note li = lock_instance_inv[OF l(1) assms(4)]
  have live: "live (Db s1) (pKey p, inst)" using li(2) l(3) by (simp add: live_def)
  have "proc_inv (pEnvelopes p) (Db s')"
  proof (cases "Ended scope")
    case True
    then show ?thesis using apply_effects_ended[OF a True l(2) li(1) live] by blast
  next
    case False
    then show ?thesis
      using tx_keeps_Inr[OF apply_effects_keeps[OF assms(3) call_process_source[OF assms(3) c] False] a l(2)] li(1) live
      unfolding extends_live_def by blast
  qed
  moreover have "ends_stay (Db s) (Db s')"
    using ends_stay_steps(6)[OF l(1)] tx_keeps_Inr[OF ends_stay_effects a l(2)] ends_stay_order(2) by (blast dest: transpD)
  ultimately show ?thesis by blast
qed

definition proc_keeps :: "envelope_api \<Rightarrow> db \<Rightarrow> db \<Rightarrow> bool" where
  "proc_keeps api d d' \<longleftrightarrow> (proc_inv api d \<longrightarrow> proc_inv api d' \<and> ends_stay d d')"

lemma proc_keeps_order: "reflp (proc_keeps api)" "transp (proc_keeps api)"
proof -
  show "reflp (proc_keeps api)" by (simp add: reflp_def proc_keeps_def ends_stay_def)
  show "transp (proc_keeps api)" unfolding transp_def proc_keeps_def using ends_stay_order(2) by (blast dest: transpD)
qed

lemma proc_keeps_trans: "proc_keeps api d d' \<Longrightarrow> proc_keeps api d' d'' \<Longrightarrow> proc_keeps api d d''"
  using proc_keeps_order(2) by (rule transpD)

lemma proc_keeps_checkpoints: "proc_keeps api d (d\<lparr>checkpoints := c\<rparr>)"
  by (simp add: proc_keeps_def proc_inv_def ends_stay_def wf_queue_def live_def)

lemma consume_tx_keeps:
  assumes "consume_tx p now sid cp next env s = (Ret (Inr a), s')" and "process_ok p src"
  shows "proc_keeps (pEnvelopes p) (Db s) (Db s')"
proof -
  obtain b s1 where b: "exec (\<lambda>e. e) (lock_checkpoint (pKey p) sid) s = (Ret (Inr b), s1)"
    and rest: "(if b \<noteq> cp then tx_return b
       else tx_bind (case env of None \<Rightarrow> tx_return () | Some env \<Rightarrow> dispatch_process p now env) (\<lambda>_.
         tx_bind (ExecOne (set_checkpoint (pKey p) sid next)) (\<lambda>_. tx_return b))) s1 = (Ret (Inr a), s')"
    using assms(1) unfolding consume_tx_def tx_bind_Inr[of "exec (\<lambda>e. e) (lock_checkpoint (pKey p) sid)"] by blast
  have s1: "proc_keeps (pEnvelopes p) (Db s) (Db s1)" "\<not> Broken s1"
    using b proc_keeps_checkpoints proc_keeps_order(1)
    by (auto simp: exec_Inr lock_checkpoint_def reflp_def split: option.splits)
  show ?thesis
  proof (cases "b = cp")
    case False
    then show ?thesis using rest s1 by (simp add: tx_return_eq)
  next
    case True
    then obtain s2 where d: "(case env of None \<Rightarrow> tx_return () | Some env \<Rightarrow> dispatch_process p now env) s1 = (Ret (Inr ()), s2)"
      and set: "set_checkpoint (pKey p) sid next (Db s2) = Inr (1, Db s')"
      using rest by (auto simp: tx_bind_Inr ExecOne_Inr tx_return_eq)
    have "proc_keeps (pEnvelopes p) (Db s1) (Db s2)"
    proof (cases env)
      case None
      then show ?thesis using d proc_keeps_order(1) by (auto simp: tx_return_eq reflp_def)
    next
      case (Some x)
      then show ?thesis using d dispatch_process_inv[OF _ s1(2) assms(2)] by (auto simp: proc_keeps_def)
    qed
    moreover have "proc_keeps (pEnvelopes p) (Db s2) (Db s')"
      using set_checkpoint_Inr[OF set] proc_keeps_checkpoints by simp
    ultimately show ?thesis using s1(1) proc_keeps_trans by blast
  qed
qed

lemma consume_process_keeps:
  assumes "consume_process p e sid cp next env d = (r, d')" and "process_ok p src"
  shows "proc_keeps (pEnvelopes p) (sOthers e d) d'"
proof -
  obtain x where t: "Transact_tx (sTx e) (sFaults e) (consume_tx p (sNow e) sid cp next env) (sOthers e d) = (x, d')"
    using assms(1) by (auto simp: consume_process_def split: prod.splits go.splits sum.splits)
  then show ?thesis
  proof (cases rule: Transact_tx_cases)
    case rolled_back
    then show ?thesis using proc_keeps_order(1) by (simp add: reflp_def)
  qed (use consume_tx_keeps[OF _ assms(2)] in \<open>fastforce simp: start_def\<close>)+
qed

lemma consume_events_keeps:
  assumes "process_ok p src" and "\<And>n d. proc_keeps (pEnvelopes p) d (sOthers (e n) d)"
  shows "consume_events p e sid stop cp envs d = (r, d') \<Longrightarrow> proc_keeps (pEnvelopes p) d d'"
proof (induction envs arbitrary: cp d)
  case Nil
  show ?case
  proof (cases "cp < stop")
    case True
    then have "consume_process p (e stop) sid cp stop None d = (r, d')" using Nil by simp
    from consume_process_keeps[OF this assms(1)] show ?thesis using assms(2) proc_keeps_trans by blast
  next
    case False
    then show ?thesis using Nil proc_keeps_order(1) by (simp add: reflp_def)
  qed
next
  case (Cons env envs)
  have refl: "proc_keeps (pEnvelopes p) d d" using proc_keeps_order(1) by (simp add: reflp_def)
  show ?case
  proof (cases "\<exists>n. offsetOf env = Ret n \<and> \<not> n < cp")
    case False
    then show ?thesis using Cons refl by (auto split: go.splits if_splits)
  next
    case True
    then obtain n where n: "offsetOf env = Ret n" "\<not> n < cp" by blast
    obtain x d1 where x: "consume_process p (e (n + 1)) sid cp (n + 1) (Some env) d = (x, d1)" by fastforce
    have d1: "proc_keeps (pEnvelopes p) d d1"
      using consume_process_keeps[OF x assms(1)] assms(2) proc_keeps_trans by blast
    have "d' = d1 \<or> (\<exists>cp'. consume_events p e sid stop cp' envs d1 = (r, d'))"
      using Cons.prems n x by (auto split: go.splits prod.splits bool.splits option.splits)
    then show ?thesis using d1 Cons.IH proc_keeps_trans by blast
  qed
qed

text \<open>
  C7. The instances and deadlines of a process stay well-formed.  Whatever the outcome of \<open>ConsumeSegment\<close>, and as long as the other users of the
  tables do so, it keeps that message IDs are unique in the queues, that an instance that has ended has no state, that every
  deadline is addressed to an instance that exists and has not ended, and that an instance that has ended has ended for good.
\<close>

theorem process_state_sound:
  assumes "ConsumeSegment_process p e cp seg d = (r, d')" and "process_ok p src" and "proc_inv (pEnvelopes p) d"
    and "\<forall>n d. proc_inv (pEnvelopes p) d \<longrightarrow> proc_inv (pEnvelopes p) (sOthers (e n) d) \<and> ends_stay d (sOthers (e n) d)"
  shows "proc_inv (pEnvelopes p) d' \<and> ends_stay d d'"
proof -
  have "proc_keeps (pEnvelopes p) d (sOthers (e n) d)" for n d using assms(4) by (simp add: proc_keeps_def)
  from consume_events_keeps[OF assms(2) this assms(1)[unfolded ConsumeSegment_process_def]] assms(3)
  show ?thesis by (simp add: proc_keeps_def)
qed

theorem process_state_sound_witness:
  "\<exists>d'. ConsumeSegment_process sample_process quiet 0 sample_segment empty_db = (Ret (2, True, None), d') \<and> deadlines d' \<noteq> []
    \<and> proc_inv effect_codec d'"
proof -
  let ?r = "ConsumeSegment_process sample_process quiet 0 sample_segment empty_db"
  have run: "fst ?r = Ret (2, True, None)" "deadlines (snd ?r) \<noteq> []" by code_simp+
  then have r: "?r = (Ret (2, True, None), snd ?r)" by (metis prod.collapse)
  have "proc_inv effect_codec empty_db" by (simp add: proc_inv_def empty_db_def wf_queue_def)
  moreover have "pEnvelopes sample_process = effect_codec" by (simp add: sample_process_def)
  ultimately have "proc_inv effect_codec (snd ?r)"
    using process_state_sound[OF r sample_process_ok] by (simp add: quiet_def ends_stay_def)
  then show ?thesis using r run(2) by blast
qed

end
