(* ===== verification/Spec2Isabelle.thy ===== *)
theory Spec2Isabelle
  imports Cache Local Watcher Memory Remote Server Feed Supervisor Signal Cluster MessagePump Aggregate Integration Deadlines
begin

text \<open>
  Header.
\<close>

end
